(* ===== verification/Gateway_Prelude.thy ===== *)
theory Gateway_Prelude
  imports Main "HOL-Library.Word" "HOL-Library.Signed_Division" "HOL-Library.Multiset"
    "HOL-Library.Sublist"
begin

text \<open>
  Shared vocabulary of the development: Go's machine integers and durations, the byte-string
  functions of package \<^verbatim>\<open>strings\<close> the gateway uses, the goroutine-indexed
  update of local states, and the generic list lemmas that the component theories rest on.

  A Go \<^verbatim>\<open>int64\<close> (also \<^verbatim>\<open>time.Duration\<close>, in nanoseconds) is an \<open>int\<close>
  with the wrap-around of arithmetic written out (\<open>wrap64\<close>); the breaker's
  \<^verbatim>\<open>atomic.Int32\<close> cells are \<open>32 word\<close>. A Go \<^verbatim>\<open>string\<close> is a byte list, so
  \<open>string\<close> (one \<open>char\<close> per byte) is exact and \<open>length\<close> is Go's \<^verbatim>\<open>len\<close>.
\<close>

named_theorems gw_simps "definitions and rewrite rules of the gateway model"
named_theorems gw_step "one-step facts about the gateway's step functions"

section \<open>Machine integers and durations\<close>

type_synonym int32 = "32 word"
type_synonym duration = int
type_synonym instant = int

definition int64_min :: int where "int64_min = - (2 ^ 63)"
definition int64_max :: int where "int64_max = 2 ^ 63 - 1"

definition in_int64 :: "int \<Rightarrow> bool" where
  "in_int64 x \<longleftrightarrow> int64_min \<le> x \<and> x \<le> int64_max"

text \<open>Two's-complement wrap-around of an \<^verbatim>\<open>int64\<close> operation.\<close>
definition wrap64 :: "int \<Rightarrow> int" where
  "wrap64 x = (x + 2 ^ 63) mod 2 ^ 64 - 2 ^ 63"

text \<open>\<^verbatim>\<open>time.Time.Sub\<close> saturates instead of wrapping.\<close>
definition sat64 :: "int \<Rightarrow> int" where
  "sat64 x = (if x < int64_min then int64_min else if int64_max < x then int64_max else x)"

text \<open>\<^verbatim>\<open>int32(n)\<close>: conversion of an \<^verbatim>\<open>int\<close> keeps the low 32 bits.\<close>
definition to_int32 :: "int \<Rightarrow> int32" where
  "to_int32 n = word_of_int n"

definition Millisecond :: duration where "Millisecond = 1000000"
definition Second :: duration where "Second = 1000000000"
definition Minute :: duration where "Minute = 60000000000"

text \<open>\<^verbatim>\<open>Duration.Milliseconds()\<close>: integer division, truncated towards zero.\<close>
definition Milliseconds :: "duration \<Rightarrow> int" where
  "Milliseconds d = d sdiv 1000000"

text \<open>\<^verbatim>\<open>now.Sub(t)\<close> and \<^verbatim>\<open>time.Since(t)\<close> for a clock that reads \<open>now\<close>.\<close>
definition time_Sub :: "instant \<Rightarrow> instant \<Rightarrow> duration" where
  "time_Sub now t = sat64 (now - t)"

lemmas duration_consts = Millisecond_def Second_def Minute_def

lemma wrap64_id [simp]: "in_int64 x \<Longrightarrow> wrap64 x = x"
  by (simp add: in_int64_def wrap64_def int64_min_def int64_max_def)

lemma in_int64_wrap64 [simp]: "in_int64 (wrap64 x)"
proof -
  have "0 \<le> (x + 2 ^ 63) mod 2 ^ 64" and "(x + 2 ^ 63) mod 2 ^ 64 < 2 ^ 64"
    by (rule pos_mod_sign pos_mod_bound, simp)+
  then show ?thesis by (simp add: in_int64_def wrap64_def int64_min_def int64_max_def)
qed

lemma in_int64_sat64 [simp]: "in_int64 (sat64 x)"
  by (simp add: in_int64_def sat64_def int64_min_def int64_max_def)

lemma sat64_id [simp]: "in_int64 x \<Longrightarrow> sat64 x = x"
  by (simp add: in_int64_def sat64_def)

lemma sat64_mono: "x \<le> y \<Longrightarrow> sat64 x \<le> sat64 y"
  by (simp add: sat64_def int64_min_def int64_max_def)

lemma sat64_less_iff:
  assumes "in_int64 c" "int64_min < c"
  shows "sat64 x < c \<longleftrightarrow> x < c"
  using assms by (auto simp: sat64_def in_int64_def int64_min_def int64_max_def)

lemma sint_to_int32:
  assumes "- (2 ^ 31) \<le> n" "n < 2 ^ 31"
  shows "sint (to_int32 n) = n"
  using assms by (simp add: to_int32_def sint_sbintrunc' signed_take_bit_int_eq_self)

lemma sint_succ_int32:
  fixes w :: int32
  assumes "0 \<le> sint w" "sint w < 2 ^ 31 - 1"
  shows "sint (w + 1) = sint w + 1"
proof -
  have "w + 1 = word_of_int (sint w + 1)" by simp
  then have "sint (w + 1) = signed_take_bit 31 (sint w + 1)"
    by (simp only: sint_sbintrunc') simp
  also have "\<dots> = sint w + 1"
    using assms by (simp add: signed_take_bit_int_eq_self)
  finally show ?thesis .
qed

section \<open>Byte strings\<close>

text \<open>\<^verbatim>\<open>strings.TrimPrefix\<close>.\<close>
definition TrimPrefix :: "string \<Rightarrow> string \<Rightarrow> string" where
  "TrimPrefix s p = (if prefix p s then drop (length p) s else s)"

text \<open>\<^verbatim>\<open>strings.TrimLeft\<close> and \<^verbatim>\<open>strings.TrimRight\<close> with a one-byte ASCII cutset.\<close>
definition TrimLeft :: "string \<Rightarrow> char \<Rightarrow> string" where
  "TrimLeft s c = dropWhile (\<lambda>x. x = c) s"

definition TrimRight :: "string \<Rightarrow> char \<Rightarrow> string" where
  "TrimRight s c = rev (dropWhile (\<lambda>x. x = c) (rev s))"

text \<open>\<^verbatim>\<open>strings.Split\<close> with a one-byte separator: always at least one piece.\<close>
fun Split :: "string \<Rightarrow> char \<Rightarrow> string list" where
  "Split [] c = [[]]"
| "Split (x # xs) c =
     (if x = c then [] # Split xs c
      else (case Split xs c of [] \<Rightarrow> [[x]] | p # ps \<Rightarrow> (x # p) # ps))"

fun Join :: "string list \<Rightarrow> char \<Rightarrow> string" where
  "Join [] c = []"
| "Join [p] c = p"
| "Join (p # ps) c = p @ c # Join ps c"

lemma Split_not_Nil [simp]: "Split s c \<noteq> []"
  by (induction s) (auto split: list.splits)

lemma Join_Split: "Join (Split s c) c = s"
proof (induction s)
  case (Cons x xs)
  obtain p ps where sp: "Split xs c = p # ps" by (cases "Split xs c") auto
  with Cons.IH show ?case by (cases ps) auto
qed simp

lemma Split_no_sep: "p \<in> set (Split s c) \<Longrightarrow> c \<notin> set p"
proof (induction s arbitrary: p)
  case (Cons x xs)
  obtain q qs where sp: "Split xs c = q # qs" by (cases "Split xs c") auto
  with Cons show ?case by (auto split: if_splits)
qed simp

text \<open>\<^verbatim>\<open>%d\<close>: decimal notation.\<close>
fun itoa_nat :: "nat \<Rightarrow> string" where
  "itoa_nat n = (if n < 10 then [char_of (48 + n)] else itoa_nat (n div 10) @ [char_of (48 + n mod 10)])"

declare itoa_nat.simps [simp del]

definition itoa :: "int \<Rightarrow> string" where
  "itoa n = (if n < 0 then CHR ''-'' # itoa_nat (nat (- n)) else itoa_nat (nat n))"

text \<open>
  The white space of \<^verbatim>\<open>unicode.IsSpace\<close>, as the byte sequences that encode it in
  UTF-8: \<^verbatim>\<open>strings.TrimSpace\<close> removes exactly these from both ends.
\<close>
definition space_encodings :: "string list" where
  "space_encodings =
     map (\<lambda>bs. map char_of bs)
     ([[9], [10], [11], [12], [13], [32], [194, 133], [194, 160], [225, 154, 128],
       [226, 128, 168], [226, 128, 169], [226, 128, 175], [226, 129, 159], [227, 128, 128]]
      @ map (\<lambda>k. [226, 128, k]) [128..<139 :: nat])"

lemma space_encodings_nonempty: "p \<in> set space_encodings \<Longrightarrow> p \<noteq> []"
  by (auto simp: space_encodings_def)

function trim_front :: "string list \<Rightarrow> string \<Rightarrow> string" where
  "trim_front ps s =
     (case find (\<lambda>p. p \<noteq> [] \<and> prefix p s) ps of
        None \<Rightarrow> s
      | Some p \<Rightarrow> trim_front ps (drop (length p) s))"
  by pat_completeness auto
termination
  by (relation "measure (\<lambda>(ps, s). length s)")
     (auto simp: find_Some_iff prefix_def)

declare trim_front.simps [simp del]

definition TrimSpace :: "string \<Rightarrow> string" where
  "TrimSpace s = rev (trim_front (map rev space_encodings) (rev (trim_front space_encodings s)))"

lemma trim_front_suffix: "suffix (trim_front ps s) s"
proof (induction ps s rule: trim_front.induct)
  case (1 ps s)
  show ?case
  proof (cases "find (\<lambda>p. p \<noteq> [] \<and> prefix p s) ps")
    case None
    then show ?thesis by (simp add: trim_front.simps [of ps s])
  next
    case (Some p)
    from "1" [OF Some] have "suffix (trim_front ps (drop (length p) s)) s"
      using suffix_drop suffix_order.trans by blast
    with Some show ?thesis by (simp add: trim_front.simps [of ps s])
  qed
qed

lemma trim_front_none:
  "p \<in> set ps \<Longrightarrow> p \<noteq> [] \<Longrightarrow> \<not> prefix p (trim_front ps s)"
proof (induction ps s rule: trim_front.induct)
  case (1 ps s)
  show ?case
  proof (cases "find (\<lambda>p. p \<noteq> [] \<and> prefix p s) ps")
    case None
    then have "trim_front ps s = s" by (simp add: trim_front.simps [of ps s])
    with None "1.prems" show ?thesis by (auto simp: find_None_iff)
  next
    case (Some q)
    with "1.IH" [OF Some] "1.prems" show ?thesis by (simp add: trim_front.simps [of ps s])
  qed
qed

lemma length_TrimSpace: "length (TrimSpace s) \<le> length s"
  unfolding TrimSpace_def
  by (metis trim_front_suffix length_rev order.trans suffix_length_le)

section \<open>Local states of goroutines\<close>

text \<open>
  A family of goroutines is a list of local states; goroutine \<open>i\<close> moves by
  \<open>list_update\<close>. The next lemmas count goroutines in a given kind of local state.
\<close>

abbreviation count_pc :: "('p \<Rightarrow> bool) \<Rightarrow> 'p list \<Rightarrow> nat" where
  "count_pc P ps \<equiv> length (filter P ps)"

lemma count_pc_update:
  assumes "i < length ps"
  shows "count_pc P (ps[i := p]) + (if P (ps ! i) then 1 else 0)
    = count_pc P ps + (if P p then 1 else 0)"
  using assms
proof (induction ps arbitrary: i)
  case (Cons x xs)
  then show ?case by (cases i) auto
qed simp

lemma count_pc_pos: "i < length ps \<Longrightarrow> P (ps ! i) \<Longrightarrow> 0 < count_pc P ps"
  by (auto simp: filter_empty_conv) 

lemma count_pc_zero: "count_pc P ps = 0 \<longleftrightarrow> (\<forall>p \<in> set ps. \<not> P p)"
  by (auto simp: filter_empty_conv)

lemma count_pc_le_1:
  assumes "count_pc P ps \<le> 1" "i < length ps" "j < length ps" "P (ps ! i)" "P (ps ! j)"
  shows "i = j"
proof (rule ccontr)
  assume "i \<noteq> j"
  define js where "js = filter (\<lambda>k. P (ps ! k)) [0..<length ps]"
  have "filter P ps = map ((!) ps) js"
    using filter_map [of P "(!) ps" "[0..<length ps]"] by (simp add: js_def map_nth comp_def)
  then have "length js \<le> 1" using assms(1) by simp
  moreover have "{i, j} \<subseteq> set js" using assms by (auto simp: js_def)
  then have "card {i, j} \<le> length js" by (meson card_length card_mono finite_set order.trans)
  ultimately show False using \<open>i \<noteq> j\<close> by simp
qed

lemma sum_list_update_nat:
  fixes g :: "'p \<Rightarrow> nat"
  assumes "i < length ps"
  shows "sum_list (map g (ps[i := p])) + g (ps ! i) = sum_list (map g ps) + g p"
  using assms
proof (induction ps arbitrary: i)
  case (Cons x xs)
  then show ?case by (cases i) auto
qed simp

end
