(* ===== verification/Float64.thy ===== *)
theory Float64
  imports Complex_Main Gateway_Prelude
begin

text \<open>
  Go's \<^verbatim>\<open>float64\<close> arithmetic (IEEE binary64, round to nearest, ties to even), as the
  latency tracker and the hedge monitor use it. A finite value is the rational number it
  denotes; every operation rounds the exact result once (\<open>fl\<close>) and overflows to an
  infinity. The sign of zero is not kept: the modelled code never divides by a variable, so
  it cannot be observed. Everything is executable.

  The locale \<open>fp_rounding\<close> states the two laws of rounding the clients rely on
  (non-negative values stay non-negative, bounded relative plus absolute error) and proves
  the bound for a weighted mean once; \<open>fl\<close> is its interpretation.
\<close>

section \<open>Rounding\<close>

datatype float64 = Fin rat | PInf | NInf | NaN

definition pow2 :: "int \<Rightarrow> rat" where
  "pow2 e = (if 0 \<le> e then 2 ^ nat e else 1 / 2 ^ nat (- e))"

text \<open>The number of binary digits of a positive integer.\<close>
function bit_length :: "int \<Rightarrow> nat" where
  "bit_length p = (if p \<le> 0 then 0 else Suc (bit_length (p div 2)))"
  by pat_completeness auto
termination
  by (relation "measure nat") auto

declare bit_length.simps [simp del]

text \<open>\<open>ilog2 x\<close> is the binary exponent of a positive rational.\<close>
definition ilog2 :: "rat \<Rightarrow> int" where
  "ilog2 x =
     (let (p, q) = quotient_of x;
          k = int (bit_length p) - int (bit_length q)
      in if pow2 k \<le> x then k else k - 1)"

text \<open>The exponent of the last place: 53 significant bits, none below \<open>2 ^ -1074\<close>.\<close>
definition ulp_exp :: "rat \<Rightarrow> int" where
  "ulp_exp x = (if x = 0 then - 1074 else max (ilog2 \<bar>x\<bar> - 52) (- 1074))"

definition round_even :: "rat \<Rightarrow> int" where
  "round_even x =
     (let f = \<lfloor>x\<rfloor>; d = x - of_int f
      in if d < 1 / 2 then f else if 1 / 2 < d then f + 1 else if even f then f else f + 1)"

definition fl :: "rat \<Rightarrow> rat" where
  "fl x = of_int (round_even (x / pow2 (ulp_exp x))) * pow2 (ulp_exp x)"

definition max_finite :: rat where
  "max_finite = (2 ^ 53 - 1) * 2 ^ 971"

text \<open>The literal speeds evaluation up.\<close>
lemma max_finite_code [code]:
  "max_finite = 179769313486231570814527423731704356798070567525844996598917476803157260780028538760589558632766878171540458953514382464234321326889464182768467546703537516986049910576551282076245490090389328944075868508455133942304583236903222948165808559332123348274797826204144723168738177180919299881250404026184124858368"
  by (simp add: max_finite_def)

definition to_float64 :: "rat \<Rightarrow> float64" where
  "to_float64 x =
     (let v = fl x in if max_finite < v then PInf else if v < - max_finite then NInf else Fin v)"

section \<open>Operations\<close>

definition MaxFloat64 :: float64 where
  "MaxFloat64 = Fin max_finite"

text \<open>\<^verbatim>\<open>float64(n)\<close> of an integer.\<close>
definition float_of_int :: "int \<Rightarrow> float64" where
  "float_of_int n = to_float64 (of_int n)"

fun f_neg :: "float64 \<Rightarrow> float64" where
  "f_neg (Fin x) = Fin (- x)"
| "f_neg PInf = NInf"
| "f_neg NInf = PInf"
| "f_neg NaN = NaN"

fun f_add :: "float64 \<Rightarrow> float64 \<Rightarrow> float64" where
  "f_add (Fin x) (Fin y) = to_float64 (x + y)"
| "f_add NaN _ = NaN"
| "f_add _ NaN = NaN"
| "f_add PInf NInf = NaN"
| "f_add NInf PInf = NaN"
| "f_add PInf _ = PInf"
| "f_add _ PInf = PInf"
| "f_add NInf _ = NInf"
| "f_add _ NInf = NInf"

definition f_sub :: "float64 \<Rightarrow> float64 \<Rightarrow> float64" where
  "f_sub x y = f_add x (f_neg y)"

fun inf_times :: "rat \<Rightarrow> float64" where
  "inf_times x = (if x = 0 then NaN else if 0 < x then PInf else NInf)"

fun f_mul :: "float64 \<Rightarrow> float64 \<Rightarrow> float64" where
  "f_mul (Fin x) (Fin y) = to_float64 (x * y)"
| "f_mul NaN _ = NaN"
| "f_mul _ NaN = NaN"
| "f_mul (Fin x) PInf = inf_times x"
| "f_mul (Fin x) NInf = inf_times (- x)"
| "f_mul PInf (Fin y) = inf_times y"
| "f_mul NInf (Fin y) = inf_times (- y)"
| "f_mul PInf PInf = PInf"
| "f_mul NInf NInf = PInf"
| "f_mul _ _ = NInf"

fun f_div :: "float64 \<Rightarrow> float64 \<Rightarrow> float64" where
  "f_div (Fin x) (Fin y) = (if y = 0 then inf_times x else to_float64 (x / y))"
| "f_div NaN _ = NaN"
| "f_div _ NaN = NaN"
| "f_div (Fin x) _ = Fin 0"
| "f_div PInf (Fin y) = (if y < 0 then NInf else PInf)"
| "f_div NInf (Fin y) = (if y < 0 then PInf else NInf)"
| "f_div _ _ = NaN"

fun f_less :: "float64 \<Rightarrow> float64 \<Rightarrow> bool" where
  "f_less (Fin x) (Fin y) = (x < y)"
| "f_less NaN _ = False"
| "f_less _ NaN = False"
| "f_less PInf _ = False"
| "f_less _ PInf = True"
| "f_less _ NInf = False"
| "f_less NInf _ = True"

fun f_eq :: "float64 \<Rightarrow> float64 \<Rightarrow> bool" where
  "f_eq NaN _ = False"
| "f_eq _ NaN = False"
| "f_eq x y = (x = y)"

definition f_le :: "float64 \<Rightarrow> float64 \<Rightarrow> bool" where
  "f_le x y \<longleftrightarrow> f_less x y \<or> f_eq x y"

text \<open>The rational a float denotes, and the predicates the clients' bounds use.\<close>

fun is_fin :: "float64 \<Rightarrow> bool" where
  "is_fin (Fin _) = True"
| "is_fin _ = False"

fun fval :: "float64 \<Rightarrow> rat" where
  "fval (Fin x) = x"
| "fval _ = 0"

section \<open>Facts about rounding\<close>

lemma pow2_pos [simp]: "0 < pow2 e"
  by (simp add: pow2_def)

lemma pow2_nonneg [simp]: "0 \<le> pow2 e"
  using pow2_pos [of e] by linarith

lemma pow2_nonzero [simp]: "pow2 e \<noteq> 0"
  using pow2_pos [of e] by linarith

lemma pow2_powi: "pow2 e = 2 powi e"
  by (simp add: pow2_def power_int_def field_simps)

lemma pow2_add: "pow2 (a + b) = pow2 a * pow2 b"
  by (simp add: pow2_powi power_int_add)

lemma pow2_mono: "a \<le> b \<Longrightarrow> pow2 a \<le> pow2 b"
  by (simp add: pow2_powi power_int_increasing)

lemma pow2_int: "pow2 (int n) = 2 ^ n"
  by (simp add: pow2_def)

lemma pow2_quot: "pow2 (int a - int b) = 2 ^ a / 2 ^ b"
  by (simp add: pow2_powi power_int_diff)

lemma bit_length_pos: "0 < p \<Longrightarrow> 0 < bit_length p"
  by (subst bit_length.simps) simp

lemma bit_length_bounds: "0 < p \<Longrightarrow> 2 ^ (bit_length p - 1) \<le> p \<and> p < 2 ^ bit_length p"
proof (induction p rule: bit_length.induct)
  case (1 p)
  show ?case
  proof (cases "p = 1")
    case True
    then show ?thesis by (simp add: bit_length.simps)
  next
    case False
    then have h: "0 < p div 2" using "1.prems" by simp
    with "1" have "2 ^ (bit_length (p div 2) - 1) \<le> p div 2 \<and> p div 2 < 2 ^ bit_length (p div 2)"
      by simp
    moreover have "bit_length p = Suc (bit_length (p div 2))"
      using "1.prems" by (simp add: bit_length.simps [of p])
    moreover obtain k where "bit_length (p div 2) = Suc k"
      using bit_length_pos [OF h] gr0_conv_Suc by blast
    moreover have "2 * (p div 2) \<le> p" "p < 2 * (p div 2) + 2" by presburger+
    ultimately show ?thesis by simp
  qed
qed

text \<open>The lower half of the exponent's specification is what the error bound needs.\<close>

lemma ilog2_le:
  assumes "0 < x"
  shows "pow2 (ilog2 x) \<le> x"
proof -
  obtain p q where pq: "quotient_of x = (p, q)" by (cases "quotient_of x")
  have q: "0 < q" using quotient_of_denom_pos [OF pq] .
  have x: "x = of_int p / of_int q" using quotient_of_div [OF pq] .
  then have p: "0 < p" using assms q by (simp add: zero_less_divide_iff)
  define a b where "a = bit_length p" and "b = bit_length q"
  have a: "2 ^ (a - 1) \<le> p" "0 < a" and b: "q < 2 ^ b"
    using bit_length_bounds bit_length_pos p q by (auto simp: a_def b_def)
  have "(of_int (2 ^ (a - 1)) :: rat) \<le> of_int p" using a by (simp only: of_int_le_iff)
  then have "(2 :: rat) ^ (a - 1) \<le> of_int p" by simp
  moreover have "(of_int q :: rat) \<le> of_int (2 ^ b)" using b by (simp only: of_int_le_iff)
  then have "(of_int q :: rat) \<le> 2 ^ b" by simp
  ultimately have "2 ^ (a - 1) / 2 ^ b \<le> x"
    unfolding x using q p by (intro frac_le) auto
  moreover have "pow2 (int a - int b - 1) = 2 ^ (a - 1) / 2 ^ b"
    using pow2_quot [of "a - 1" b] a by (simp add: algebra_simps of_nat_diff)
  ultimately show ?thesis
    by (simp add: ilog2_def pq Let_def flip: a_def b_def)
qed

lemma round_even_error: "\<bar>of_int (round_even x) - x\<bar> \<le> 1 / 2"
proof -
  have "of_int \<lfloor>x\<rfloor> \<le> x" "x < of_int \<lfloor>x\<rfloor> + 1" using floor_correct [of x] by auto
  then show ?thesis unfolding round_even_def Let_def by (auto simp: abs_le_iff)
qed

lemma round_even_nonneg: "0 \<le> x \<Longrightarrow> 0 \<le> round_even x"
  using zero_le_floor [of x] by (auto simp: round_even_def Let_def simp del: zero_le_floor)

lemma fl_0 [simp]: "fl 0 = 0"
  by (simp add: fl_def round_even_def)

lemma fl_nonneg: "0 \<le> x \<Longrightarrow> 0 \<le> fl x"
  by (simp add: fl_def round_even_nonneg)

lemma ulp_le:
  assumes "0 \<le> x"
  shows "pow2 (ulp_exp x) \<le> x / 2 ^ 52 + 1 / 2 ^ 1074"
proof (cases "x = 0 \<or> ilog2 x - 52 \<le> - 1074")
  case True
  have "pow2 (- 1074) = 1 / 2 ^ 1074" by (simp add: pow2_def)
  moreover have "ulp_exp x = - 1074" using True assms by (auto simp: ulp_exp_def)
  moreover have "0 \<le> x / 2 ^ 52" using assms by simp
  ultimately show ?thesis by simp
next
  case False
  then have "pow2 (ulp_exp x) = pow2 (ilog2 x) / 2 ^ 52"
    using assms by (simp add: ulp_exp_def pow2_powi power_int_diff)
  also have "\<dots> \<le> x / 2 ^ 52"
    using ilog2_le [of x] False assms by (intro divide_right_mono) auto
  finally have "pow2 (ulp_exp x) \<le> x / 2 ^ 52" .
  moreover have "(0 :: rat) \<le> 1 / 2 ^ 1074" by simp
  ultimately show ?thesis by linarith
qed

lemma fl_error:
  assumes "0 \<le> x"
  shows "\<bar>fl x - x\<bar> \<le> x / 2 ^ 53 + 1 / 2 ^ 1075"
proof -
  define u where "u = pow2 (ulp_exp x)"
  have u: "0 < u" by (simp add: u_def)
  have "fl x - x = (of_int (round_even (x / u)) - x / u) * u"
    using u by (simp add: fl_def left_diff_distrib flip: u_def)
  then have "\<bar>fl x - x\<bar> = \<bar>of_int (round_even (x / u)) - x / u\<bar> * u"
    using u by (simp add: abs_mult)
  also have "\<dots> \<le> 1 / 2 * u"
    using round_even_error [of "x / u"] u by (intro mult_right_mono) auto
  also have "\<dots> \<le> 1 / 2 * (x / 2 ^ 52 + 1 / 2 ^ 1074)"
    using ulp_le [OF assms] by (simp add: u_def)
  finally show ?thesis by simp
qed

section \<open>The rounding interface\<close>

text \<open>
  \<open>mean a x y\<close> is the weighted mean the tracker computes, with every intermediate
  result rounded, as \<^verbatim>\<open>alpha*x + (1-alpha)*y\<close> is.
\<close>

locale fp_rounding =
  fixes rnd :: "rat \<Rightarrow> rat" and eps eta :: rat
  assumes rnd_nonneg: "0 \<le> x \<Longrightarrow> 0 \<le> rnd x"
    and rnd_upper: "0 \<le> x \<Longrightarrow> rnd x \<le> x + x * eps + eta"
    and eps_range: "0 < eps" "eps \<le> 1 / 16"
    and eta_range: "0 \<le> eta" "eta \<le> eps"
begin

lemma mean_nonneg:
  assumes "0 \<le> a" "a \<le> 1" "0 \<le> x" "0 \<le> y"
  shows "0 \<le> rnd (rnd (a * x) + rnd (rnd (1 - a) * y))"
  using assms by (intro rnd_nonneg add_nonneg_nonneg mult_nonneg_nonneg) auto

lemma rnd_le_scaled:
  assumes "0 \<le> x" "x \<le> B" "1 \<le> B"
  shows "rnd x \<le> x + 2 * eps * B"
proof -
  have "rnd x \<le> x + x * eps + eta" using assms by (intro rnd_upper) auto
  also have "x * eps \<le> B * eps" using assms eps_range by (intro mult_right_mono) auto
  also have "eta \<le> B * eps"
    using eta_range eps_range mult_right_mono [of 1 B eps] assms(3) by linarith
  finally show ?thesis by (simp add: algebra_simps)
qed

text \<open>
  With a latency of at most \<open>M\<close> and an old value of at most \<open>2 * M\<close>, the rounded mean
  is again at most \<open>2 * M\<close>, whenever the smoothing factor outweighs the rounding error.
\<close>

lemma mean_upper:
  assumes a: "32 * eps \<le> a" "a \<le> 1" and x: "0 \<le> x" "x \<le> M" and y: "0 \<le> y" "y \<le> 2 * M"
    and M: "1 \<le> M"
  shows "rnd (rnd (a * x) + rnd (rnd (1 - a) * y)) \<le> 2 * M"
proof -
  have a0: "0 \<le> a" using a eps_range by linarith
  have "rnd (1 - a) \<le> (1 - a) + 2 * eps * 1"
    using a a0 by (intro rnd_le_scaled) auto
  then have w: "rnd (1 - a) \<le> 1 - a + 2 * eps" by simp
  have w0: "0 \<le> rnd (1 - a)" using a by (intro rnd_nonneg) simp
  have "rnd (1 - a) * y \<le> (1 - a + 2 * eps) * (2 * M)"
    using w w0 y a a0 eps_range by (intro mult_mono) auto
  then have ry: "rnd (1 - a) * y \<le> 2 * M - 2 * (a * M) + 4 * (eps * M)"
    by (simp add: algebra_simps)
  have ax: "a * x \<le> a * M" using x a0 by (intro mult_left_mono) auto
  have aM: "32 * (eps * M) \<le> a * M"
    using mult_right_mono [OF a(1), of M] M by (simp add: algebra_simps)
  have axM: "a * M \<le> M" using mult_right_mono [OF a(2), of M] M by simp
  have e0: "0 \<le> eps * M" using eps_range M by simp
  have "rnd (a * x) \<le> a * x + 2 * eps * M"
    using order_trans [OF ax axM] M a0 x by (intro rnd_le_scaled) auto
  moreover have "rnd (1 - a) * y \<le> 2 * M" using ry aM e0 by linarith
  then have "rnd (rnd (1 - a) * y) \<le> rnd (1 - a) * y + 2 * eps * (2 * M)"
    using M w0 y by (intro rnd_le_scaled) auto
  ultimately have s: "rnd (a * x) + rnd (rnd (1 - a) * y) \<le> 2 * M - a * M + 10 * (eps * M)"
    using ax ry by (simp add: algebra_simps)
  have "rnd (a * x) + rnd (rnd (1 - a) * y) \<le> 2 * M" using s aM e0 by linarith
  then have "rnd (rnd (a * x) + rnd (rnd (1 - a) * y))
      \<le> rnd (a * x) + rnd (rnd (1 - a) * y) + 2 * eps * (2 * M)"
    using M a0 x w0 y
    by (intro rnd_le_scaled) (auto intro!: add_nonneg_nonneg rnd_nonneg)
  then show ?thesis using s aM e0 by (simp add: algebra_simps)
qed

end

interpretation binary64: fp_rounding fl "1 / 2 ^ 53" "1 / 2 ^ 1075"
proof
  fix x :: rat
  assume x: "0 \<le> x"
  then show "0 \<le> fl x" by (rule fl_nonneg)
  show "fl x \<le> x + x * (1 / 2 ^ 53) + 1 / 2 ^ 1075"
    using fl_error [OF x] by (simp add: abs_le_iff)
qed auto

section \<open>Comparisons\<close>

lemma to_float64_Fin:
  assumes "0 \<le> x" "fl x \<le> max_finite"
  shows "to_float64 x = Fin (fl x)"
proof -
  have "0 \<le> max_finite" by (simp add: max_finite_def)
  moreover have "0 \<le> fl x" using assms by (intro fl_nonneg)
  ultimately show ?thesis using assms by (simp add: to_float64_def)
qed

lemma f_less_irrefl [simp]: "\<not> f_less x x"
  by (cases x) auto

lemma f_less_trans: "f_less x y \<Longrightarrow> f_less y z \<Longrightarrow> f_less x z"
  by (cases x; cases y; cases z) auto

lemma f_less_linear: "x \<noteq> NaN \<Longrightarrow> y \<noteq> NaN \<Longrightarrow> f_less x y \<or> f_eq x y \<or> f_less y x"
  by (cases x; cases y) auto

lemma f_eq_iff: "x \<noteq> NaN \<Longrightarrow> f_eq x y \<longleftrightarrow> x = y"
  by (cases x; cases y) auto

end
