(* ===== verification/Domain.thy ===== *)
theory Domain
  imports Gateway_Prelude Float64
begin

text \<open>
  The value types of \<^verbatim>\<open>internal/domain\<close>, the sentinel errors with Go's
  \<^verbatim>\<open>errors.Is\<close> over wrapped chains, and the vocabulary of
  \<^verbatim>\<open>internal/ports\<close>: the numeric breaker states and the calls of the
  \<^verbatim>\<open>MetricsRecorder\<close> port. Struct fields carry a short prefix because record
  fields share one name space.
\<close>

section \<open>Errors\<close>

text \<open>
  The sentinels of \<^verbatim>\<open>errors.go\<close>, the two context errors of the standard library,
  any other error by its text, and \<^verbatim>\<open>fmt.Errorf\<close> with \<^verbatim>\<open>%w\<close>: a message
  that wraps another error.
\<close>

datatype go_error =
    ErrCircuitOpen
  | ErrRateLimitExceeded
  | ErrNoEligibleCarriers
  | ErrCarrierTimeout
  | ErrCarrierUnavailable
  | ErrInvalidRequest
  | CtxCanceled
  | CtxDeadlineExceeded
  | OtherError string
  | Wrapped string go_error

text \<open>\<^verbatim>\<open>errors.Is(err, target)\<close>: the target occurs in the chain of wrapped errors.\<close>
fun errors_Is :: "go_error \<Rightarrow> go_error \<Rightarrow> bool" where
  "errors_Is (Wrapped s e) t = (Wrapped s e = t \<or> errors_Is e t)"
| "errors_Is e t = (e = t)"

text \<open>
  \<^verbatim>\<open>err.Error()\<close>. A wrapped error is written as its own message, which already
  contains the text of what it wraps, as \<^verbatim>\<open>fmt.Errorf\<close> builds it.
\<close>
fun Error_text :: "go_error \<Rightarrow> string" where
  "Error_text ErrCircuitOpen = ''circuit open''"
| "Error_text ErrRateLimitExceeded = ''rate limited''"
| "Error_text ErrNoEligibleCarriers = ''no eligible carriers''"
| "Error_text ErrCarrierTimeout = ''request timeout''"
| "Error_text ErrCarrierUnavailable = ''carrier unavailable''"
| "Error_text ErrInvalidRequest = ''invalid request''"
| "Error_text CtxCanceled = ''context canceled''"
| "Error_text CtxDeadlineExceeded = ''context deadline exceeded''"
| "Error_text (OtherError s) = s"
| "Error_text (Wrapped s e) = s"

lemma errors_Is_refl [simp]: "errors_Is e e"
  by (cases e) auto

lemma errors_Is_Wrapped: "errors_Is e t \<Longrightarrow> errors_Is (Wrapped s e) t"
  by simp

section \<open>Quotes\<close>

type_synonym CoverageLine = string

definition CoverageLineAuto :: CoverageLine where "CoverageLineAuto = ''auto''"
definition CoverageLineHomeowners :: CoverageLine where "CoverageLineHomeowners = ''homeowners''"
definition CoverageLineUmbrella :: CoverageLine where "CoverageLineUmbrella = ''umbrella''"

lemmas coverage_lines = CoverageLineAuto_def CoverageLineHomeowners_def CoverageLineUmbrella_def

record Money =
  m_Amount :: int
  m_Currency :: string

record QuoteRequest =
  q_RequestID :: string
  q_ClientID :: string
  q_CoverageLines :: "CoverageLine list"
  q_Timeout :: duration

record QuoteResult =
  r_RequestID :: string
  r_CarrierID :: string
  r_Premium :: Money
  r_ExpiresAt :: instant
  r_CarrierRef :: string
  r_Latency :: duration
  r_IsHedged :: bool

section \<open>Carriers\<close>

record RateLimitConfig =
  rl_TokensPerSecond :: float64
  rl_Burst :: int

record CarrierConfig =
  cc_TimeoutHint :: duration
  cc_OpenTimeout :: duration
  cc_FailureThreshold :: int
  cc_SuccessThreshold :: int
  cc_HedgeMultiplier :: float64
  cc_EMAAlpha :: float64
  cc_EMAWindowSize :: int
  cc_EMAWarmupObservations :: int
  cc_RateLimit :: RateLimitConfig
  cc_Priority :: int

record Carrier =
  c_ID :: string
  c_Name :: string
  c_Capabilities :: "CoverageLine list"
  c_Config :: CarrierConfig

section \<open>Ports\<close>

text \<open>\<^verbatim>\<open>ports.CBState\<close> is an \<^verbatim>\<open>int32\<close> with three named values.\<close>

type_synonym CBState = int32

definition CBStateClosed :: CBState where "CBStateClosed = 0"
definition CBStateOpen :: CBState where "CBStateOpen = 1"
definition CBStateHalfOpen :: CBState where "CBStateHalfOpen = 2"

lemmas cb_states = CBStateClosed_def CBStateOpen_def CBStateHalfOpen_def

lemma cb_states_distinct [simp]:
  "CBStateClosed \<noteq> CBStateOpen" "CBStateOpen \<noteq> CBStateClosed"
  "CBStateClosed \<noteq> CBStateHalfOpen" "CBStateHalfOpen \<noteq> CBStateClosed"
  "CBStateOpen \<noteq> CBStateHalfOpen" "CBStateHalfOpen \<noteq> CBStateOpen"
  by (simp_all add: cb_states)

text \<open>
  One constructor per method of \<^verbatim>\<open>ports.MetricsRecorder\<close>. A component emits the
  calls it makes, in order; a recorder (theory \<open>Metrics\<close>) gives them their effect.
\<close>

datatype MetricsCall =
    RecordQuote string duration string
  | RecordHedge string string
  | RecordCBTransition string CBState CBState
  | RecordRateLimitRejection string
  | RecordFanOutDuration duration
  | SetCBState string CBState
  | SetP95Latency string float64

end
