(* ===== verification/Breaker.thy ===== *)
theory Breaker
  imports Domain
begin

text \<open>
  \<^verbatim>\<open>internal/circuitbreaker/breaker.go\<close>. Three layers:

  \<^item> \<open>Execute\<close>, \<open>executeClosed\<close> and \<open>executeHalfOpen\<close> translate the methods for a call
    that no other goroutine interferes with. The recorder port is the argument \<open>rec\<close>, the
    guarded function is \<open>fn\<close> on a world \<open>'w\<close>, and the two clock readings of a call
    (at the open check and after \<open>fn\<close>) are arguments.
  \<^item> \<open>exec_step\<close> is the same code cut at its atomic operations (loads, stores,
    compare-and-swap, adds, recorder calls), for any interleaving of goroutines:
    \<open>cb_apply\<close> runs one goroutine of a \<open>breaker_sys\<close> by one operation.
  \<^item> \<open>spec_exec\<close> is the abstract three-state automaton the package documents.

  The lemmas show that \<open>Execute\<close> refines \<open>spec_exec\<close>, that calls made one after another by
  the goroutines of a \<open>breaker_sys\<close> do so too, with the automaton's transitions reported in
  its order, and that under every interleaving at most one probe runs, only documented
  transitions happen and each one is reported exactly once.
\<close>

section \<open>State and operations\<close>

definition stateClosed :: int32 where "stateClosed = 0"
definition stateOpen :: int32 where "stateOpen = 1"
definition stateHalfOpen :: int32 where "stateHalfOpen = 2"

definition defaultFailureThreshold :: int where "defaultFailureThreshold = 5"
definition defaultOpenTimeout :: duration where "defaultOpenTimeout = 30 * Second"

record CBConfig =
  cb_FailureThreshold :: int
  cb_SuccessThreshold :: int
  cb_OpenTimeout :: duration

record Breaker =
  b_carrierID :: string
  b_cfg :: CBConfig
  b_state :: int32
  b_failures :: int32
  b_successes :: int32
  b_halfOpenInFlight :: int32
  b_openedAt :: int

definition New_Breaker :: "string \<Rightarrow> CBConfig \<Rightarrow> Breaker \<times> MetricsCall list" where
  "New_Breaker carrierID cfg =
     (let cfg = (if cb_FailureThreshold cfg \<le> 0
                 then cfg\<lparr>cb_FailureThreshold := defaultFailureThreshold\<rparr> else cfg);
          cfg = (if cb_SuccessThreshold cfg \<le> 0 then cfg\<lparr>cb_SuccessThreshold := 1\<rparr> else cfg);
          cfg = (if cb_OpenTimeout cfg \<le> 0
                 then cfg\<lparr>cb_OpenTimeout := defaultOpenTimeout\<rparr> else cfg)
      in (\<lparr>b_carrierID = carrierID, b_cfg = cfg, b_state = 0, b_failures = 0,
           b_successes = 0, b_halfOpenInFlight = 0, b_openedAt = 0\<rparr>,
          [SetCBState carrierID CBStateClosed]))"

definition State :: "Breaker \<Rightarrow> CBState" where
  "State b = b_state b"

text \<open>\<^verbatim>\<open>int32(threshold) <= counter\<close>, compared as signed numbers.\<close>
definition reached :: "int \<Rightarrow> int32 \<Rightarrow> bool" where
  "reached threshold counter \<longleftrightarrow> sint (to_int32 threshold) \<le> sint counter"

text \<open>The two recorder calls that follow every successful transition.\<close>
definition transition_calls :: "Breaker \<Rightarrow> CBState \<Rightarrow> CBState \<Rightarrow> MetricsCall list" where
  "transition_calls b from to =
     [RecordCBTransition (b_carrierID b) from to, SetCBState (b_carrierID b) to]"

type_synonym 'w recorder = "MetricsCall \<Rightarrow> 'w \<Rightarrow> 'w"
type_synonym 'w guarded = "'w \<Rightarrow> go_error option \<times> 'w"

definition executeClosed ::
  "'w recorder \<Rightarrow> instant \<Rightarrow> 'w guarded \<Rightarrow> Breaker \<Rightarrow> 'w \<Rightarrow> go_error option \<times> Breaker \<times> 'w" where
  "executeClosed rec now fn b w =
     (case fn w of
        (Some err, w) \<Rightarrow>
          (let b = b\<lparr>b_failures := b_failures b + 1\<rparr>
           in if reached (cb_FailureThreshold (b_cfg b)) (b_failures b) \<and> b_state b = stateClosed
              then (Some err, b\<lparr>b_state := stateOpen, b_openedAt := now\<rparr>,
                    fold rec (transition_calls b CBStateClosed CBStateOpen) w)
              else (Some err, b, w))
      | (None, w) \<Rightarrow> (None, b\<lparr>b_failures := 0\<rparr>, w))"

definition executeHalfOpen ::
  "'w recorder \<Rightarrow> instant \<Rightarrow> 'w guarded \<Rightarrow> Breaker \<Rightarrow> 'w \<Rightarrow> go_error option \<times> Breaker \<times> 'w" where
  "executeHalfOpen rec now fn b w =
     (if b_halfOpenInFlight b \<noteq> 0 then (Some ErrCircuitOpen, b, w)
      else
        let b = b\<lparr>b_halfOpenInFlight := 1\<rparr>;
            (err, b, w) =
              (case fn w of
                 (Some err, w) \<Rightarrow>
                   if b_state b = stateHalfOpen
                   then (Some err, b\<lparr>b_state := stateOpen, b_openedAt := now, b_successes := 0\<rparr>,
                         fold rec (transition_calls b CBStateHalfOpen CBStateOpen) w)
                   else (Some err, b, w)
               | (None, w) \<Rightarrow>
                   (let b = b\<lparr>b_successes := b_successes b + 1\<rparr>
                    in if reached (cb_SuccessThreshold (b_cfg b)) (b_successes b)
                          \<and> b_state b = stateHalfOpen
                       then (None, b\<lparr>b_state := stateClosed, b_failures := 0, b_successes := 0\<rparr>,
                             fold rec (transition_calls b CBStateHalfOpen CBStateClosed) w)
                       else (None, b, w)))
        in (err, b\<lparr>b_halfOpenInFlight := 0\<rparr>, w))"

definition Execute ::
  "'w recorder \<Rightarrow> instant \<Rightarrow> instant \<Rightarrow> 'w guarded \<Rightarrow> Breaker \<Rightarrow> 'w
    \<Rightarrow> go_error option \<times> Breaker \<times> 'w" where
  "Execute rec now0 now1 fn b w =
     (if b_state b = stateOpen then
        if time_Sub now0 (b_openedAt b) < cb_OpenTimeout (b_cfg b)
        then (Some ErrCircuitOpen, b, w)
        else executeHalfOpen rec now1 fn (b\<lparr>b_state := stateHalfOpen\<rparr>)
               (fold rec (transition_calls b CBStateOpen CBStateHalfOpen) w)
      else if b_state b = stateHalfOpen then executeHalfOpen rec now1 fn b w
      else executeClosed rec now1 fn b w)"

section \<open>The same code as atomic steps\<close>

text \<open>
  The program counter of one \<^verbatim>\<open>Execute\<close> call. \<open>C_*\<close> is inside
  \<^verbatim>\<open>executeClosed\<close>, \<open>H_*\<close> inside \<^verbatim>\<open>executeHalfOpen\<close>; \<open>E_Emit evs k\<close> still
  has the recorder calls \<open>evs\<close> to make and goes on at \<open>k\<close>.
\<close>

datatype exec_pc =
    E_Load
  | E_OpenCheck
  | E_CASHalf
  | E_Emit "MetricsCall list" exec_pc
  | C_Call
  | C_Fail go_error
  | C_CASOpen go_error
  | C_OpenedAt go_error
  | C_Reset
  | H_Enter
  | H_Call
  | H_CASOpen go_error
  | H_OpenedAt go_error
  | H_ZeroSuccFail go_error
  | H_AddSucc
  | H_CASClosed
  | H_ZeroFail
  | H_ZeroSucc
  | H_Leave "go_error option"
  | Ret "go_error option"

text \<open>
  One atomic operation: the clock reads \<open>now\<close>, and at a call of the guarded function
  (\<open>C_Call\<close>, \<open>H_Call\<close>) the function returns \<open>r\<close>.
\<close>

fun exec_step :: "instant \<Rightarrow> go_error option \<Rightarrow> exec_pc \<Rightarrow> Breaker
    \<Rightarrow> exec_pc \<times> Breaker \<times> MetricsCall list" where
  "exec_step now r E_Load b =
     (if b_state b = stateOpen then E_OpenCheck
      else if b_state b = stateHalfOpen then H_Enter else C_Call, b, [])"
| "exec_step now r E_OpenCheck b =
     (if time_Sub now (b_openedAt b) < cb_OpenTimeout (b_cfg b)
      then Ret (Some ErrCircuitOpen) else E_CASHalf, b, [])"
| "exec_step now r E_CASHalf b =
     (if b_state b = stateOpen
      then (E_Emit (transition_calls b CBStateOpen CBStateHalfOpen) H_Enter,
            b\<lparr>b_state := stateHalfOpen\<rparr>, [])
      else (H_Enter, b, []))"
| "exec_step now r (E_Emit [] k) b = (k, b, [])"
| "exec_step now r (E_Emit (e # es) k) b = (E_Emit es k, b, [e])"
| "exec_step now r C_Call b =
     (case r of Some err \<Rightarrow> C_Fail err | None \<Rightarrow> C_Reset, b, [])"
| "exec_step now r (C_Fail err) b =
     (let b = b\<lparr>b_failures := b_failures b + 1\<rparr>
      in (if reached (cb_FailureThreshold (b_cfg b)) (b_failures b)
          then C_CASOpen err else Ret (Some err), b, []))"
| "exec_step now r (C_CASOpen err) b =
     (if b_state b = stateClosed
      then (C_OpenedAt err, b\<lparr>b_state := stateOpen\<rparr>, []) else (Ret (Some err), b, []))"
| "exec_step now r (C_OpenedAt err) b =
     (E_Emit (transition_calls b CBStateClosed CBStateOpen) (Ret (Some err)),
      b\<lparr>b_openedAt := now\<rparr>, [])"
| "exec_step now r C_Reset b = (Ret None, b\<lparr>b_failures := 0\<rparr>, [])"
| "exec_step now r H_Enter b =
     (if b_halfOpenInFlight b = 0 then (H_Call, b\<lparr>b_halfOpenInFlight := 1\<rparr>, [])
      else (Ret (Some ErrCircuitOpen), b, []))"
| "exec_step now r H_Call b =
     (case r of Some err \<Rightarrow> H_CASOpen err | None \<Rightarrow> H_AddSucc, b, [])"
| "exec_step now r (H_CASOpen err) b =
     (if b_state b = stateHalfOpen
      then (H_OpenedAt err, b\<lparr>b_state := stateOpen\<rparr>, []) else (H_Leave (Some err), b, []))"
| "exec_step now r (H_OpenedAt err) b = (H_ZeroSuccFail err, b\<lparr>b_openedAt := now\<rparr>, [])"
| "exec_step now r (H_ZeroSuccFail err) b =
     (E_Emit (transition_calls b CBStateHalfOpen CBStateOpen) (H_Leave (Some err)),
      b\<lparr>b_successes := 0\<rparr>, [])"
| "exec_step now r H_AddSucc b =
     (let b = b\<lparr>b_successes := b_successes b + 1\<rparr>
      in (if reached (cb_SuccessThreshold (b_cfg b)) (b_successes b)
          then H_CASClosed else H_Leave None, b, []))"
| "exec_step now r H_CASClosed b =
     (if b_state b = stateHalfOpen
      then (H_ZeroFail, b\<lparr>b_state := stateClosed\<rparr>, []) else (H_Leave None, b, []))"
| "exec_step now r H_ZeroFail b = (H_ZeroSucc, b\<lparr>b_failures := 0\<rparr>, [])"
| "exec_step now r H_ZeroSucc b =
     (E_Emit (transition_calls b CBStateHalfOpen CBStateClosed) (H_Leave None),
      b\<lparr>b_successes := 0\<rparr>, [])"
| "exec_step now r (H_Leave res) b = (Ret res, b\<lparr>b_halfOpenInFlight := 0\<rparr>, [])"
| "exec_step now r (Ret res) b = (Ret res, b, [])"

fun exec_result :: "exec_pc \<Rightarrow> go_error option option" where
  "exec_result (Ret res) = Some res"
| "exec_result _ = None"

text \<open>A goroutine is about to run the guarded function.\<close>
fun at_call :: "exec_pc \<Rightarrow> bool" where
  "at_call C_Call = True"
| "at_call H_Call = True"
| "at_call _ = False"

text \<open>A goroutine holds the probe slot (between the CAS on the slot and its release).\<close>
fun in_probe :: "exec_pc \<Rightarrow> bool" where
  "in_probe (E_Emit es k) = in_probe k"
| "in_probe H_Call = True"
| "in_probe (H_CASOpen _) = True"
| "in_probe (H_OpenedAt _) = True"
| "in_probe (H_ZeroSuccFail _) = True"
| "in_probe H_AddSucc = True"
| "in_probe H_CASClosed = True"
| "in_probe H_ZeroFail = True"
| "in_probe H_ZeroSucc = True"
| "in_probe (H_Leave _) = True"
| "in_probe _ = False"

text \<open>How many atomic operations a call has left, at most.\<close>
fun exec_rank :: "exec_pc \<Rightarrow> nat" where
  "exec_rank E_Load = 20"
| "exec_rank E_OpenCheck = 19"
| "exec_rank E_CASHalf = 18"
| "exec_rank (E_Emit es k) = Suc (length es + exec_rank k)"
| "exec_rank H_Enter = 13"
| "exec_rank H_Call = 12"
| "exec_rank (H_CASOpen _) = 11"
| "exec_rank (H_OpenedAt _) = 10"
| "exec_rank (H_ZeroSuccFail _) = 9"
| "exec_rank H_AddSucc = 11"
| "exec_rank H_CASClosed = 10"
| "exec_rank H_ZeroFail = 9"
| "exec_rank H_ZeroSucc = 8"
| "exec_rank (H_Leave _) = 1"
| "exec_rank C_Call = 8"
| "exec_rank (C_Fail _) = 7"
| "exec_rank (C_CASOpen _) = 6"
| "exec_rank (C_OpenedAt _) = 5"
| "exec_rank C_Reset = 1"
| "exec_rank (Ret _) = 0"

text \<open>The operations of one call at the given clock readings, with nobody in between.\<close>
fun own_ops :: "go_error option \<Rightarrow> instant list \<Rightarrow> exec_pc \<Rightarrow> Breaker \<Rightarrow> MetricsCall list
    \<Rightarrow> exec_pc \<times> Breaker \<times> MetricsCall list" where
  "own_ops r [] pc b tr = (pc, b, tr)"
| "own_ops r (now # nows) pc b tr =
     (case exec_step now r pc b of (pc', b', evs) \<Rightarrow> own_ops r nows pc' b' (tr @ evs))"

section \<open>Goroutines sharing one breaker\<close>

record breaker_sys =
  s_breaker :: Breaker
  s_pcs :: "exec_pc list"
  s_trace :: "MetricsCall list"

text \<open>A scheduler's choice: a new call arrives, or goroutine \<open>i\<close> does one operation.\<close>
datatype cb_label = Spawn | Run nat instant "go_error option"

fun cb_apply :: "cb_label \<Rightarrow> breaker_sys \<Rightarrow> breaker_sys" where
  "cb_apply Spawn s = s\<lparr>s_pcs := s_pcs s @ [E_Load]\<rparr>"
| "cb_apply (Run i now r) s =
     (if i < length (s_pcs s) then
        case exec_step now r (s_pcs s ! i) (s_breaker s) of
          (pc', b', evs) \<Rightarrow>
            s\<lparr>s_breaker := b', s_pcs := (s_pcs s)[i := pc'], s_trace := s_trace s @ evs\<rparr>
      else s)"

definition cb_run :: "cb_label list \<Rightarrow> breaker_sys \<Rightarrow> breaker_sys" where
  "cb_run ls s = fold cb_apply ls s"

definition cb_init :: "string \<Rightarrow> CBConfig \<Rightarrow> breaker_sys" where
  "cb_init carrierID cfg =
     (case New_Breaker carrierID cfg of
        (b, evs) \<Rightarrow> \<lparr>s_breaker = b, s_pcs = [], s_trace = evs\<rparr>)"

text \<open>The changes of the breaker's state along a run.\<close>
fun cb_changes :: "cb_label list \<Rightarrow> breaker_sys \<Rightarrow> (CBState \<times> CBState) list" where
  "cb_changes [] s = []"
| "cb_changes (l # ls) s =
     (let s' = cb_apply l s; old = b_state (s_breaker s); new = b_state (s_breaker s')
      in (if new = old then [] else [(old, new)]) @ cb_changes ls s')"

text \<open>
  Calls one after another: goroutine \<open>i\<close> is spawned and makes its operations before the next
  one comes. Its open check is its second operation, so \<open>now0\<close> is what that check reads.
\<close>
fun serial :: "nat \<Rightarrow> (instant \<times> instant \<times> go_error option) list \<Rightarrow> cb_label list" where
  "serial i [] = []"
| "serial i ((now0, now1, r) # cs) =
     Spawn # map (\<lambda>now. Run i now r) (now0 # now0 # replicate 18 now1) @ serial (Suc i) cs"

inductive cb_reach :: "string \<Rightarrow> CBConfig \<Rightarrow> breaker_sys \<Rightarrow> bool" for carrierID cfg where
  cb_start: "cb_reach carrierID cfg (cb_init carrierID cfg)"
| cb_step: "cb_reach carrierID cfg s \<Longrightarrow> cb_reach carrierID cfg (cb_apply l s)"

section \<open>The documented automaton\<close>

datatype cb_spec = SClosed nat | SOpen instant | SHalfOpen nat

fun spec_probe :: "nat \<Rightarrow> instant \<Rightarrow> go_error option \<Rightarrow> nat \<Rightarrow> go_error option \<times> cb_spec" where
  "spec_probe S now (Some err) k = (Some err, SOpen now)"
| "spec_probe S now None k = (None, if S \<le> Suc k then SClosed 0 else SHalfOpen (Suc k))"

text \<open>
  \<open>F\<close> failures in a row open the circuit; within \<open>T\<close> of opening every call is rejected;
  after it calls are probes, \<open>S\<close> successful probes close the circuit, a failed one reopens.
\<close>
fun spec_exec :: "nat \<Rightarrow> nat \<Rightarrow> duration \<Rightarrow> instant \<Rightarrow> instant \<Rightarrow> go_error option \<Rightarrow> cb_spec
    \<Rightarrow> go_error option \<times> cb_spec" where
  "spec_exec F S T now0 now1 (Some err) (SClosed n) =
     (Some err, if F \<le> Suc n then SOpen now1 else SClosed (Suc n))"
| "spec_exec F S T now0 now1 None (SClosed n) = (None, SClosed 0)"
| "spec_exec F S T now0 now1 r (SOpen t) =
     (if now0 - t < T then (Some ErrCircuitOpen, SOpen t) else spec_probe S now1 r 0)"
| "spec_exec F S T now0 now1 r (SHalfOpen k) = spec_probe S now1 r k"

text \<open>The states a call makes the automaton enter, in order.\<close>
fun probe_visits :: "nat \<Rightarrow> go_error option \<Rightarrow> nat \<Rightarrow> CBState list" where
  "probe_visits S (Some err) k = [CBStateOpen]"
| "probe_visits S None k = (if S \<le> Suc k then [CBStateClosed] else [])"

fun spec_visits :: "nat \<Rightarrow> nat \<Rightarrow> duration \<Rightarrow> instant \<Rightarrow> go_error option \<Rightarrow> cb_spec \<Rightarrow> CBState list" where
  "spec_visits F S T now0 (Some err) (SClosed n) = (if F \<le> Suc n then [CBStateOpen] else [])"
| "spec_visits F S T now0 None (SClosed n) = []"
| "spec_visits F S T now0 r (SOpen t) =
     (if now0 - t < T then [] else CBStateHalfOpen # probe_visits S r 0)"
| "spec_visits F S T now0 r (SHalfOpen k) = probe_visits S r k"

fun spec_state :: "cb_spec \<Rightarrow> CBState" where
  "spec_state (SClosed n) = CBStateClosed"
| "spec_state (SOpen t) = CBStateOpen"
| "spec_state (SHalfOpen k) = CBStateHalfOpen"

text \<open>What the recorder should be told about a path through the states.\<close>
fun reports :: "string \<Rightarrow> CBState \<Rightarrow> CBState list \<Rightarrow> MetricsCall list" where
  "reports i from [] = []"
| "reports i from (to # ss) = RecordCBTransition i from to # SetCBState i to # reports i to ss"

definition cb_abs :: "Breaker \<Rightarrow> cb_spec" where
  "cb_abs b =
     (if b_state b = stateOpen then SOpen (b_openedAt b)
      else if b_state b = stateHalfOpen then SHalfOpen (nat (sint (b_successes b)))
      else SClosed (nat (sint (b_failures b))))"

definition cfg_ok :: "CBConfig \<Rightarrow> bool" where
  "cfg_ok c \<longleftrightarrow> 0 < cb_FailureThreshold c \<and> cb_FailureThreshold c < 2 ^ 31
     \<and> 0 < cb_SuccessThreshold c \<and> cb_SuccessThreshold c < 2 ^ 31
     \<and> 0 < cb_OpenTimeout c \<and> cb_OpenTimeout c \<le> int64_max"

text \<open>The breaker between calls: counters in range, no probe in flight.\<close>
definition cb_wf :: "Breaker \<Rightarrow> bool" where
  "cb_wf b \<longleftrightarrow> cfg_ok (b_cfg b) \<and> b_state b \<in> {stateClosed, stateOpen, stateHalfOpen}
     \<and> b_halfOpenInFlight b = 0
     \<and> 0 \<le> sint (b_failures b) \<and> 0 \<le> sint (b_successes b)
     \<and> (b_state b = stateClosed \<longrightarrow> sint (b_failures b) < cb_FailureThreshold (b_cfg b))
     \<and> (b_state b = stateHalfOpen \<longrightarrow> sint (b_successes b) < cb_SuccessThreshold (b_cfg b))
     \<and> (b_state b \<noteq> stateHalfOpen \<longrightarrow> b_successes b = 0)"

text \<open>A sequence of calls, each with its clock readings and the outcome of its function.\<close>
fun Execute_seq :: "'w recorder \<Rightarrow> (instant \<times> instant \<times> go_error option) list \<Rightarrow> Breaker \<Rightarrow> 'w
    \<Rightarrow> go_error option list \<times> Breaker \<times> 'w" where
  "Execute_seq rec [] b w = ([], b, w)"
| "Execute_seq rec ((now0, now1, r) # cs) b w =
     (case Execute rec now0 now1 (\<lambda>w. (r, w)) b w of
        (err, b', w') \<Rightarrow>
          (case Execute_seq rec cs b' w' of (errs, b'', w'') \<Rightarrow> (err # errs, b'', w'')))"

fun spec_seq :: "nat \<Rightarrow> nat \<Rightarrow> duration \<Rightarrow> (instant \<times> instant \<times> go_error option) list \<Rightarrow> cb_spec
    \<Rightarrow> go_error option list \<times> cb_spec" where
  "spec_seq F S T [] s = ([], s)"
| "spec_seq F S T ((now0, now1, r) # cs) s =
     (case spec_exec F S T now0 now1 r s of
        (err, s') \<Rightarrow> (case spec_seq F S T cs s' of (errs, s'') \<Rightarrow> (err # errs, s'')))"


fun spec_log :: "nat \<Rightarrow> nat \<Rightarrow> duration \<Rightarrow> string \<Rightarrow> (instant \<times> instant \<times> go_error option) list \<Rightarrow> cb_spec
    \<Rightarrow> MetricsCall list" where
  "spec_log F S T i [] s = []"
| "spec_log F S T i ((now0, now1, r) # cs) s =
     reports i (spec_state s) (spec_visits F S T now0 r s)
       @ spec_log F S T i cs (snd (spec_exec F S T now0 now1 r s))"

section \<open>Sequential calls refine the automaton\<close>

lemmas breaker_states [gw_simps] = stateClosed_def stateOpen_def stateHalfOpen_def

lemma states_distinct [simp]:
  "stateClosed \<noteq> stateOpen" "stateOpen \<noteq> stateClosed" "stateClosed \<noteq> stateHalfOpen"
  "stateHalfOpen \<noteq> stateClosed" "stateOpen \<noteq> stateHalfOpen" "stateHalfOpen \<noteq> stateOpen"
  by (simp_all add: breaker_states)

text \<open>With a threshold and a counter in range the signed comparison is the intended one.\<close>

lemma reached_succ:
  assumes "0 < t" "t < 2 ^ 31" "0 \<le> sint n" "sint n < t"
  shows "reached t (n + 1) \<longleftrightarrow> nat t \<le> Suc (nat (sint n))"
    and "sint (n + 1) = sint n + 1"
  using assms sint_to_int32 [of t] sint_succ_int32 [of n] by (auto simp: reached_def)

lemma cb_abs_half: "b_state b = stateHalfOpen \<Longrightarrow> cb_abs b = SHalfOpen (nat (sint (b_successes b)))"
  and cb_abs_open: "b_state b = stateOpen \<Longrightarrow> cb_abs b = SOpen (b_openedAt b)"
  by (simp_all add: cb_abs_def)

lemma New_Breaker_wf:
  assumes "cb_FailureThreshold cfg < 2 ^ 31" "cb_SuccessThreshold cfg < 2 ^ 31"
    "cb_OpenTimeout cfg \<le> int64_max"
  shows "cb_wf (fst (New_Breaker carrierID cfg))"
    and "cb_abs (fst (New_Breaker carrierID cfg)) = SClosed 0"
  using assms
  by (auto simp: New_Breaker_def Let_def cb_wf_def cb_abs_def cfg_ok_def breaker_states
      defaultFailureThreshold_def defaultOpenTimeout_def Second_def int64_max_def)

lemma executeClosed_refines:
  assumes wf: "cb_wf b" and st: "b_state b = stateClosed"
    and ex: "executeClosed rec now1 fn b w = (err, b', w')"
  shows "cb_wf b' \<and> b_cfg b' = b_cfg b \<and> (err, cb_abs b') =
    spec_exec (nat (cb_FailureThreshold (b_cfg b))) S T now0 now1 (fst (fn w)) (cb_abs b)"
proof (cases "fn w")
  case (Pair r w1)
  have rng: "0 < cb_FailureThreshold (b_cfg b)" "cb_FailureThreshold (b_cfg b) < 2 ^ 31"
    "0 \<le> sint (b_failures b)" "sint (b_failures b) < cb_FailureThreshold (b_cfg b)"
    using wf st by (auto simp: cb_wf_def cfg_ok_def)
  note succ = reached_succ [OF rng]
  show ?thesis
  proof (cases r)
    case None
    with Pair ex wf st show ?thesis
      by (auto simp: executeClosed_def cb_wf_def cb_abs_def cfg_ok_def)
  next
    case (Some e)
    with Pair ex wf st rng succ show ?thesis
      by (auto simp: executeClosed_def cb_wf_def cb_abs_def Let_def split: if_splits)
  qed
qed

lemma executeHalfOpen_refines:
  assumes cfg: "cfg_ok (b_cfg b)" and st: "b_state b = stateHalfOpen"
    and idle: "b_halfOpenInFlight b = 0" and f: "0 \<le> sint (b_failures b)"
    and s: "0 \<le> sint (b_successes b)" "sint (b_successes b) < cb_SuccessThreshold (b_cfg b)"
    and ex: "executeHalfOpen rec now1 fn b w = (err, b', w')"
  shows "cb_wf b' \<and> b_cfg b' = b_cfg b \<and> (err, cb_abs b') =
    spec_probe (nat (cb_SuccessThreshold (b_cfg b))) now1 (fst (fn w))
      (nat (sint (b_successes b)))"
proof (cases "fn w")
  case (Pair r w1)
  have rng: "0 < cb_SuccessThreshold (b_cfg b)" "cb_SuccessThreshold (b_cfg b) < 2 ^ 31"
    using cfg by (auto simp: cfg_ok_def)
  note succ = reached_succ [OF rng s]
  show ?thesis
  proof (cases r)
    case None
    with Pair ex st idle cfg f s rng succ show ?thesis
      by (auto simp: executeHalfOpen_def cb_wf_def cb_abs_def cfg_ok_def Let_def split: if_splits)
  next
    case (Some e)
    with Pair ex st idle cfg f s show ?thesis
      by (auto simp: executeHalfOpen_def cb_wf_def cb_abs_def Let_def)
  qed
qed

text \<open>One call of the code is one step of the automaton.\<close>

lemma Execute_refines:
  assumes wf: "cb_wf b" and ex: "Execute rec now0 now1 fn b w = (err, b', w')"
    and fn: "\<And>u v. fst (fn u) = fst (fn v)"
  shows "cb_wf b' \<and> b_cfg b' = b_cfg b \<and> (err, cb_abs b') =
    spec_exec (nat (cb_FailureThreshold (b_cfg b))) (nat (cb_SuccessThreshold (b_cfg b)))
      (cb_OpenTimeout (b_cfg b)) now0 now1 (fst (fn w)) (cb_abs b)"
proof -
  have cfg: "cfg_ok (b_cfg b)" using wf by (simp add: cb_wf_def)
  consider (closed) "b_state b = stateClosed" | (half) "b_state b = stateHalfOpen"
    | (openr) "b_state b = stateOpen" using wf by (auto simp: cb_wf_def)
  then show ?thesis
  proof cases
    case closed
    then have "executeClosed rec now1 fn b w = (err, b', w')" using ex by (simp add: Execute_def)
    from executeClosed_refines [OF wf closed this] show ?thesis .
  next
    case half
    then have "executeHalfOpen rec now1 fn b w = (err, b', w')" using ex by (simp add: Execute_def)
    moreover have "b_halfOpenInFlight b = 0" "0 \<le> sint (b_failures b)"
      "0 \<le> sint (b_successes b)" "sint (b_successes b) < cb_SuccessThreshold (b_cfg b)"
      using wf half by (auto simp: cb_wf_def)
    ultimately show ?thesis
      using executeHalfOpen_refines [OF cfg half] half by (simp add: cb_abs_half)
  next
    case openr
    have T: "in_int64 (cb_OpenTimeout (b_cfg b))" "int64_min < cb_OpenTimeout (b_cfg b)"
      using cfg by (auto simp: cfg_ok_def in_int64_def int64_min_def)
    have late: "time_Sub now0 (b_openedAt b) < cb_OpenTimeout (b_cfg b)
        \<longleftrightarrow> now0 - b_openedAt b < cb_OpenTimeout (b_cfg b)"
      unfolding time_Sub_def using T by (rule sat64_less_iff)
    show ?thesis
    proof (cases "now0 - b_openedAt b < cb_OpenTimeout (b_cfg b)")
      case True
      with ex openr late wf show ?thesis by (auto simp: Execute_def cb_abs_def)
    next
      case False
      let ?b = "b\<lparr>b_state := stateHalfOpen\<rparr>"
      obtain v where hx: "executeHalfOpen rec now1 fn ?b v = (err, b', w')"
        using ex openr late False by (auto simp: Execute_def)
      have z: "b_successes b = 0" using wf openr by (auto simp: cb_wf_def)
      have "b_halfOpenInFlight b = 0" "0 \<le> sint (b_failures b)" "0 < cb_SuccessThreshold (b_cfg b)"
        using wf cfg by (auto simp: cb_wf_def cfg_ok_def)
      with executeHalfOpen_refines [OF _ _ _ _ _ _ hx] cfg z fn [of v w] openr False
      show ?thesis by (simp add: cb_abs_open)
    qed
  qed
qed

text \<open>A call reports the automaton's transitions, and nothing else.\<close>

lemma Execute_reports:
  assumes wf: "cb_wf b" and ex: "Execute (\<lambda>e tr. tr @ [e]) now0 now1 (\<lambda>tr. (r, tr)) b tr = (err, b', tr')"
  shows "b_carrierID b' = b_carrierID b \<and> tr' = tr @ reports (b_carrierID b) (spec_state (cb_abs b))
    (spec_visits (nat (cb_FailureThreshold (b_cfg b))) (nat (cb_SuccessThreshold (b_cfg b)))
      (cb_OpenTimeout (b_cfg b)) now0 r (cb_abs b))"
proof -
  have T: "in_int64 (cb_OpenTimeout (b_cfg b))" "int64_min < cb_OpenTimeout (b_cfg b)"
    and rng: "0 < cb_FailureThreshold (b_cfg b)" "cb_FailureThreshold (b_cfg b) < 2 ^ 31"
      "0 < cb_SuccessThreshold (b_cfg b)" "cb_SuccessThreshold (b_cfg b) < 2 ^ 31"
    using wf by (auto simp: cb_wf_def cfg_ok_def in_int64_def int64_min_def)
  have late: "time_Sub now0 (b_openedAt b) < cb_OpenTimeout (b_cfg b)
      \<longleftrightarrow> now0 - b_openedAt b < cb_OpenTimeout (b_cfg b)"
    unfolding time_Sub_def using T by (rule sat64_less_iff)
  have idle: "b_halfOpenInFlight b = 0" and counters: "0 \<le> sint (b_failures b)" "0 \<le> sint (b_successes b)"
    using wf by (auto simp: cb_wf_def)
  note fail = reached_succ(1) [OF rng(1,2) counters(1)] and succ = reached_succ(1) [OF rng(3,4) counters(2)]
  consider (closed) "b_state b = stateClosed" "sint (b_failures b) < cb_FailureThreshold (b_cfg b)"
    | (half) "b_state b = stateHalfOpen" "sint (b_successes b) < cb_SuccessThreshold (b_cfg b)"
    | (openr) "b_state b = stateOpen" "b_successes b = 0" using wf by (auto simp: cb_wf_def)
  then show ?thesis
  proof cases
    case closed
    with ex fail show ?thesis
      by (cases r) (auto simp: Execute_def executeClosed_def cb_abs_def transition_calls_def Let_def split: if_splits)
  next
    case half
    with ex succ idle show ?thesis
      by (cases r) (auto simp: Execute_def executeHalfOpen_def cb_abs_def transition_calls_def Let_def split: if_splits)
  next
    case openr
    with ex succ idle late rng(3) show ?thesis
      by (cases r) (auto simp: Execute_def executeHalfOpen_def cb_abs_def transition_calls_def Let_def split: if_splits)
  qed
qed

lemma Execute_seq_refines:
  assumes "cb_wf b" and "Execute_seq rec cs b w = (errs, b', w')"
  shows "cb_wf b' \<and> b_cfg b' = b_cfg b \<and> (errs, cb_abs b') =
    spec_seq (nat (cb_FailureThreshold (b_cfg b))) (nat (cb_SuccessThreshold (b_cfg b)))
      (cb_OpenTimeout (b_cfg b)) cs (cb_abs b)"
  using assms
proof (induction rec cs b w arbitrary: errs b' w' rule: Execute_seq.induct)
  case (2 rec now0 now1 r cs b w)
  obtain err b1 w1 where ex: "Execute rec now0 now1 (\<lambda>w. (r, w)) b w = (err, b1, w1)"
    by (cases "Execute rec now0 now1 (\<lambda>w. (r, w)) b w") auto
  obtain errs1 where rest: "Execute_seq rec cs b1 w1 = (errs1, b', w')" and errs: "errs = err # errs1"
    using "2.prems"(2) ex by (auto split: prod.splits)
  have step: "cb_wf b1" "b_cfg b1 = b_cfg b" "spec_exec (nat (cb_FailureThreshold (b_cfg b)))
      (nat (cb_SuccessThreshold (b_cfg b))) (cb_OpenTimeout (b_cfg b)) now0 now1 r (cb_abs b)
      = (err, cb_abs b1)"
    using Execute_refines [OF "2.prems"(1) ex] by auto
  show ?case
    using "2.IH" [OF ex [symmetric] refl step(1) rest] step errs by (auto split: prod.splits)
qed auto

section \<open>Atomic steps\<close>

text \<open>Twenty operations without interference are the sequential call.\<close>

lemma own_ops_Execute:
  "own_ops r (now0 # now0 # replicate 18 now1) E_Load b tr
    = (case Execute (\<lambda>e tr. tr @ [e]) now0 now1 (\<lambda>tr. (r, tr)) b tr of (err, b', tr') \<Rightarrow> (Ret err, b', tr'))"
  by (cases r)
     (simp_all add: eval_nat_numeral Execute_def executeClosed_def executeHalfOpen_def
       transition_calls_def Let_def)

lemma run_own_ops:
  "fold cb_apply (map (\<lambda>now. Run (length ps) now r) nows) \<lparr>s_breaker = b, s_pcs = ps @ [pc], s_trace = tr\<rparr>
    = (case own_ops r nows pc b tr of (pc', b', tr') \<Rightarrow> \<lparr>s_breaker = b', s_pcs = ps @ [pc'], s_trace = tr'\<rparr>)"
  by (induction nows arbitrary: pc b tr) (auto split: prod.splits)

lemma serial_refines:
  assumes "cb_wf b"
  shows "\<exists>b'. cb_run (serial (length ps) cs) \<lparr>s_breaker = b, s_pcs = ps, s_trace = tr\<rparr>
    = \<lparr>s_breaker = b',
       s_pcs = ps @ map Ret (fst (spec_seq (nat (cb_FailureThreshold (b_cfg b))) (nat (cb_SuccessThreshold (b_cfg b)))
         (cb_OpenTimeout (b_cfg b)) cs (cb_abs b))),
       s_trace = tr @ spec_log (nat (cb_FailureThreshold (b_cfg b))) (nat (cb_SuccessThreshold (b_cfg b)))
         (cb_OpenTimeout (b_cfg b)) (b_carrierID b) cs (cb_abs b)\<rparr>
    \<and> cb_abs b' = snd (spec_seq (nat (cb_FailureThreshold (b_cfg b))) (nat (cb_SuccessThreshold (b_cfg b)))
         (cb_OpenTimeout (b_cfg b)) cs (cb_abs b))"
  using assms
proof (induction cs arbitrary: b ps tr)
  case (Cons c cs)
  obtain now0 now1 r where c: "c = (now0, now1, r)" by (cases c)
  obtain err b1 tr1 where ex: "Execute (\<lambda>e tr. tr @ [e]) now0 now1 (\<lambda>tr. (r, tr)) b tr = (err, b1, tr1)"
    by (cases "Execute (\<lambda>e tr. tr @ [e]) now0 now1 (\<lambda>tr. (r, tr)) b tr") auto
  have step: "cb_wf b1" "b_cfg b1 = b_cfg b" "spec_exec (nat (cb_FailureThreshold (b_cfg b)))
      (nat (cb_SuccessThreshold (b_cfg b))) (cb_OpenTimeout (b_cfg b)) now0 now1 r (cb_abs b) = (err, cb_abs b1)"
    using Execute_refines [OF Cons.prems ex] by auto
  have run: "cb_run (serial (length ps) (c # cs)) \<lparr>s_breaker = b, s_pcs = ps, s_trace = tr\<rparr>
      = cb_run (serial (length (ps @ [Ret err])) cs) \<lparr>s_breaker = b1, s_pcs = ps @ [Ret err], s_trace = tr1\<rparr>"
    using run_own_ops [of ps r "now0 # now0 # replicate 18 now1" b E_Load tr] ex
    by (simp add: c cb_run_def own_ops_Execute del: own_ops.simps)
  obtain b' where "cb_run (serial (length ps) (c # cs)) \<lparr>s_breaker = b, s_pcs = ps, s_trace = tr\<rparr>
    = \<lparr>s_breaker = b',
       s_pcs = (ps @ [Ret err]) @ map Ret (fst (spec_seq (nat (cb_FailureThreshold (b_cfg b)))
         (nat (cb_SuccessThreshold (b_cfg b))) (cb_OpenTimeout (b_cfg b)) cs (cb_abs b1))),
       s_trace = tr1 @ spec_log (nat (cb_FailureThreshold (b_cfg b))) (nat (cb_SuccessThreshold (b_cfg b)))
         (cb_OpenTimeout (b_cfg b)) (b_carrierID b1) cs (cb_abs b1)\<rparr>"
    "cb_abs b' = snd (spec_seq (nat (cb_FailureThreshold (b_cfg b))) (nat (cb_SuccessThreshold (b_cfg b)))
         (cb_OpenTimeout (b_cfg b)) cs (cb_abs b1))"
    using Cons.IH [OF step(1), of "ps @ [Ret err]" tr1] unfolding run step(2) by blast
  with Execute_reports [OF Cons.prems ex] step(3) show ?case by (auto simp: c split: prod.splits)
qed (simp add: cb_run_def)

text \<open>Every operation of an unfinished call brings it closer to its return.\<close>

lemma exec_step_rank:
  "exec_step now r pc b = (pc', b', evs) \<Longrightarrow> exec_result pc = None
    \<Longrightarrow> exec_rank pc' < exec_rank pc"
  by (cases "(now, r, pc, b)" rule: exec_step.cases)
     (auto simp: transition_calls_def Let_def split: if_splits option.splits)

lemma exec_step_cfg:
  "exec_step now r pc b = (pc', b', evs) \<Longrightarrow> b_cfg b' = b_cfg b \<and> b_carrierID b' = b_carrierID b"
  by (cases "(now, r, pc, b)" rule: exec_step.cases)
     (auto simp: Let_def split: if_splits option.splits)

definition cb_edges :: "(CBState \<times> CBState) set" where
  "cb_edges = {(CBStateClosed, CBStateOpen), (CBStateOpen, CBStateHalfOpen),
     (CBStateHalfOpen, CBStateOpen), (CBStateHalfOpen, CBStateClosed)}"

lemma exec_step_edge:
  "exec_step now r pc b = (pc', b', evs)
    \<Longrightarrow> b_state b' = b_state b \<or> (b_state b, b_state b') \<in> cb_edges"
  by (cases "(now, r, pc, b)" rule: exec_step.cases)
     (auto simp: cb_edges_def cb_states breaker_states Let_def split: if_splits option.splits)

text \<open>The probe slot is taken and released together with the goroutine's local state.\<close>

lemma exec_step_slot:
  "exec_step now r pc b = (pc', b', evs)
    \<Longrightarrow> (in_probe pc' = in_probe pc \<and> b_halfOpenInFlight b' = b_halfOpenInFlight b)
      \<or> (\<not> in_probe pc \<and> in_probe pc' \<and> b_halfOpenInFlight b = 0 \<and> b_halfOpenInFlight b' = 1)
      \<or> (in_probe pc \<and> \<not> in_probe pc' \<and> b_halfOpenInFlight b' = 0)"
  by (cases "(now, r, pc, b)" rule: exec_step.cases)
     (auto simp: Let_def split: if_splits option.splits)

text \<open>The recorder calls a goroutine has still to make for a transition it has performed.\<close>
fun owed_calls :: "string \<Rightarrow> exec_pc \<Rightarrow> MetricsCall list" where
  "owed_calls i (E_Emit es k) = es @ owed_calls i k"
| "owed_calls i (C_OpenedAt err) = reports i CBStateClosed [CBStateOpen]"
| "owed_calls i (H_OpenedAt err) = reports i CBStateHalfOpen [CBStateOpen]"
| "owed_calls i (H_ZeroSuccFail err) = reports i CBStateHalfOpen [CBStateOpen]"
| "owed_calls i H_ZeroFail = reports i CBStateHalfOpen [CBStateClosed]"
| "owed_calls i H_ZeroSucc = reports i CBStateHalfOpen [CBStateClosed]"
| "owed_calls i _ = []"

text \<open>All calls still to be made, and all calls due for a list of state changes.\<close>
definition owed :: "string \<Rightarrow> exec_pc list \<Rightarrow> MetricsCall multiset" where
  "owed i pcs = mset (concat (map (owed_calls i) pcs))"

definition due :: "string \<Rightarrow> (CBState \<times> CBState) list \<Rightarrow> MetricsCall multiset" where
  "due i changes = mset (concat (map (\<lambda>(from, to). reports i from [to]) changes))"

text \<open>An operation that changes the state leaves its goroutine owing that change's reports.\<close>
lemma exec_step_owed:
  "exec_step now r pc b = (pc', b', evs)
    \<Longrightarrow> mset evs + mset (owed_calls (b_carrierID b) pc') = mset (owed_calls (b_carrierID b) pc)
      + (if b_state b' = b_state b then {#} else due (b_carrierID b) [(b_state b, b_state b')])"
  by (cases "(now, r, pc, b)" rule: exec_step.cases)
     (auto simp: transition_calls_def due_def cb_states breaker_states Let_def split: if_splits option.splits)

lemma owed_update:
  "k < length pcs \<Longrightarrow> owed i (pcs[k := pc]) + mset (owed_calls i (pcs ! k)) = owed i pcs + mset (owed_calls i pc)"
proof (induction pcs arbitrary: k)
  case (Cons p pcs)
  then show ?case by (cases k) (auto simp: owed_def)
qed simp

lemma owed_none: "list_all (\<lambda>pc. exec_result pc \<noteq> None) pcs \<Longrightarrow> owed i pcs = {#}"
proof (induction pcs)
  case (Cons p pcs)
  then show ?case by (cases p) (auto simp: owed_def)
qed (simp add: owed_def)

lemma cb_apply_reports:
  assumes "b_carrierID (s_breaker s) = i"
  shows "mset (s_trace (cb_apply l s)) + owed i (s_pcs (cb_apply l s))
      = mset (s_trace s) + owed i (s_pcs s) + due i (cb_changes [l] s)
    \<and> b_carrierID (s_breaker (cb_apply l s)) = i \<and> set (cb_changes [l] s) \<subseteq> cb_edges"
proof (cases "\<exists>k now r. l = Run k now r \<and> k < length (s_pcs s)")
  case True
  then obtain k now r where l: "l = Run k now r" and k: "k < length (s_pcs s)" by blast
  obtain pc' b' evs where st: "exec_step now r (s_pcs s ! k) (s_breaker s) = (pc', b', evs)"
    by (cases "exec_step now r (s_pcs s ! k) (s_breaker s)") auto
  have "mset evs + owed i ((s_pcs s)[k := pc'])
      = owed i (s_pcs s) + (if b_state b' = b_state (s_breaker s) then {#} else due i [(b_state (s_breaker s), b_state b')])"
    (is "?L = ?R")
  proof (rule multiset_eqI)
    fix x
    show "count ?L x = count ?R x"
      using arg_cong [OF exec_step_owed [OF st], of "\<lambda>M. count M x"]
        arg_cong [OF owed_update [OF k, of i pc'], of "\<lambda>M. count M x"] assms by (auto split: if_splits)
  qed
  then show ?thesis using exec_step_cfg [OF st] exec_step_edge [OF st] assms l k st
    by (auto simp: due_def Let_def ac_simps split: if_splits)
next
  case False
  with assms show ?thesis by (cases l) (auto simp: owed_def due_def)
qed

lemma cb_run_reports:
  assumes "b_carrierID (s_breaker s) = i"
  shows "mset (s_trace (cb_run ls s)) + owed i (s_pcs (cb_run ls s))
      = mset (s_trace s) + owed i (s_pcs s) + due i (cb_changes ls s)
    \<and> set (cb_changes ls s) \<subseteq> cb_edges"
  using assms
proof (induction ls arbitrary: s)
  case (Cons l ls)
  note one = cb_apply_reports [OF Cons.prems, of l]
  have "cb_changes (l # ls) s = cb_changes [l] s @ cb_changes ls (cb_apply l s)" by (simp add: Let_def)
  then have "due i (cb_changes (l # ls) s) = due i (cb_changes [l] s) + due i (cb_changes ls (cb_apply l s))"
    and "set (cb_changes (l # ls) s) = set (cb_changes [l] s) \<union> set (cb_changes ls (cb_apply l s))"
    by (simp_all add: due_def del: cb_changes.simps)
  with one Cons.IH [of "cb_apply l s"] show ?case by (simp add: cb_run_def ac_simps del: cb_changes.simps)
qed (simp add: cb_run_def due_def)

section \<open>The interface of a guarded call\<close>

text \<open>
  What a client of the breaker relies on when other goroutines interfere: each operation of
  an unfinished call makes progress whatever the shared state is, a finished call stays
  finished, and the guarded function runs at most once. \<open>interfered es\<close> is a call whose
  every operation finds a shared state chosen by the others.
\<close>

locale guarded_call =
  fixes op :: "'e \<Rightarrow> 'b \<Rightarrow> 'pc \<Rightarrow> 'pc" and finished calling :: "'pc \<Rightarrow> bool"
    and rank calls_left :: "'pc \<Rightarrow> nat"
  assumes op_progress: "\<not> finished pc \<Longrightarrow> rank (op e b pc) < rank pc"
    and op_finished: "finished pc \<Longrightarrow> op e b pc = pc"
    and rank_finished: "rank pc = 0 \<Longrightarrow> finished pc"
    and op_calls: "calls_left (op e b pc) + (if calling pc then 1 else 0) \<le> calls_left pc"
begin

fun interfered :: "('e \<times> 'b) list \<Rightarrow> 'pc \<Rightarrow> 'pc" where
  "interfered [] pc = pc"
| "interfered ((e, b) # es) pc = interfered es (op e b pc)"

fun calls_made :: "('e \<times> 'b) list \<Rightarrow> 'pc \<Rightarrow> nat" where
  "calls_made [] pc = 0"
| "calls_made ((e, b) # es) pc = (if calling pc then 1 else 0) + calls_made es (op e b pc)"

lemma interfered_finished: "finished pc \<Longrightarrow> interfered es pc = pc"
  by (induction es) (auto simp: op_finished)

lemma interfered_finishes: "rank pc \<le> length es \<Longrightarrow> finished (interfered es pc)"
proof (induction es arbitrary: pc)
  case Nil
  then show ?case by (simp add: rank_finished)
next
  case (Cons eb es)
  obtain e b where eb: "eb = (e, b)" by (cases eb)
  show ?case
  proof (cases "finished pc")
    case True
    then show ?thesis by (simp add: interfered_finished)
  next
    case False
    then have "rank (op e b pc) \<le> length es" using op_progress [of pc e b] Cons.prems by simp
    with Cons.IH show ?thesis by (simp add: eb)
  qed
qed

lemma calls_made_bound: "calls_made es pc \<le> calls_left pc"
proof (induction es arbitrary: pc)
  case (Cons eb es)
  obtain e b where eb: "eb = (e, b)" by (cases eb)
  show ?case using Cons.IH [of "op e b pc"] op_calls [of e b pc] by (simp add: eb)
qed simp

end

fun exec_calls_left :: "exec_pc \<Rightarrow> nat" where
  "exec_calls_left (E_Emit es k) = exec_calls_left k"
| "exec_calls_left E_Load = 1"
| "exec_calls_left E_OpenCheck = 1"
| "exec_calls_left E_CASHalf = 1"
| "exec_calls_left H_Enter = 1"
| "exec_calls_left C_Call = 1"
| "exec_calls_left H_Call = 1"
| "exec_calls_left _ = 0"

definition exec_op :: "instant \<times> go_error option \<Rightarrow> Breaker \<Rightarrow> exec_pc \<Rightarrow> exec_pc" where
  "exec_op e b pc = fst (exec_step (fst e) (snd e) pc b)"

lemma exec_op_calls:
  "exec_calls_left (exec_op e b pc) + (if at_call pc then 1 else 0) \<le> exec_calls_left pc"
  by (cases "(fst e, snd e, pc, b)" rule: exec_step.cases)
     (auto simp: exec_op_def Let_def split: option.splits)

lemma exec_rank_0: "exec_rank pc = 0 \<Longrightarrow> exec_result pc \<noteq> None"
  by (cases pc) auto

interpretation exec_call: guarded_call exec_op "\<lambda>pc. exec_result pc \<noteq> None" at_call exec_rank
  exec_calls_left
proof
  fix pc e b
  show "\<not> exec_result pc \<noteq> None \<Longrightarrow> exec_rank (exec_op e b pc) < exec_rank pc"
    unfolding exec_op_def by (cases "exec_step (fst e) (snd e) pc b") (auto dest: exec_step_rank)
  show "exec_result pc \<noteq> None \<Longrightarrow> exec_op e b pc = pc"
    by (cases pc) (auto simp: exec_op_def)
  show "exec_rank pc = 0 \<Longrightarrow> exec_result pc \<noteq> None" by (rule exec_rank_0)
  show "exec_calls_left (exec_op e b pc) + (if at_call pc then 1 else 0) \<le> exec_calls_left pc"
    by (rule exec_op_calls)
qed

section \<open>Invariants of every interleaving\<close>

definition cb_inv :: "string \<Rightarrow> breaker_sys \<Rightarrow> bool" where
  "cb_inv i s \<longleftrightarrow> b_carrierID (s_breaker s) = i
     \<and> b_state (s_breaker s) \<in> {stateClosed, stateOpen, stateHalfOpen}
     \<and> b_halfOpenInFlight (s_breaker s) = of_nat (count_pc in_probe (s_pcs s))
     \<and> count_pc in_probe (s_pcs s) \<le> 1"

lemma cb_inv_init: "cb_inv carrierID (cb_init carrierID cfg)"
  by (simp add: cb_inv_def cb_init_def New_Breaker_def Let_def breaker_states)

lemma slot_count_step:
  assumes slot: "b_halfOpenInFlight b = of_nat (count_pc in_probe pcs)"
    and le: "count_pc in_probe pcs \<le> 1" and i: "i < length pcs"
    and st: "exec_step now r (pcs ! i) b = (pc', b', evs)"
  shows "b_halfOpenInFlight b' = of_nat (count_pc in_probe (pcs[i := pc']))
    \<and> count_pc in_probe (pcs[i := pc']) \<le> 1"
proof -
  note upd = count_pc_update [OF i, of in_probe pc']
  have cnt: "count_pc in_probe pcs = 0 \<or> count_pc in_probe pcs = 1" using le by linarith
  have pos: "in_probe (pcs ! i) \<Longrightarrow> count_pc in_probe pcs = 1"
    using count_pc_pos [OF i, of in_probe] le by linarith
  from exec_step_slot [OF st] slot show ?thesis
  proof (elim disjE conjE)
    assume "in_probe pc' = in_probe (pcs ! i)" "b_halfOpenInFlight b' = b_halfOpenInFlight b"
    then show ?thesis using upd slot le by auto
  next
    assume "\<not> in_probe (pcs ! i)" "in_probe pc'" "b_halfOpenInFlight b = 0"
      "b_halfOpenInFlight b' = 1"
    then show ?thesis using upd slot cnt by auto
  next
    assume "in_probe (pcs ! i)" "\<not> in_probe pc'" "b_halfOpenInFlight b' = 0"
    then show ?thesis using upd pos by simp
  qed
qed

lemma cb_inv_apply:
  assumes inv: "cb_inv i s"
  shows "cb_inv i (cb_apply l s)"
proof (cases l)
  case Spawn
  with inv show ?thesis by (auto simp: cb_inv_def)
next
  case (Run k now r)
  show ?thesis
  proof (cases "k < length (s_pcs s)")
    case False
    with Run inv show ?thesis by simp
  next
    case True
    obtain pc' b' evs where st: "exec_step now r (s_pcs s ! k) (s_breaker s) = (pc', b', evs)"
      by (cases "exec_step now r (s_pcs s ! k) (s_breaker s)") auto
    have slot: "b_halfOpenInFlight b' = of_nat (count_pc in_probe ((s_pcs s)[k := pc']))
        \<and> count_pc in_probe ((s_pcs s)[k := pc']) \<le> 1"
      using slot_count_step [OF _ _ True st] inv by (simp add: cb_inv_def)
    have state: "b_state b' \<in> {stateClosed, stateOpen, stateHalfOpen}"
      using exec_step_edge [OF st] inv by (auto simp: cb_inv_def cb_edges_def cb_states breaker_states)
    show ?thesis
      using Run True st slot state inv exec_step_cfg [OF st]
      by (auto simp: cb_inv_def)
  qed
qed

lemma cb_reach_inv: "cb_reach carrierID cfg s \<Longrightarrow> cb_inv carrierID s"
  by (induction rule: cb_reach.induct) (auto intro: cb_inv_init cb_inv_apply)

lemma cb_run_reach: "cb_reach carrierID cfg s \<Longrightarrow> cb_reach carrierID cfg (cb_run ls s)"
  unfolding cb_run_def by (induction ls arbitrary: s) (auto intro: cb_reach.cb_step)


section \<open>Properties\<close>

definition new_breaker :: "string \<Rightarrow> CBConfig \<Rightarrow> Breaker" where
  "new_breaker carrierID cfg = fst (New_Breaker carrierID cfg)"

text \<open>
  C5: every sequence of uninterrupted \<^verbatim>\<open>Execute\<close> calls on a new breaker returns the errors
  and ends in the state of the documented automaton: consecutive failures up to the
  threshold open the circuit, an open circuit rejects until its timeout, then probes close or
  reopen it. The thresholds must fit the \<^verbatim>\<open>int32\<close> they are converted to.
\<close>
theorem breaker_refines_automaton:
  assumes "cb_FailureThreshold cfg < 2 ^ 31" "cb_SuccessThreshold cfg < 2 ^ 31"
    "cb_OpenTimeout cfg \<le> int64_max"
    and "Execute_seq rec cs (new_breaker carrierID cfg) w = (errs, b', w')"
    and "c = b_cfg (new_breaker carrierID cfg)"
  shows "(errs, cb_abs b') = spec_seq (nat (cb_FailureThreshold c))
    (nat (cb_SuccessThreshold c)) (cb_OpenTimeout c) cs (SClosed 0)"
proof -
  have "cb_wf (new_breaker carrierID cfg)" "cb_abs (new_breaker carrierID cfg) = SClosed 0"
    using New_Breaker_wf [of cfg carrierID] assms(1-3) by (simp_all add: new_breaker_def)
  with Execute_seq_refines [OF this(1) assms(4)] show ?thesis by (simp add: assms(5))
qed

theorem breaker_refines_automaton_witness:
  "fst (Execute_seq (\<lambda>e w. w) [(0, 10, Some ErrCarrierUnavailable), (12, 13, None), (99, 99, None)]
      (new_breaker ''beta'' \<lparr>cb_FailureThreshold = 1, cb_SuccessThreshold = 2, cb_OpenTimeout = 30\<rparr>) ())
    = [Some ErrCarrierUnavailable, Some ErrCircuitOpen, None]"
proof -
  let ?cs = "[(0, 10, Some ErrCarrierUnavailable), (12, 13, None), (99, 99, None)]"
  let ?cfg = "\<lparr>cb_FailureThreshold = 1, cb_SuccessThreshold = 2, cb_OpenTimeout = 30\<rparr>"
  obtain errs b' w' where ex:
    "Execute_seq (\<lambda>e w. w) ?cs (new_breaker ''beta'' ?cfg) () = (errs, b', w')"
    by (cases "Execute_seq (\<lambda>e w. w) ?cs (new_breaker ''beta'' ?cfg) ()") auto
  have "b_cfg (new_breaker ''beta'' ?cfg) = ?cfg"
    by (simp add: new_breaker_def New_Breaker_def)
  then show ?thesis
    using breaker_refines_automaton [OF _ _ _ ex refl] ex by (simp add: int64_max_def)
qed

lemma spec_seq_failures:
  assumes "\<forall>(now0, now1, r) \<in> set cs. r \<noteq> None" and "n + length cs < F"
  shows "snd (spec_seq F S T cs (SClosed n)) = SClosed (n + length cs)"
  using assms
proof (induction cs arbitrary: n)
  case (Cons c cs)
  obtain now0 now1 err where c: "c = (now0, now1, Some err)" using Cons.prems(1) by (cases c) auto
  have "snd (spec_seq F S T cs (SClosed (Suc n))) = SClosed (Suc n + length cs)"
    using Cons by simp
  then show ?case using Cons.prems(2) by (simp add: c case_prod_beta)
qed simp

text \<open>
  A new breaker survives any number of consecutive failures below the threshold and is
  opened by exactly the failure that reaches it, at the time of that failure.
\<close>
theorem breaker_trips_at_threshold:
  assumes cfg: "0 < cb_FailureThreshold cfg" "cb_FailureThreshold cfg < 2 ^ 31"
    "cb_SuccessThreshold cfg < 2 ^ 31" "cb_OpenTimeout cfg \<le> int64_max"
    and fails: "\<forall>(now0, now1, r) \<in> set cs. r \<noteq> None"
    and len: "Suc (length cs) = nat (cb_FailureThreshold cfg)"
    and ex: "Execute_seq rec cs (new_breaker carrierID cfg) w = (errs, b1, w1)"
    and last: "Execute rec now0 now1 (\<lambda>w. (Some err, w)) b1 w1 = (res, b2, w2)"
  shows "State b1 = CBStateClosed \<and> State b2 = CBStateOpen \<and> b_openedAt b2 = now1"
proof -
  let ?c = "b_cfg (new_breaker carrierID cfg)"
  have F: "cb_FailureThreshold ?c = cb_FailureThreshold cfg"
    using cfg by (simp add: new_breaker_def New_Breaker_def Let_def)
  have wf: "cb_wf (new_breaker carrierID cfg)" "cb_abs (new_breaker carrierID cfg) = SClosed 0"
    using New_Breaker_wf cfg by (auto simp: new_breaker_def)
  have b1: "cb_wf b1" and c1: "b_cfg b1 = ?c" and abs1: "cb_abs b1 = SClosed (length cs)"
    using Execute_seq_refines [OF wf(1) ex] spec_seq_failures [OF fails, of 0] wf(2) len F
    by (auto dest!: arg_cong [of _ _ snd])
  have "cb_wf b2" "cb_abs b2 = SOpen now1"
    using Execute_refines [OF b1 last] abs1 c1 F len by auto
  then show ?thesis
    using b1 abs1 by (auto simp: cb_abs_def State_def cb_wf_def cb_states breaker_states split: if_splits)
qed

theorem breaker_trips_at_threshold_witness:
  "State (fst (snd (Execute (\<lambda>e w. w) 0 7 (\<lambda>w. (Some ErrCarrierUnavailable, w))
     (new_breaker ''beta'' \<lparr>cb_FailureThreshold = 1, cb_SuccessThreshold = 2, cb_OpenTimeout = 30\<rparr>) ())))
   = CBStateOpen"
proof -
  let ?b = "new_breaker ''beta'' \<lparr>cb_FailureThreshold = 1, cb_SuccessThreshold = 2, cb_OpenTimeout = 30\<rparr>"
  obtain res b2 w2 where ex:
    "Execute (\<lambda>e w. w) 0 7 (\<lambda>w. (Some ErrCarrierUnavailable, w)) ?b () = (res, b2, w2)"
    by (cases "Execute (\<lambda>e w. w) 0 7 (\<lambda>w. (Some ErrCarrierUnavailable, w)) ?b ()") auto
  have "Execute_seq (\<lambda>e w. w) [] ?b () = ([], ?b, ())" by simp
  from breaker_trips_at_threshold [OF _ _ _ _ _ _ this ex] show ?thesis
    using ex by (simp add: int64_max_def)
qed

text \<open>
  C7: the goroutines implement the automaton. When calls come one after another, the atomic
  operations of the goroutines (loads, stores, compare-and-swaps and counter updates on the shared
  breaker) return the automaton's errors, leave the breaker in its state, and the recorder has
  received the initial gauge followed by exactly the automaton's transitions, each with its new
  gauge value, in order. Twenty operations are enough for every call. The thresholds must fit
  the \<^verbatim>\<open>int32\<close> they are converted to and the timeout 64 bits.
\<close>
theorem serial_calls_follow_automaton:
  assumes "cb_FailureThreshold cfg < 2 ^ 31" "cb_SuccessThreshold cfg < 2 ^ 31"
    "cb_OpenTimeout cfg \<le> int64_max"
    and "c = b_cfg (new_breaker carrierID cfg)"
    and "F = nat (cb_FailureThreshold c)" "S = nat (cb_SuccessThreshold c)" "T = cb_OpenTimeout c"
    and "s = cb_run (serial 0 cs) (cb_init carrierID cfg)"
  shows "s_pcs s = map Ret (fst (spec_seq F S T cs (SClosed 0)))
    \<and> cb_abs (s_breaker s) = snd (spec_seq F S T cs (SClosed 0))
    \<and> s_trace s = SetCBState carrierID CBStateClosed # spec_log F S T carrierID cs (SClosed 0)"
proof -
  have new: "cb_wf (new_breaker carrierID cfg)" "cb_abs (new_breaker carrierID cfg) = SClosed 0"
    using New_Breaker_wf [of cfg carrierID] assms(1-3) by (simp_all add: new_breaker_def)
  have init: "cb_init carrierID cfg = \<lparr>s_breaker = new_breaker carrierID cfg, s_pcs = [],
      s_trace = [SetCBState carrierID CBStateClosed]\<rparr>" and i: "b_carrierID (new_breaker carrierID cfg) = carrierID"
    by (simp_all add: cb_init_def new_breaker_def New_Breaker_def Let_def)
  from serial_refines [OF new(1), of "[]" cs "[SetCBState carrierID CBStateClosed]"] assms(4-8) new(2) i
  show ?thesis by (auto simp: init)
qed

theorem serial_calls_follow_automaton_witness:
  "s_trace (cb_run (serial 0 [(0, 10, Some ErrCarrierUnavailable), (12, 13, None), (99, 99, None)])
      (cb_init ''beta'' \<lparr>cb_FailureThreshold = 1, cb_SuccessThreshold = 1, cb_OpenTimeout = 30\<rparr>))
    = [SetCBState ''beta'' CBStateClosed,
       RecordCBTransition ''beta'' CBStateClosed CBStateOpen, SetCBState ''beta'' CBStateOpen,
       RecordCBTransition ''beta'' CBStateOpen CBStateHalfOpen, SetCBState ''beta'' CBStateHalfOpen,
       RecordCBTransition ''beta'' CBStateHalfOpen CBStateClosed, SetCBState ''beta'' CBStateClosed]"
proof -
  let ?cfg = "\<lparr>cb_FailureThreshold = 1, cb_SuccessThreshold = 1, cb_OpenTimeout = 30\<rparr>"
  have "b_cfg (new_breaker ''beta'' ?cfg) = ?cfg" by (simp add: new_breaker_def New_Breaker_def)
  from serial_calls_follow_automaton [OF _ _ _ this [symmetric] refl refl refl refl,
      of "[(0, 10, Some ErrCarrierUnavailable), (12, 13, None), (99, 99, None)]"]
  show ?thesis by (simp add: int64_max_def)
qed

text \<open>
  C6: mutual exclusion of probes. Under every interleaving of any number of goroutines, at
  most one of them is inside the half-open section, so at most one probe runs at a time.
\<close>
theorem at_most_one_probe:
  assumes reach: "cb_reach carrierID cfg s" and i: "i < length (s_pcs s)"
    and j: "j < length (s_pcs s)" and pi: "in_probe (s_pcs s ! i)" and pj: "in_probe (s_pcs s ! j)"
  shows "i = j"
  using cb_reach_inv [OF reach] count_pc_le_1 [OF _ i j pi pj] by (simp add: cb_inv_def)

text \<open>A run in which a first call opens the circuit and a second one becomes the probe.\<close>

definition probe_schedule :: "cb_label list" where
  "probe_schedule = [Spawn] @ replicate 9 (Run 0 5 (Some ErrCarrierUnavailable))
     @ [Spawn, Spawn] @ replicate 7 (Run 1 100 None)"

theorem at_most_one_probe_witness:
  "\<exists>s. cb_reach ''beta'' \<lparr>cb_FailureThreshold = 1, cb_SuccessThreshold = 1, cb_OpenTimeout = 10\<rparr> s
    \<and> in_probe (s_pcs s ! 1) \<and> (\<forall>j < length (s_pcs s). in_probe (s_pcs s ! j) \<longrightarrow> j = 1)"
proof -
  let ?cfg = "\<lparr>cb_FailureThreshold = 1, cb_SuccessThreshold = 1, cb_OpenTimeout = 10\<rparr>"
  define s where "s = cb_run probe_schedule (cb_init ''beta'' ?cfg)"
  have reach: "cb_reach ''beta'' ?cfg s"
    unfolding s_def by (intro cb_run_reach cb_reach.cb_start)
  have pcs: "s_pcs s = [Ret (Some ErrCarrierUnavailable), H_Call, E_Load]"
    unfolding s_def by code_simp
  have "\<forall>j < length (s_pcs s). in_probe (s_pcs s ! j) \<longrightarrow> j = 1"
    using at_most_one_probe [OF reach, of _ 1] pcs by simp
  with reach pcs show ?thesis by auto
qed

text \<open>
  C25: under every interleaving of any number of goroutines the state changes only along the four
  documented edges, and no transition is lost, invented or reported as another one: the calls
  the recorder has received, with those the goroutines in the middle of a transition have still to
  make, are the initial gauge value and, for each change of the state, one transition with its
  two ends and one gauge value. When all calls have returned nothing is outstanding.
\<close>
theorem transitions_reported_exactly:
  assumes "s0 = cb_init carrierID cfg" "s = cb_run ls s0"
  shows "set (cb_changes ls s0) \<subseteq> cb_edges
    \<and> mset (s_trace s) + owed carrierID (s_pcs s) = {#SetCBState carrierID CBStateClosed#} + due carrierID (cb_changes ls s0)
    \<and> (list_all (\<lambda>pc. exec_result pc \<noteq> None) (s_pcs s)
        \<longrightarrow> mset (s_trace s) = {#SetCBState carrierID CBStateClosed#} + due carrierID (cb_changes ls s0))"
proof -
  have "b_carrierID (s_breaker s0) = carrierID" "mset (s_trace s0) + owed carrierID (s_pcs s0) = {#SetCBState carrierID CBStateClosed#}"
    by (simp_all add: assms(1) cb_init_def New_Breaker_def Let_def owed_def)
  with cb_run_reports [of s0 carrierID ls] owed_none [of "s_pcs s" carrierID] show ?thesis
    by (auto simp: assms(2))
qed

theorem transitions_reported_exactly_witness:
  "\<exists>s0 s. s0 = cb_init ''beta'' \<lparr>cb_FailureThreshold = 1, cb_SuccessThreshold = 1, cb_OpenTimeout = 10\<rparr>
     \<and> s = cb_run (probe_schedule @ replicate 9 (Run 1 100 (Some ErrCarrierUnavailable)) @ replicate 10 (Run 2 100 None)) s0
     \<and> mset (s_trace s) = {#SetCBState ''beta'' CBStateClosed#}
         + due ''beta'' [(CBStateClosed, CBStateOpen), (CBStateOpen, CBStateHalfOpen), (CBStateHalfOpen, CBStateOpen)]"
proof -
  let ?s0 = "cb_init ''beta'' \<lparr>cb_FailureThreshold = 1, cb_SuccessThreshold = 1, cb_OpenTimeout = 10\<rparr>"
  let ?ls = "probe_schedule @ replicate 9 (Run 1 100 (Some ErrCarrierUnavailable)) @ replicate 10 (Run 2 100 None)"
  have "list_all (\<lambda>pc. exec_result pc \<noteq> None) (s_pcs (cb_run ?ls ?s0))" by code_simp
  moreover have "cb_changes ?ls ?s0 = [(CBStateClosed, CBStateOpen), (CBStateOpen, CBStateHalfOpen), (CBStateHalfOpen, CBStateOpen)]"
    by code_simp
  ultimately show ?thesis
    using transitions_reported_exactly [OF refl refl, of ?ls "''beta''" "\<lparr>cb_FailureThreshold = 1, cb_SuccessThreshold = 1, cb_OpenTimeout = 10\<rparr>"]
    by auto
qed

text \<open>
  C26: wait-freedom. A call of \<^verbatim>\<open>Execute\<close> returns after at most twenty of its own
  operations, whatever the other goroutines do to the breaker between them, and has called
  the guarded function at most once.
\<close>
theorem Execute_wait_free:
  assumes "20 \<le> length es"
  shows "exec_result (exec_call.interfered es E_Load) \<noteq> None \<and> exec_call.calls_made es E_Load \<le> 1"
  using exec_call.interfered_finishes [of E_Load es] exec_call.calls_made_bound [of es E_Load] assms
  by simp

theorem Execute_wait_free_witness:
  "exec_result (exec_call.interfered
     (replicate 20 ((0, None), new_breaker ''beta''
       \<lparr>cb_FailureThreshold = 1, cb_SuccessThreshold = 1, cb_OpenTimeout = 10\<rparr>)) E_Load) \<noteq> None"
  using Execute_wait_free [of "replicate 20 ((0, None), new_breaker ''beta''
       \<lparr>cb_FailureThreshold = 1, cb_SuccessThreshold = 1, cb_OpenTimeout = 10\<rparr>)"] by simp

text \<open>
  C27: the open timeout can be skipped. Between the compare-and-swap that opens the circuit
  and the store of \<^verbatim>\<open>openedAt\<close> a second call still reads the previous timestamp; on a new
  breaker that is zero, so at one and the same clock reading the circuit opens and is already
  half-open.
\<close>
theorem open_timeout_race:
  assumes "30 * Second \<le> t" "t \<le> int64_max"
  shows "b_state (s_breaker (cb_run
      ([Spawn] @ replicate 4 (Run 0 t (Some ErrCarrierUnavailable)) @ [Spawn] @ replicate 3 (Run 1 t None))
      (cb_init ''beta'' \<lparr>cb_FailureThreshold = 1, cb_SuccessThreshold = 1, cb_OpenTimeout = 30 * Second\<rparr>)))
    = stateHalfOpen"
proof -
  have "in_int64 t" using assms by (simp add: in_int64_def int64_min_def Second_def)
  then have "\<not> time_Sub t 0 < 30 * Second" using assms by (simp add: time_Sub_def)
  then show ?thesis
    by (simp add: cb_run_def cb_init_def New_Breaker_def eval_nat_numeral reached_def to_int32_def
        breaker_states Second_def)
qed

theorem open_timeout_race_witness:
  "b_state (s_breaker (cb_run
      ([Spawn] @ replicate 4 (Run 0 (1700000000 * Second) (Some ErrCarrierUnavailable))
        @ [Spawn] @ replicate 3 (Run 1 (1700000000 * Second) None))
      (cb_init ''beta'' \<lparr>cb_FailureThreshold = 1, cb_SuccessThreshold = 1, cb_OpenTimeout = 30 * Second\<rparr>)))
    = stateHalfOpen"
  by (rule open_timeout_race) (simp_all add: Second_def int64_max_def)

end
