(* ===== verification/Limiter.thy ===== *)
theory Limiter
  imports Domain
begin

text \<open>
  \<^verbatim>\<open>internal/ratelimiter/limiter.go\<close>. The token bucket itself is
  \<^verbatim>\<open>golang.org/x/time/rate\<close>, which is not part of the repository: \<open>'l\<close> is its state,
  and its operations are the arguments \<open>bucket_wait\<close> (what \<^verbatim>\<open>Wait\<close> returns under a given
  context) and \<open>bucket_allow\<close> (\<^verbatim>\<open>Allow\<close> at a clock reading).
\<close>

record 'l Limiter =
  l_inner :: 'l
  l_carrierID :: string

definition New_Limiter :: "(float64 \<Rightarrow> int \<Rightarrow> 'l) \<Rightarrow> string \<Rightarrow> RateLimitConfig \<Rightarrow> 'l Limiter" where
  "New_Limiter NewLimiter carrierID cfg =
     \<lparr>l_inner = NewLimiter (rl_TokensPerSecond cfg) (rl_Burst cfg), l_carrierID = carrierID\<rparr>"

text \<open>The two context errors are reported as a rate limit; any other error is passed on.\<close>
definition is_ctx_error :: "go_error \<Rightarrow> bool" where
  "is_ctx_error err \<longleftrightarrow> errors_Is err CtxCanceled \<or> errors_Is err CtxDeadlineExceeded"

definition Wait :: "('l \<Rightarrow> 'ctx \<Rightarrow> go_error option \<times> 'l) \<Rightarrow> 'ctx \<Rightarrow> 'l Limiter
    \<Rightarrow> go_error option \<times> 'l Limiter \<times> MetricsCall list" where
  "Wait bucket_wait ctx l =
     (case bucket_wait (l_inner l) ctx of
        (Some err, t) \<Rightarrow>
          (if is_ctx_error err
           then (Some ErrRateLimitExceeded, l\<lparr>l_inner := t\<rparr>, [RecordRateLimitRejection (l_carrierID l)])
           else (Some err, l\<lparr>l_inner := t\<rparr>, []))
      | (None, t) \<Rightarrow> (None, l\<lparr>l_inner := t\<rparr>, []))"

definition TryAcquire :: "('l \<Rightarrow> instant \<Rightarrow> bool \<times> 'l) \<Rightarrow> instant \<Rightarrow> 'l Limiter \<Rightarrow> bool \<times> 'l Limiter" where
  "TryAcquire bucket_allow now l =
     (case bucket_allow (l_inner l) now of (ok, t) \<Rightarrow> (ok, l\<lparr>l_inner := t\<rparr>))"

section \<open>Properties\<close>

text \<open>
  \<^verbatim>\<open>Wait\<close> emits exactly one rejection metric, for its own carrier, when and only when it
  reports a rate limit because the context ended, and otherwise returns what the bucket
  returned; the carrier the limiter belongs to never changes.
\<close>
theorem Wait_reports_rejections:
  assumes wait: "Wait bucket_wait ctx l = (res, l', evs)"
    and bucket: "bucket_wait (l_inner l) ctx = (r, t)"
    and no_sentinel: "r \<noteq> Some ErrRateLimitExceeded"
  shows "evs = (if res = Some ErrRateLimitExceeded then [RecordRateLimitRejection (l_carrierID l)] else [])
    \<and> (res = Some ErrRateLimitExceeded \<longleftrightarrow> (\<exists>e. r = Some e \<and> is_ctx_error e))
    \<and> (res \<noteq> Some ErrRateLimitExceeded \<longrightarrow> res = r)
    \<and> l_carrierID l' = l_carrierID l \<and> l_inner l' = t"
  using assms by (auto simp: Wait_def split: option.splits if_splits)

theorem Wait_reports_rejections_witness:
  "Wait (\<lambda>t ctx. (Some (Wrapped ''rate: wait'' ctx), t)) CtxCanceled \<lparr>l_inner = (), l_carrierID = ''beta''\<rparr>
    = (Some ErrRateLimitExceeded, \<lparr>l_inner = (), l_carrierID = ''beta''\<rparr>, [RecordRateLimitRejection ''beta''])"
proof -
  let ?w = "\<lambda>t ctx. (Some (Wrapped ''rate: wait'' ctx), t)"
  let ?l = "\<lparr>l_inner = (), l_carrierID = ''beta''\<rparr>"
  obtain res l' evs where w: "Wait ?w CtxCanceled ?l = (res, l', evs)"
    by (cases "Wait ?w CtxCanceled ?l") auto
  have "is_ctx_error (Wrapped ''rate: wait'' CtxCanceled)" by (simp add: is_ctx_error_def)
  with Wait_reports_rejections [OF w refl] w show ?thesis by auto
qed

end
