(* ===== verification/Hedging.thy ===== *)
theory Hedging
  imports Domain
begin

text \<open>
  \<^verbatim>\<open>internal/orchestrator/hedging.go\<close>: the latency tracker, the choice of a hedge
  candidate, and when a pending carrier counts as slow. (The monitor's
  loop and its goroutines are part of the fan-out machine of theory \<open>Fan_Out\<close>.)

  \<open>Record\<close> is a tracker update without interference; \<open>rec_apply\<close> is the same update as
  its load and compare-and-swap retry loop, under any interleaving of goroutines. Cells the
  code allocates are addresses into \<open>es_heap\<close>, so the pointer comparison of the
  compare-and-swap is a comparison of addresses.
\<close>

section \<open>The latency tracker\<close>

record emaState =
  e_p95 :: float64
  e_observations :: int

record EMATracker =
  t_carrierID :: string
  t_alpha :: float64
  t_multiplier :: float64
  t_warmup :: int
  t_state :: emaState

definition NewEMATracker :: "string \<Rightarrow> duration \<Rightarrow> CarrierConfig \<Rightarrow> EMATracker" where
  "NewEMATracker carrierID seed cfg =
     (let seedMs = f_mul (float_of_int (Milliseconds seed)) (Fin 2);
          alpha = cc_EMAAlpha cfg;
          alpha = (if cc_EMAWindowSize cfg > 0
                   then f_div (Fin 2) (f_add (float_of_int (cc_EMAWindowSize cfg)) (Fin 1)) else alpha);
          alpha = (if f_le alpha (Fin 0) \<or> f_le (Fin 1) alpha then to_float64 (1 / 10) else alpha)
      in \<lparr>t_carrierID = carrierID, t_alpha = alpha, t_multiplier = cc_HedgeMultiplier cfg,
          t_warmup = cc_EMAWarmupObservations cfg,
          t_state = \<lparr>e_p95 = seedMs, e_observations = 0\<rparr>\<rparr>)"

text \<open>A duration in milliseconds as a float: \<^verbatim>\<open>float64(d) / float64(time.Millisecond)\<close>.\<close>
definition float_ms :: "duration \<Rightarrow> float64" where
  "float_ms d = f_div (float_of_int d) (float_of_int Millisecond)"

text \<open>The state an update computes from the state it loaded.\<close>
definition ema_next :: "float64 \<Rightarrow> duration \<Rightarrow> emaState \<Rightarrow> emaState" where
  "ema_next alpha latency old =
     \<lparr>e_p95 = f_add (f_mul alpha (float_ms latency)) (f_mul (f_sub (Fin 1) alpha) (e_p95 old)),
      e_observations = wrap64 (e_observations old + 1)\<rparr>"

definition Record :: "duration \<Rightarrow> EMATracker \<Rightarrow> EMATracker \<times> MetricsCall list" where
  "Record latency t =
     (let next = ema_next (t_alpha t) latency (t_state t)
      in (t\<lparr>t_state := next\<rparr>, [SetP95Latency (t_carrierID t) (e_p95 next)]))"

definition P95 :: "EMATracker \<Rightarrow> float64" where
  "P95 t = e_p95 (t_state t)"

definition HedgeThreshold :: "EMATracker \<Rightarrow> float64" where
  "HedgeThreshold t =
     (let s = t_state t
      in if e_observations s < t_warmup t then MaxFloat64 else f_mul (e_p95 s) (t_multiplier t))"

text \<open>A sequence of observations.\<close>
definition Record_all :: "duration list \<Rightarrow> EMATracker \<Rightarrow> EMATracker" where
  "Record_all ls t = fold (\<lambda>l t. fst (Record l t)) ls t"

section \<open>Concurrent updates\<close>

text \<open>Where a goroutine that records \<open>latency\<close> is; \<open>R_CAS\<close> holds the address it loaded.\<close>
datatype rec_pc =
    R_Load duration
  | R_CAS duration nat
  | R_Emit duration float64
  | R_Done duration

record ema_sys =
  es_heap :: "emaState list"
  es_cur :: nat
  es_pcs :: "rec_pc list"
  es_trace :: "MetricsCall list"
  es_log :: "duration list"

datatype rec_label = RSpawn duration | RRun nat

text \<open>\<open>es_log\<close> is history only: the latencies in the order their compare-and-swap succeeded.\<close>
fun rec_step :: "EMATracker \<Rightarrow> nat \<Rightarrow> rec_pc \<Rightarrow> ema_sys \<Rightarrow> ema_sys" where
  "rec_step t i (R_Load l) s = s\<lparr>es_pcs := (es_pcs s)[i := R_CAS l (es_cur s)]\<rparr>"
| "rec_step t i (R_CAS l old) s =
     (let next = ema_next (t_alpha t) l (es_heap s ! old);
          s = s\<lparr>es_heap := es_heap s @ [next]\<rparr>
      in if es_cur s = old
         then s\<lparr>es_cur := length (es_heap s) - 1, es_pcs := (es_pcs s)[i := R_Emit l (e_p95 next)],
                es_log := es_log s @ [l]\<rparr>
         else s\<lparr>es_pcs := (es_pcs s)[i := R_Load l]\<rparr>)"
| "rec_step t i (R_Emit l v) s =
     s\<lparr>es_pcs := (es_pcs s)[i := R_Done l], es_trace := es_trace s @ [SetP95Latency (t_carrierID t) v]\<rparr>"
| "rec_step t i (R_Done l) s = s"

fun rec_apply :: "EMATracker \<Rightarrow> rec_label \<Rightarrow> ema_sys \<Rightarrow> ema_sys" where
  "rec_apply t (RSpawn l) s = s\<lparr>es_pcs := es_pcs s @ [R_Load l]\<rparr>"
| "rec_apply t (RRun i) s = (if i < length (es_pcs s) then rec_step t i (es_pcs s ! i) s else s)"

definition rec_init :: "EMATracker \<Rightarrow> ema_sys" where
  "rec_init t = \<lparr>es_heap = [t_state t], es_cur = 0, es_pcs = [], es_trace = [], es_log = []\<rparr>"

definition rec_run :: "EMATracker \<Rightarrow> rec_label list \<Rightarrow> ema_sys" where
  "rec_run t ls = fold (rec_apply t) ls (rec_init t)"

inductive rec_reach :: "EMATracker \<Rightarrow> ema_sys \<Rightarrow> bool" for t where
  rec_start: "rec_reach t (rec_init t)"
| rec_more: "rec_reach t s \<Longrightarrow> rec_reach t (rec_apply t l s)"

text \<open>Goroutines whose update has taken effect, and the latencies they recorded.\<close>
fun rec_effective :: "rec_pc \<Rightarrow> duration option" where
  "rec_effective (R_Emit l v) = Some l"
| "rec_effective (R_Done l) = Some l"
| "rec_effective _ = None"

definition rec_done_lats :: "rec_pc list \<Rightarrow> duration list" where
  "rec_done_lats ps = List.map_filter rec_effective ps"

section \<open>Hedge decisions\<close>

record pendingCarrier =
  p_startTime :: instant
  p_hedgeThreshold :: float64

text \<open>
  The closures \<^verbatim>\<open>tryAcquire\<close>, \<^verbatim>\<open>cbState\<close> and \<^verbatim>\<open>exec\<close> of a hedge carrier read the
  limiter, the breaker and the adapter of the carrier; the machine looks these up by ID.
\<close>
record hedgeCarrier =
  h_carrier :: Carrier
  h_p95Ms :: float64

definition better :: "hedgeCarrier \<Rightarrow> hedgeCarrier \<Rightarrow> bool" where
  "better c best \<longleftrightarrow>
     (if f_less (h_p95Ms c) (h_p95Ms best) then True
      else f_eq (h_p95Ms c) (h_p95Ms best)
        \<and> cc_Priority (c_Config (h_carrier c)) < cc_Priority (c_Config (h_carrier best)))"

text \<open>Each carrier comes with the breaker state its \<^verbatim>\<open>cbState()\<close> call returned.\<close>
fun select_loop :: "string \<Rightarrow> (hedgeCarrier \<times> CBState) list \<Rightarrow> hedgeCarrier option \<Rightarrow> hedgeCarrier option" where
  "select_loop exclude [] best = best"
| "select_loop exclude ((c, st) # cs) best =
     select_loop exclude cs
       (if c_ID (h_carrier c) = exclude then best
        else if st = CBStateOpen then best
        else case best of None \<Rightarrow> Some c | Some b \<Rightarrow> if better c b then Some c else Some b)"

definition selectHedgeCandidate :: "string \<Rightarrow> (hedgeCarrier \<times> CBState) list \<Rightarrow> hedgeCarrier option" where
  "selectHedgeCandidate exclude eligible = select_loop exclude eligible None"

definition elapsedMs :: "instant \<Rightarrow> pendingCarrier \<Rightarrow> float64" where
  "elapsedMs now p = float_ms (time_Sub now (p_startTime p))"

text \<open>The call has been running for at least its threshold.\<close>
definition due :: "instant \<Rightarrow> pendingCarrier \<Rightarrow> bool" where
  "due now p \<longleftrightarrow> \<not> f_less (elapsedMs now p) (p_hedgeThreshold p)"

section \<open>Candidate selection\<close>

abbreviation no_nan :: "hedgeCarrier \<Rightarrow> bool" where
  "no_nan c \<equiv> h_p95Ms c \<noteq> NaN"

definition candidate :: "string \<Rightarrow> hedgeCarrier \<times> CBState \<Rightarrow> bool" where
  "candidate exclude x \<longleftrightarrow> c_ID (h_carrier (fst x)) \<noteq> exclude \<and> snd x \<noteq> CBStateOpen"

lemma better_irrefl [simp]: "\<not> better c c"
  by (simp add: better_def)

lemma better_trans: "better a b \<Longrightarrow> better b c \<Longrightarrow> better a c"
  by (cases "h_p95Ms a"; cases "h_p95Ms b"; cases "h_p95Ms c")
     (auto simp: better_def split: if_splits)

lemma better_neg_trans:
  "no_nan a \<Longrightarrow> no_nan b \<Longrightarrow> no_nan c \<Longrightarrow> better a b \<Longrightarrow> \<not> better c b \<Longrightarrow> better a c"
  by (cases "h_p95Ms a"; cases "h_p95Ms b"; cases "h_p95Ms c")
     (auto simp: better_def split: if_splits)

text \<open>
  \<open>best_of xs i c\<close>: \<open>c\<close> stands at position \<open>i\<close>, is a candidate, beats every earlier
  candidate and is beaten by none.
\<close>
definition best_of :: "string \<Rightarrow> (hedgeCarrier \<times> CBState) list \<Rightarrow> nat \<Rightarrow> hedgeCarrier \<Rightarrow> bool" where
  "best_of exclude xs i c \<longleftrightarrow> i < length xs \<and> fst (xs ! i) = c \<and> candidate exclude (xs ! i)
     \<and> (\<forall>j < length xs. candidate exclude (xs ! j) \<longrightarrow> \<not> better (fst (xs ! j)) c)
     \<and> (\<forall>j < i. candidate exclude (xs ! j) \<longrightarrow> better c (fst (xs ! j)))"

definition select_ok :: "string \<Rightarrow> (hedgeCarrier \<times> CBState) list \<Rightarrow> hedgeCarrier option \<Rightarrow> bool" where
  "select_ok exclude xs best \<longleftrightarrow>
     (case best of
        None \<Rightarrow> (\<forall>x \<in> set xs. \<not> candidate exclude x)
      | Some c \<Rightarrow> (\<exists>i. best_of exclude xs i c))"

lemma select_ok_skip:
  assumes "select_ok exclude xs best" "\<not> candidate exclude x"
  shows "select_ok exclude (xs @ [x]) best"
  using assms
  by (auto simp: select_ok_def best_of_def nth_append split: option.splits)

lemma select_ok_first:
  assumes "select_ok exclude xs None" "candidate exclude x"
  shows "select_ok exclude (xs @ [x]) (Some (fst x))"
proof -
  have "\<not> candidate exclude (xs ! j)" if "j < length xs" for j
    using assms(1) that by (simp add: select_ok_def)
  then have "best_of exclude (xs @ [x]) (length xs) (fst x)"
    using assms(2) by (auto simp: best_of_def nth_append less_Suc_eq)
  then show ?thesis by (auto simp: select_ok_def)
qed

lemma select_ok_compare:
  assumes ok: "select_ok exclude xs (Some b)" and cand: "candidate exclude x"
    and nan: "no_nan (fst x)" "\<forall>y \<in> set xs. no_nan (fst y)"
  shows "select_ok exclude (xs @ [x]) (Some (if better (fst x) b then fst x else b))"
proof -
  obtain i where i: "best_of exclude xs i b" using ok by (auto simp: select_ok_def)
  have nb: "no_nan b" using i nan(2) by (auto simp: best_of_def)
  show ?thesis
  proof (cases "better (fst x) b")
    case True
    have "best_of exclude (xs @ [x]) (length xs) (fst x)"
      unfolding best_of_def
    proof (intro conjI allI impI)
      fix j assume j: "j < length (xs @ [x])" "candidate exclude ((xs @ [x]) ! j)"
      show "\<not> better (fst ((xs @ [x]) ! j)) (fst x)"
        using i j True better_trans [of "fst ((xs @ [x]) ! j)" "fst x" b]
        by (auto simp: best_of_def nth_append less_Suc_eq)
    next
      fix j assume j: "j < length xs" "candidate exclude ((xs @ [x]) ! j)"
      then have "\<not> better (fst (xs ! j)) b" "no_nan (fst (xs ! j))"
        using i nan by (auto simp: best_of_def nth_append)
      then show "better (fst x) (fst ((xs @ [x]) ! j))"
        using better_neg_trans [OF nan(1) nb _ True] j by (simp add: nth_append)
    qed (use cand in \<open>auto simp: nth_append\<close>)
    with True show ?thesis by (auto simp: select_ok_def)
  next
    case False
    then have "best_of exclude (xs @ [x]) i b"
      using i by (auto simp: best_of_def nth_append less_Suc_eq)
    with False show ?thesis by (auto simp: select_ok_def)
  qed
qed

lemma select_loop_ok:
  assumes "select_ok exclude xs best" "\<forall>y \<in> set (xs @ ys). no_nan (fst y)"
  shows "select_ok exclude (xs @ ys) (select_loop exclude ys best)"
  using assms
proof (induction ys arbitrary: xs best)
  case (Cons y ys)
  obtain c st where y: "y = (c, st)" by (cases y)
  let ?best = "if c_ID (h_carrier c) = exclude then best
        else if st = CBStateOpen then best
        else case best of None \<Rightarrow> Some c | Some b \<Rightarrow> if better c b then Some c else Some b"
  have "select_ok exclude (xs @ [y]) ?best"
  proof (cases "candidate exclude y")
    case True
    show ?thesis
    proof (cases best)
      case None
      with True y Cons.prems select_ok_first [of exclude xs y] show ?thesis
        by (auto simp: candidate_def)
    next
      case (Some b)
      have "select_ok exclude (xs @ [y]) (Some (if better (fst y) b then fst y else b))"
        using True Cons.prems Some by (intro select_ok_compare) auto
      with True y Some show ?thesis by (auto simp: candidate_def split: if_splits)
    qed
  next
    case False
    with y select_ok_skip [OF Cons.prems(1) False] show ?thesis by (auto simp: candidate_def)
  qed
  from Cons.IH [OF this] Cons.prems(2) y show ?case by simp
qed simp

lemma select_loop_in:
  "select_loop exclude xs best = Some c \<Longrightarrow> best = Some c \<or> (\<exists>x \<in> set xs. fst x = c \<and> candidate exclude x)"
proof (induction exclude xs best rule: select_loop.induct)
  case (2 exclude d st cs best)
  from "2.IH" [OF "2.prems" [simplified]] show ?case
    by (auto simp: candidate_def split: if_splits option.splits)
qed simp

section \<open>Tracker bounds\<close>

lemma wrap64_succ: "0 \<le> n \<Longrightarrow> n < int64_max \<Longrightarrow> wrap64 (n + 1) = n + 1"
  by (intro wrap64_id) (simp add: in_int64_def int64_min_def)

lemma Record_all_simps [simp]:
  "Record_all [] t = t"
  "Record_all (l # ls) t = Record_all ls (fst (Record l t))"
  by (simp_all add: Record_all_def)

lemma Record_fields [simp]:
  "t_alpha (fst (Record l t)) = t_alpha t" "t_multiplier (fst (Record l t)) = t_multiplier t"
  "t_warmup (fst (Record l t)) = t_warmup t" "t_carrierID (fst (Record l t)) = t_carrierID t"
  "t_state (fst (Record l t)) = ema_next (t_alpha t) l (t_state t)"
  by (simp_all add: Record_def Let_def)

lemma Record_all_fields [simp]:
  "t_alpha (Record_all ls t) = t_alpha t" "t_multiplier (Record_all ls t) = t_multiplier t"
  "t_warmup (Record_all ls t) = t_warmup t"
  by (induction ls arbitrary: t) simp_all

lemma Record_all_state:
  "t_state (Record_all ls t) = fold (ema_next (t_alpha t)) ls (t_state t)"
  by (induction ls arbitrary: t) simp_all

lemma Record_all_observations:
  assumes "e_observations (t_state t) = int k" "k + length ls \<le> 2 ^ 62"
  shows "e_observations (t_state (Record_all ls t)) = int (k + length ls)"
  using assms
proof (induction ls arbitrary: t k)
  case (Cons l ls)
  have "e_observations (t_state (fst (Record l t))) = int (Suc k)"
    using Cons.prems by (simp add: ema_next_def wrap64_succ int64_max_def)
  from Cons.IH [OF this] Cons.prems(2) show ?case by simp
qed simp

text \<open>The smoothing factor in use is below one: the constructor replaces any other.\<close>

lemma NewEMATracker_alpha:
  assumes "t_alpha (NewEMATracker carrierID seed cfg) = Fin a"
  shows "a < 1"
proof -
  have "fval (to_float64 (1 / 10)) < 1" by code_simp
  with assms show ?thesis
    by (auto simp: NewEMATracker_def Let_def f_le_def not_le not_less split: if_splits)
qed


lemma fl_upper: "0 \<le> x \<Longrightarrow> fl x \<le> x + x / 2 ^ 53 + 1 / 1000"
proof -
  assume "0 \<le> x"
  from binary64.rnd_upper [OF this] have "fl x \<le> x + x / 2 ^ 53 + 1 / 2 ^ 1075" by simp
  moreover have "(1 :: rat) / 2 ^ 1075 \<le> 1 / 1000" by simp
  ultimately show ?thesis by linarith
qed

lemma small_max: "x \<le> 2 ^ 70 \<Longrightarrow> x \<le> max_finite"
proof -
  have "(2 ^ 70 :: rat) \<le> max_finite" by (simp add: max_finite_def)
  then show "x \<le> 2 ^ 70 \<Longrightarrow> x \<le> max_finite" by linarith
qed

text \<open>A non-negative value below \<open>2 ^ 69\<close> rounds to a finite float close to it.\<close>

lemma to_float64_small:
  assumes "0 \<le> x" "x \<le> 2 ^ 69"
  shows "to_float64 x = Fin (fl x)" "0 \<le> fl x" "fl x \<le> x + x / 2 ^ 53 + 1 / 1000"
proof -
  show "0 \<le> fl x" using assms by (intro fl_nonneg)
  show u: "fl x \<le> x + x / 2 ^ 53 + 1 / 1000" using assms by (intro fl_upper)
  have "x / 2 ^ 53 \<le> 2 ^ 16" using assms(2) by simp
  then have "fl x \<le> 2 ^ 70" using u assms(2) by simp
  then show "to_float64 x = Fin (fl x)" using assms by (intro to_float64_Fin small_max)
qed

lemma int64_rat: "l \<le> int64_max \<Longrightarrow> (of_int l :: rat) \<le> 2 ^ 63"
proof -
  assume "l \<le> int64_max"
  then have "l \<le> 2 ^ 63" by (simp add: int64_max_def)
  then have "(of_int l :: rat) \<le> of_int (2 ^ 63)" by (simp only: of_int_le_iff)
  then show ?thesis by simp
qed

lemma float_ms_bounds:
  assumes "0 \<le> l" "l \<le> D" "D \<le> int64_max"
  shows "\<exists>x. float_ms l = Fin x \<and> 0 \<le> x \<and> x \<le> of_int D / 1000000 + 1"
proof -
  have l: "(0 :: rat) \<le> of_int l" "(of_int l :: rat) \<le> of_int D" "(of_int D :: rat) \<le> 2 ^ 63"
    using assms int64_rat by auto
  note r = to_float64_small [of "of_int l"]
  have "float_of_int l = Fin (fl (of_int l))" using r l by (simp add: float_of_int_def)
  moreover have "float_of_int Millisecond = Fin 1000000" by code_simp
  ultimately have ms: "float_ms l = to_float64 (fl (of_int l) / 1000000)"
    by (simp add: float_ms_def)
  have v: "0 \<le> fl (of_int l) / 1000000" "fl (of_int l) / 1000000 \<le> 2 ^ 69"
    "fl (of_int l) \<le> of_int D + 1025"
    using r l by (auto simp: field_simps)
  note q = to_float64_small [OF v(1,2)]
  have "fl (fl (of_int l) / 1000000) \<le> of_int D / 1000000 + 1"
    using q(3) v l by (simp add: field_simps)
  with q ms show ?thesis by auto
qed

lemma seed_bounds:
  assumes "0 \<le> seed" "seed \<le> D" "D \<le> int64_max"
  shows "\<exists>x. e_p95 (t_state (NewEMATracker carrierID seed cfg)) = Fin x
    \<and> 0 \<le> x \<and> x \<le> 2 * (of_int D / 1000000 + 1)"
proof -
  define n where "n = Milliseconds seed"
  have n: "n = seed div 1000000"
    using assms by (simp add: n_def Milliseconds_def signed_divide_int_def sgn_if)
  then have n0: "0 \<le> n" using assms by simp
  have "n * 1000000 \<le> D" using n assms by simp
  then have nD: "(of_int n :: rat) * 1000000 \<le> of_int D"
    by (metis of_int_le_iff of_int_mult of_int_numeral)
  have l: "(0 :: rat) \<le> of_int n" "(of_int n :: rat) \<le> 2 ^ 63"
    using n0 nD int64_rat [OF assms(3)] by auto
  note r = to_float64_small [of "of_int n"]
  have "float_of_int n = Fin (fl (of_int n))" using r l by (simp add: float_of_int_def)
  then have e: "e_p95 (t_state (NewEMATracker carrierID seed cfg)) = to_float64 (fl (of_int n) * 2)"
    by (simp add: NewEMATracker_def Let_def flip: n_def)
  have small: "(of_int n :: rat) \<le> 2 ^ 44" using nD int64_rat [OF assms(3)] by simp
  have f: "fl (of_int n) \<le> of_int n + 1 / 100" using r l small by (simp add: field_simps)
  have v: "0 \<le> fl (of_int n) * 2" "fl (of_int n) * 2 \<le> 2 ^ 69"
    using r l f small by auto
  note q = to_float64_small [OF v]
  have "fl (fl (of_int n) * 2) \<le> 2 * (of_int D / 1000000 + 1)"
    using q(3) f small nD by (simp add: field_simps)
  with q e show ?thesis by auto
qed

lemma ema_next_bounds:
  assumes a: "1 / 2 ^ 48 \<le> a" "a < 1" and D: "0 \<le> l" "l \<le> D" "D \<le> int64_max"
    and old: "e_p95 s = Fin p" "0 \<le> p" "p \<le> 2 * (of_int D / 1000000 + 1)"
  shows "\<exists>p'. e_p95 (ema_next (Fin a) l s) = Fin p' \<and> 0 \<le> p' \<and> p' \<le> 2 * (of_int D / 1000000 + 1)"
proof -
  define M where "M = (of_int D / 1000000 + 1 :: rat)"
  have D0: "(0 :: rat) \<le> of_int D" "(of_int D :: rat) \<le> 2 ^ 63" using D int64_rat by auto
  then have M: "1 \<le> M" "M \<le> 2 ^ 45" by (simp_all add: M_def field_simps)
  obtain x where x: "float_ms l = Fin x" "0 \<le> x" "x \<le> M"
    using float_ms_bounds [OF D] by (auto simp: M_def)
  have a0: "0 \<le> a" using a by (metis divide_nonneg_nonneg order.trans zero_le_numeral zero_le_one zero_le_power)
  have p: "0 \<le> p" "p \<le> 2 * M" using old by (auto simp: M_def)
  have w: "0 \<le> 1 - a" "1 - a \<le> 2 ^ 69" using a a0 by auto
  note rw = to_float64_small [OF w]
  have w2: "fl (1 - a) \<le> 2" using rw(3) a0 by (simp add: field_simps)
  have "a * x \<le> 1 * M" using a a0 x by (intro mult_mono) auto
  then have ax: "0 \<le> a * x" "a * x \<le> 2 ^ 69" "a * x \<le> M" using a0 x M by auto
  note rax = to_float64_small [OF ax(1,2)]
  have "fl (1 - a) * p \<le> 2 * (2 * M)" using w2 rw(2) p by (intro mult_mono) auto
  then have wp: "0 \<le> fl (1 - a) * p" "fl (1 - a) * p \<le> 2 ^ 69" "fl (1 - a) * p \<le> 4 * M"
    using rw(2) p M by auto
  note rwp = to_float64_small [OF wp(1,2)]
  have sum: "0 \<le> fl (a * x) + fl (fl (1 - a) * p)" "fl (a * x) + fl (fl (1 - a) * p) \<le> 2 ^ 69"
    using rax rwp ax wp M by (auto simp: field_simps)
  have "e_p95 (ema_next (Fin a) l s) = to_float64 (fl (a * x) + fl (fl (1 - a) * p))"
    using rw rax rwp x old by (simp add: ema_next_def f_sub_def)
  also have "\<dots> = Fin (fl (fl (a * x) + fl (fl (1 - a) * p)))"
    by (rule to_float64_small [OF sum])
  finally have "e_p95 (ema_next (Fin a) l s) = Fin (fl (fl (a * x) + fl (fl (1 - a) * p)))" .
  moreover have "fl (fl (a * x) + fl (fl (1 - a) * p)) \<le> 2 * M"
    using a x p M by (intro binary64.mean_upper) auto
  moreover have "0 \<le> fl (fl (a * x) + fl (fl (1 - a) * p))"
    using a a0 x p by (intro binary64.mean_nonneg) auto
  ultimately show ?thesis by (auto simp: M_def)
qed


lemma Record_all_bounds:
  assumes "t_alpha t = Fin a" "1 / 2 ^ 48 \<le> a" "a < 1" "D \<le> int64_max"
    and "\<forall>l \<in> set ls. 0 \<le> l \<and> l \<le> D"
    and "e_p95 (t_state t) = Fin p" "0 \<le> p" "p \<le> 2 * (of_int D / 1000000 + 1)"
  shows "\<exists>p'. P95 (Record_all ls t) = Fin p' \<and> 0 \<le> p' \<and> p' \<le> 2 * (of_int D / 1000000 + 1)"
  using assms
proof (induction ls arbitrary: t p)
  case Nil
  then show ?case by (simp add: P95_def)
next
  case (Cons l ls)
  obtain p' where p': "e_p95 (t_state (fst (Record l t))) = Fin p'" "0 \<le> p'"
    "p' \<le> 2 * (of_int D / 1000000 + 1)"
    using ema_next_bounds [of a l D "t_state t" p] Cons.prems by auto
  from Cons.IH [OF _ _ _ _ _ p'] Cons.prems show ?case by simp
qed

lemma round_even_nonpos: "x \<le> 0 \<Longrightarrow> round_even x \<le> 0"
proof -
  assume "x \<le> 0"
  then have f: "\<lfloor>x\<rfloor> \<le> 0" by (simp add: floor_le_iff)
  show ?thesis
  proof (cases "\<lfloor>x\<rfloor> = 0")
    case True
    then have "x = 0" using \<open>x \<le> 0\<close> of_int_floor_le [of x] by simp
    then show ?thesis by (simp add: round_even_def)
  next
    case False
    with f show ?thesis by (auto simp: round_even_def Let_def)
  qed
qed

lemma fl_nonpos: "x \<le> 0 \<Longrightarrow> fl x \<le> 0"
  by (simp add: fl_def mult_nonpos_nonneg divide_nonpos_nonneg round_even_nonpos)

lemma to_float64_nonpos:
  assumes "x \<le> 0"
  shows "to_float64 x = NInf \<or> (\<exists>v. to_float64 x = Fin v \<and> v \<le> 0)"
proof -
  have "0 \<le> max_finite" by (simp add: max_finite_def)
  with fl_nonpos [OF assms] show ?thesis by (auto simp: to_float64_def Let_def)
qed

lemma float_ms_below_max: "in_int64 d \<Longrightarrow> f_less (float_ms d) MaxFloat64"
proof (cases "0 \<le> d")
  case True
  moreover assume "in_int64 d"
  ultimately obtain x where x: "float_ms d = Fin x" "x \<le> of_int int64_max / 1000000 + 1"
    using float_ms_bounds [of d int64_max] by (auto simp: in_int64_def)
  have "(of_int int64_max / 1000000 + 1 :: rat) < max_finite"
    by (simp add: int64_max_def max_finite_def)
  with x show ?thesis by (simp add: MaxFloat64_def)
next
  case False
  have neg: "f_less (to_float64 v) MaxFloat64" if "v \<le> 0" for v
    using to_float64_nonpos [OF that] by (auto simp: MaxFloat64_def max_finite_def)
  have "float_of_int Millisecond = Fin 1000000" by code_simp
  moreover have "float_of_int d = NInf \<or> (\<exists>v. float_of_int d = Fin v \<and> v \<le> 0)"
    using to_float64_nonpos [of "of_int d"] False by (simp add: float_of_int_def)
  ultimately show ?thesis
    using neg by (auto simp: float_ms_def MaxFloat64_def divide_nonpos_nonneg)
qed

section \<open>Concurrent updates are linearised\<close>

definition opt_mset :: "'a option \<Rightarrow> 'a multiset" where
  "opt_mset x = (case x of None \<Rightarrow> {#} | Some y \<Rightarrow> {#y#})"

lemma rec_done_lats_simps [simp]:
  "rec_done_lats [] = []"
  "mset (rec_done_lats (p # ps)) = opt_mset (rec_effective p) + mset (rec_done_lats ps)"
  by (simp_all add: rec_done_lats_def opt_mset_def split: option.splits)

lemma rec_done_lats_append:
  "mset (rec_done_lats (ps @ qs)) = mset (rec_done_lats ps) + mset (rec_done_lats qs)"
  by (induction ps) auto

lemma rec_done_lats_update:
  "i < length ps \<Longrightarrow> mset (rec_done_lats (ps[i := p])) + opt_mset (rec_effective (ps ! i))
    = mset (rec_done_lats ps) + opt_mset (rec_effective p)"
proof (induction ps arbitrary: i)
  case (Cons q ps)
  show ?case
  proof (cases i)
    case (Suc j)
    then have "mset (rec_done_lats (ps[j := p])) + opt_mset (rec_effective (ps ! j))
        = mset (rec_done_lats ps) + opt_mset (rec_effective p)"
      using Cons by simp
    then show ?thesis by (simp add: Suc add.assoc)
  qed (simp add: ac_simps)
qed simp

definition rec_inv :: "EMATracker \<Rightarrow> ema_sys \<Rightarrow> bool" where
  "rec_inv t s \<longleftrightarrow> es_cur s < length (es_heap s)
     \<and> es_heap s ! es_cur s = fold (ema_next (t_alpha t)) (es_log s) (t_state t)
     \<and> (\<forall>l old. R_CAS l old \<in> set (es_pcs s) \<longrightarrow> old < length (es_heap s))
     \<and> mset (es_log s) = mset (rec_done_lats (es_pcs s))"

lemma rec_inv_init: "rec_inv t (rec_init t)"
  by (simp add: rec_inv_def rec_init_def)

lemma rec_step_inv:
  assumes inv: "rec_inv t s" and i: "i < length (es_pcs s)"
  shows "rec_inv t (rec_step t i (es_pcs s ! i) s)"
proof -
  note upd = rec_done_lats_update [OF i]
  have sub: "set ((es_pcs s)[i := p]) \<subseteq> insert p (set (es_pcs s))" for p
    by (rule set_update_subset_insert)
  show ?thesis
  proof (cases "es_pcs s ! i")
    case (R_Load l)
    with inv upd [of "R_CAS l (es_cur s)"] sub [of "R_CAS l (es_cur s)"] show ?thesis
      by (auto simp: rec_inv_def opt_mset_def)
  next
    case (R_CAS l old)
    then have old: "old < length (es_heap s)" using inv i nth_mem by (fastforce simp: rec_inv_def)
    show ?thesis
    proof (cases "es_cur s = old")
      case True
      let ?p = "R_Emit l (e_p95 (ema_next (t_alpha t) l (es_heap s ! old)))"
      show ?thesis
        using True R_CAS inv upd [of ?p] sub [of ?p]
        by (auto simp: rec_inv_def opt_mset_def Let_def less_Suc_eq)
    next
      case False
      with R_CAS inv upd [of "R_Load l"] sub [of "R_Load l"] show ?thesis
        by (auto simp: rec_inv_def opt_mset_def Let_def nth_append less_Suc_eq)
    qed
  next
    case (R_Emit l v)
    with inv upd [of "R_Done l"] sub [of "R_Done l"] show ?thesis
      by (auto simp: rec_inv_def opt_mset_def)
  next
    case (R_Done l)
    with inv show ?thesis by simp
  qed
qed

lemma rec_inv_apply: "rec_inv t s \<Longrightarrow> rec_inv t (rec_apply t l s)"
proof (cases l)
  case (RSpawn d)
  assume "rec_inv t s"
  with RSpawn show ?thesis by (auto simp: rec_inv_def rec_done_lats_append opt_mset_def)
qed (auto intro: rec_step_inv)

lemma rec_reach_inv: "rec_reach t s \<Longrightarrow> rec_inv t s"
  by (induction rule: rec_reach.induct) (auto intro: rec_inv_init rec_inv_apply)

lemma rec_run_reach: "rec_reach t (rec_run t ls)"
proof -
  have "rec_reach t s \<Longrightarrow> rec_reach t (fold (rec_apply t) ls s)" for s
    by (induction ls arbitrary: s) (auto intro: rec_reach.rec_more)
  then show ?thesis by (simp add: rec_run_def rec_reach.rec_start)
qed


section \<open>Properties\<close>

text \<open>
  C17: no update is lost. Under every interleaving of goroutines recording latencies, the
  published tracker state is the one that recording exactly the completed updates one after
  the other gives, in the order their compare-and-swap succeeded.
\<close>
theorem Record_linearizable:
  assumes "rec_reach t s"
  shows "es_heap s ! es_cur s = t_state (Record_all (es_log s) t)
    \<and> mset (es_log s) = mset (rec_done_lats (es_pcs s))"
  using rec_reach_inv [OF assms] by (simp add: rec_inv_def Record_all_state)

definition demo_config :: CarrierConfig where
  "demo_config = \<lparr>cc_TimeoutHint = 100 * Millisecond, cc_OpenTimeout = 30 * Second,
     cc_FailureThreshold = 5, cc_SuccessThreshold = 2, cc_HedgeMultiplier = Fin (3 / 2),
     cc_EMAAlpha = to_float64 (1 / 10), cc_EMAWindowSize = 19, cc_EMAWarmupObservations = 10,
     cc_RateLimit = \<lparr>rl_TokensPerSecond = Fin 100, rl_Burst = 10\<rparr>, cc_Priority = 1\<rparr>"

text \<open>Two goroutines whose loads overlap: the second compare-and-swap fails and retries.\<close>

theorem Record_linearizable_witness:
  "es_log (rec_run (NewEMATracker ''alpha'' (100 * Millisecond) demo_config)
      [RSpawn 7, RSpawn 9, RRun 0, RRun 1, RRun 1, RRun 0, RRun 0, RRun 0]) = [9, 7]
   \<and> mset [9, 7] = mset (rec_done_lats (es_pcs (rec_run
        (NewEMATracker ''alpha'' (100 * Millisecond) demo_config)
        [RSpawn 7, RSpawn 9, RRun 0, RRun 1, RRun 1, RRun 0, RRun 0, RRun 0])))"
proof -
  let ?t = "NewEMATracker ''alpha'' (100 * Millisecond) demo_config"
  let ?ls = "[RSpawn 7, RSpawn 9, RRun 0, RRun 1, RRun 1, RRun 0, RRun 0, RRun 0]"
  have "es_log (rec_run ?t ?ls) = [9, 7]"
    by (simp add: rec_run_def rec_init_def Let_def)
  with Record_linearizable [OF rec_run_reach [of ?t ?ls]] show ?thesis by simp
qed

text \<open>
  C28: in binary64 arithmetic, if the smoothing factor is at least \<open>2 ^ -48\<close> and \<open>D\<close> bounds the
  seed and every recorded latency (all of them non-negative), the tracked latency stays finite,
  non-negative and at most twice \<open>D\<close> in milliseconds plus two, however many observations are
  recorded.
\<close>
theorem p95_bounded:
  assumes "t_alpha (NewEMATracker carrierID seed cfg) = Fin a" "1 / 2 ^ 48 \<le> a"
    and "0 \<le> seed" "seed \<le> D" "D \<le> int64_max"
    and "\<forall>l \<in> set ls. 0 \<le> l \<and> l \<le> D"
  shows "\<exists>p. P95 (Record_all ls (NewEMATracker carrierID seed cfg)) = Fin p
    \<and> 0 \<le> p \<and> p \<le> 2 * (of_int D / 1000000 + 1)"
  using seed_bounds [of seed D carrierID cfg] NewEMATracker_alpha [OF assms(1)]
    Record_all_bounds [OF assms(1,2) _ assms(5,6)] assms(3-5)
  by blast

theorem p95_bounded_witness:
  "\<exists>p. P95 (Record_all [200 * Millisecond, 40 * Millisecond]
      (NewEMATracker ''alpha'' (100 * Millisecond) demo_config)) = Fin p \<and> 0 \<le> p \<and> p \<le> 402"
proof -
  have "is_fin (t_alpha (NewEMATracker ''alpha'' (100 * Millisecond) demo_config))
      \<and> 1 / 2 ^ 48 \<le> fval (t_alpha (NewEMATracker ''alpha'' (100 * Millisecond) demo_config))"
    by code_simp
  then obtain a where "t_alpha (NewEMATracker ''alpha'' (100 * Millisecond) demo_config) = Fin a"
    "1 / 2 ^ 48 \<le> a"
    by (cases "t_alpha (NewEMATracker ''alpha'' (100 * Millisecond) demo_config)") auto
  from p95_bounded [OF this, of "200 * Millisecond" "[200 * Millisecond, 40 * Millisecond]"]
  show ?thesis by (simp add: Millisecond_def int64_max_def)
qed

text \<open>
  While fewer observations than the warm-up count have been recorded, the threshold is the
  largest float, which no elapsed time reaches.
\<close>
lemma warmup_threshold:
  assumes "int (length ls) < cc_EMAWarmupObservations cfg" "length ls \<le> 2 ^ 62"
  shows "HedgeThreshold (Record_all ls (NewEMATracker carrierID seed cfg)) = MaxFloat64"
proof -
  let ?t = "NewEMATracker carrierID seed cfg"
  have "e_observations (t_state ?t) = int 0" "t_warmup ?t = cc_EMAWarmupObservations cfg"
    by (simp_all add: NewEMATracker_def Let_def)
  with Record_all_observations [of ?t 0 ls] assms show ?thesis by (simp add: HedgeThreshold_def Let_def)
qed

lemma warmup_not_due: "p_hedgeThreshold p = MaxFloat64 \<Longrightarrow> \<not> due now p"
  by (simp add: due_def elapsedMs_def float_ms_below_max time_Sub_def)

text \<open>
  C29: the hedge candidate is the right one. When no latency estimate is NaN, the selected
  carrier is not the slow one, was not seen with an open breaker, no other such carrier has a
  smaller latency estimate or the same estimate and a smaller priority number, and it is the
  first of its equals; there is no candidate only if every carrier is excluded.
\<close>
theorem selectHedgeCandidate_best:
  assumes "\<forall>x \<in> set eligible. h_p95Ms (fst x) \<noteq> NaN"
  shows "case selectHedgeCandidate exclude eligible of
      None \<Rightarrow> \<forall>x \<in> set eligible. \<not> candidate exclude x
    | Some c \<Rightarrow> \<exists>i. best_of exclude eligible i c"
proof -
  have "select_ok exclude [] None" by (simp add: select_ok_def)
  from select_loop_ok [OF this, of eligible] assms show ?thesis
    by (simp add: select_ok_def selectHedgeCandidate_def)
qed

definition demo_hedge :: "string \<Rightarrow> rat \<Rightarrow> int \<Rightarrow> hedgeCarrier" where
  "demo_hedge i ms prio = \<lparr>h_carrier = \<lparr>c_ID = i, c_Name = i, c_Capabilities = [''auto''],
     c_Config = demo_config\<lparr>cc_Priority := prio\<rparr>\<rparr>, h_p95Ms = Fin ms\<rparr>"

theorem selectHedgeCandidate_best_witness:
  "\<exists>i. best_of ''gamma''
     [(demo_hedge ''gamma'' 10 3, CBStateClosed), (demo_hedge ''beta'' 40 2, CBStateClosed),
      (demo_hedge ''alpha'' 40 1, CBStateHalfOpen)] i (demo_hedge ''alpha'' 40 1)"
proof -
  let ?es = "[(demo_hedge ''gamma'' 10 3, CBStateClosed), (demo_hedge ''beta'' 40 2, CBStateClosed),
      (demo_hedge ''alpha'' 40 1, CBStateHalfOpen)]"
  have "selectHedgeCandidate ''gamma'' ?es = Some (demo_hedge ''alpha'' 40 1)"
    by (simp add: selectHedgeCandidate_def better_def demo_hedge_def demo_config_def)
  with selectHedgeCandidate_best [of ?es "''gamma''"] show ?thesis by (simp add: demo_hedge_def)
qed

end
