(* ===== verification/Adapters.thy ===== *)
theory Adapters
  imports Domain
begin

text \<open>
  \<^verbatim>\<open>internal/adapter/adapter.go\<close> and \<^verbatim>\<open>internal/adapter/mock_carrier.go\<close>. What an
  adapter call depends on besides the request (its context, the clock, random draws, the
  network) is the environment \<open>'env\<close> of that call; an \<open>AdapterFunc\<close> is a function of
  environment and request.
\<close>

section \<open>The generic adapter and the registry\<close>

record ('env, 'req, 'resp) Adapter =
  ToCarrierRequest :: "'env \<Rightarrow> QuoteRequest \<Rightarrow> go_error + 'req"
  FromCarrierResponse :: "'env \<Rightarrow> 'resp \<Rightarrow> string \<Rightarrow> go_error + QuoteResult"

type_synonym 'env AdapterFunc = "'env \<Rightarrow> QuoteRequest \<Rightarrow> go_error + QuoteResult"

definition Register ::
  "('env, 'req, 'resp) Adapter \<Rightarrow> ('env \<Rightarrow> 'req \<Rightarrow> go_error + 'resp) \<Rightarrow> string \<Rightarrow> 'env AdapterFunc" where
  "Register a Call carrierID env req =
     (case ToCarrierRequest a env req of
        Inl err \<Rightarrow> Inl err
      | Inr nativeReq \<Rightarrow>
          (case Call env nativeReq of
             Inl err \<Rightarrow> Inl err
           | Inr nativeResp \<Rightarrow> FromCarrierResponse a env nativeResp carrierID))"

type_synonym 'env Registry = "string \<rightharpoonup> 'env AdapterFunc"

definition NewRegistry :: "'env Registry" where
  "NewRegistry = Map.empty"

definition Registry_Register :: "string \<Rightarrow> 'env AdapterFunc \<Rightarrow> 'env Registry \<Rightarrow> 'env Registry" where
  "Registry_Register carrierID fn r = r(carrierID \<mapsto> fn)"

definition Get :: "'env Registry \<Rightarrow> string \<Rightarrow> 'env AdapterFunc option" where
  "Get r carrierID = r carrierID"

section \<open>Mock carriers\<close>

record MockRequest =
  mq_RequestID :: string
  mq_CoverageLines :: "string list"

record MockResponse =
  mr_CarrierID :: string
  mr_PremiumCents :: int
  mr_ExpiresInSeconds :: int

record MockConfig =
  mc_BaseLatency :: duration
  mc_JitterMs :: int
  mc_FailureRate :: float64

record MockCarrier =
  mk_id :: string
  mk_cfg :: MockConfig

definition NewMockCarrier :: "string \<Rightarrow> MockConfig \<Rightarrow> MockCarrier" where
  "NewMockCarrier i cfg = \<lparr>mk_id = i, mk_cfg = cfg\<rparr>"

definition NewAlpha :: MockCarrier where
  "NewAlpha = NewMockCarrier ''alpha''
     \<lparr>mc_BaseLatency = 50 * Millisecond, mc_JitterMs = 10, mc_FailureRate = Fin 0\<rparr>"

definition NewBeta :: MockCarrier where
  "NewBeta = NewMockCarrier ''beta''
     \<lparr>mc_BaseLatency = 200 * Millisecond, mc_JitterMs = 20, mc_FailureRate = to_float64 (1 / 10)\<rparr>"

definition NewGamma :: MockCarrier where
  "NewGamma = NewMockCarrier ''gamma''
     \<lparr>mc_BaseLatency = 800 * Millisecond, mc_JitterMs = 50, mc_FailureRate = Fin 0\<rparr>"

text \<open>
  The environment of one mock call: the results of \<^verbatim>\<open>rand.Intn\<close> and
  \<^verbatim>\<open>rand.Float64\<close>, the context error if the context ended before the timer, and the
  clock when the response is converted.
\<close>
record mock_env =
  me_jitter :: int
  me_ctx :: "go_error option"
  me_fail :: float64
  me_premium :: int
  me_now :: instant

text \<open>What the random source guarantees: \<^verbatim>\<open>rand.Intn(n)\<close> is in \<open>[0, n)\<close>.\<close>
definition draws_ok :: "MockCarrier \<Rightarrow> mock_env \<Rightarrow> bool" where
  "draws_ok m env \<longleftrightarrow> 0 \<le> me_jitter env \<and> me_jitter env < mc_JitterMs (mk_cfg m) * 2 + 1
     \<and> 0 \<le> me_premium env \<and> me_premium env < 50000"

definition mock_latency :: "MockCarrier \<Rightarrow> mock_env \<Rightarrow> duration" where
  "mock_latency m env =
     (let jitterMs = (if mc_JitterMs (mk_cfg m) > 0 then me_jitter env - mc_JitterMs (mk_cfg m) else 0);
          latency = wrap64 (mc_BaseLatency (mk_cfg m) + wrap64 (jitterMs * Millisecond))
      in if latency < 0 then 0 else latency)"

definition MockCarrier_Call :: "MockCarrier \<Rightarrow> mock_env \<Rightarrow> MockRequest \<Rightarrow> go_error + MockResponse" where
  "MockCarrier_Call m env req =
     (case me_ctx env of
        Some err \<Rightarrow> Inl err
      | None \<Rightarrow>
          if f_less (Fin 0) (mc_FailureRate (mk_cfg m)) \<and> f_less (me_fail env) (mc_FailureRate (mk_cfg m))
          then Inl ErrCarrierUnavailable
          else Inr \<lparr>mr_CarrierID = mk_id m,
                    mr_PremiumCents = wrap64 (wrap64 (int (length (mk_id m)) * 10000) + me_premium env),
                    mr_ExpiresInSeconds = 300\<rparr>)"

definition mockAdapter :: "(mock_env, MockRequest, MockResponse) Adapter" where
  "mockAdapter =
     \<lparr>ToCarrierRequest = (\<lambda>env q. Inr \<lparr>mq_RequestID = q_RequestID q, mq_CoverageLines = q_CoverageLines q\<rparr>),
      FromCarrierResponse = (\<lambda>env r carrierID. Inr
        \<lparr>r_RequestID = '''', r_CarrierID = carrierID,
         r_Premium = \<lparr>m_Amount = mr_PremiumCents r, m_Currency = ''USD''\<rparr>,
         r_ExpiresAt = me_now env + wrap64 (mr_ExpiresInSeconds r * Second),
         r_CarrierRef = '''', r_Latency = 0, r_IsHedged = False\<rparr>)\<rparr>"

definition RegisterMockCarrier :: "MockCarrier \<Rightarrow> mock_env AdapterFunc" where
  "RegisterMockCarrier carrier = Register mockAdapter (MockCarrier_Call carrier) (mk_id carrier)"

section \<open>The registry's contract\<close>

text \<open>What the orchestrator relies on: a lookup returns the last function registered.\<close>

locale adapter_registry =
  fixes empty :: 'r and register :: "string \<Rightarrow> 'f \<Rightarrow> 'r \<Rightarrow> 'r" and lookup :: "'r \<Rightarrow> string \<Rightarrow> 'f option"
  assumes lookup_empty: "lookup empty i = None"
    and lookup_register: "lookup (register i f r) j = (if i = j then Some f else lookup r j)"
begin

lemma lookup_registered:
  "lookup (fold (\<lambda>(i, f). register i f) ifs r) j
    = (case map_of (rev ifs) j of Some f \<Rightarrow> Some f | None \<Rightarrow> lookup r j)"
proof (induction ifs arbitrary: r)
  case (Cons x ifs)
  then show ?case
    by (cases x) (auto simp: lookup_register map_add_def split: option.splits)
qed simp

lemma lookup_from_empty:
  "distinct (map fst ifs) \<Longrightarrow> lookup (fold (\<lambda>(i, f). register i f) ifs empty) j = map_of ifs j"
proof -
  assume "distinct (map fst ifs)"
  then have "map_of (rev ifs) = map_of ifs"
    by (intro map_of_inject_set [THEN iffD2]) (simp_all flip: rev_map)
  then show ?thesis by (simp add: lookup_registered lookup_empty split: option.splits)
qed

end

interpretation registry: adapter_registry NewRegistry Registry_Register Get
  by unfold_locales (auto simp: NewRegistry_def Registry_Register_def Get_def)

section \<open>Properties\<close>

text \<open>
  A registered mock carrier answers with its own ID, a premium in its advertised range in
  US dollars and an expiry five minutes away; it fails only with the context's error or, if a
  failure rate is configured, with \<^verbatim>\<open>ErrCarrierUnavailable\<close>.
\<close>
theorem mock_carrier_answer:
  assumes "draws_ok m env" and "length (mk_id m) \<le> 10 ^ 9"
  shows "case RegisterMockCarrier m env req of
      Inr r \<Rightarrow> r_CarrierID r = mk_id m \<and> m_Currency (r_Premium r) = ''USD''
        \<and> int (length (mk_id m)) * 10000 \<le> m_Amount (r_Premium r)
        \<and> m_Amount (r_Premium r) < int (length (mk_id m)) * 10000 + 50000
        \<and> r_ExpiresAt r = me_now env + 5 * Minute \<and> me_ctx env = None
    | Inl err \<Rightarrow> me_ctx env = Some err
        \<or> (err = ErrCarrierUnavailable \<and> f_less (Fin 0) (mc_FailureRate (mk_cfg m)))"
proof -
  have "wrap64 (wrap64 (int (length (mk_id m)) * 10000) + me_premium env)
      = int (length (mk_id m)) * 10000 + me_premium env"
    using assms by (simp add: draws_ok_def in_int64_def int64_min_def int64_max_def)
  moreover have "wrap64 (300 * Second) = 5 * Minute"
    by (simp add: Second_def Minute_def wrap64_def)
  ultimately show ?thesis
    using assms
    by (auto simp: RegisterMockCarrier_def Register_def mockAdapter_def MockCarrier_Call_def draws_ok_def
        split: option.splits)
qed

theorem mock_carrier_answer_witness:
  "\<exists>r. RegisterMockCarrier NewAlpha
       \<lparr>me_jitter = 3, me_ctx = None, me_fail = Fin 0, me_premium = 49999, me_now = 7\<rparr>
       \<lparr>q_RequestID = ''r1'', q_ClientID = '''', q_CoverageLines = [''auto''], q_Timeout = 0\<rparr> = Inr r
     \<and> r_CarrierID r = ''alpha'' \<and> m_Amount (r_Premium r) < 100000"
proof -
  let ?env = "\<lparr>me_jitter = 3, me_ctx = None, me_fail = Fin 0, me_premium = 49999, me_now = 7\<rparr>"
  let ?req = "\<lparr>q_RequestID = ''r1'', q_ClientID = '''', q_CoverageLines = [''auto''], q_Timeout = 0\<rparr>"
  have a: "draws_ok NewAlpha ?env" "mk_id NewAlpha = ''alpha''" "mc_FailureRate (mk_cfg NewAlpha) = Fin 0"
    by (simp_all add: draws_ok_def NewAlpha_def NewMockCarrier_def)
  from mock_carrier_answer [OF a(1), of ?req] a(2,3) show ?thesis
    by (auto split: sum.splits)
qed

text \<open>
  The simulated latency of a mock carrier lies within its jitter around the base latency
  and is never negative.
\<close>
theorem mock_latency_within_jitter:
  assumes "draws_ok m env" "0 \<le> mc_JitterMs (mk_cfg m)" "mc_JitterMs (mk_cfg m) \<le> 10 ^ 9"
    "0 \<le> mc_BaseLatency (mk_cfg m)" "mc_BaseLatency (mk_cfg m) \<le> 2 ^ 62"
  shows "max 0 (mc_BaseLatency (mk_cfg m) - mc_JitterMs (mk_cfg m) * Millisecond) \<le> mock_latency m env
    \<and> mock_latency m env \<le> mc_BaseLatency (mk_cfg m) + mc_JitterMs (mk_cfg m) * Millisecond"
proof -
  define j where "j = (if mc_JitterMs (mk_cfg m) > 0 then me_jitter env - mc_JitterMs (mk_cfg m) else 0)"
  have j: "- mc_JitterMs (mk_cfg m) \<le> j" "j \<le> mc_JitterMs (mk_cfg m)"
    using assms(1,2) by (auto simp: draws_ok_def j_def)
  have w: "wrap64 (j * 1000000) = j * 1000000"
    using j assms(3) by (simp add: in_int64_def int64_min_def int64_max_def)
  have "wrap64 (mc_BaseLatency (mk_cfg m) + j * 1000000) = mc_BaseLatency (mk_cfg m) + j * 1000000"
    using j assms(3-5) by (simp add: in_int64_def int64_min_def int64_max_def)
  with w j assms(4) show ?thesis
    by (auto simp: mock_latency_def Let_def Millisecond_def simp flip: j_def)
qed

theorem mock_latency_within_jitter_witness:
  "780 * Millisecond \<le> mock_latency NewGamma
     \<lparr>me_jitter = 40, me_ctx = None, me_fail = Fin 0, me_premium = 1, me_now = 0\<rparr> + 30 * Millisecond"
  using mock_latency_within_jitter [of NewGamma
      "\<lparr>me_jitter = 40, me_ctx = None, me_fail = Fin 0, me_premium = 1, me_now = 0\<rparr>"]
  by (simp add: NewGamma_def NewMockCarrier_def draws_ok_def Millisecond_def)

end
