(* ===== verification/Fan_Out.thy ===== *)
theory Fan_Out
  imports Breaker Limiter Hedging Adapters "HOL-Library.Char_ord" "HOL-Library.List_Lexorder"
    "HOL-Library.Product_Lexorder"
begin

text \<open>
  The fan-out of \<^verbatim>\<open>internal/orchestrator/orchestrator.go\<close> with the goroutines of
  \<^verbatim>\<open>hedging.go\<close>, as a machine that a scheduler drives.

  One goroutine per eligible carrier runs \<^verbatim>\<open>callCarrier\<close> (\<open>prim_pc\<close>), one runs
  \<^verbatim>\<open>hedgeMonitor\<close> (\<open>mon_pc\<close>), each fired hedge is a goroutine (\<open>hedge_pc\<close>), one waits for
  the primaries and closes the channel (\<open>close_pc\<close>), and the caller collects. They share
  the buffered channel \<open>f_buf\<close>, the contexts and the \<open>world\<close> (breakers, limiters,
  trackers, recorder calls). A label of \<open>fan_step\<close> is one move of one of them, with the
  inputs that move consumes (clock, adapter environment, what the token bucket and the random
  \<^verbatim>\<open>select\<close> choose); \<open>Other\<close> is any change a concurrent request makes to the world.
  \<open>None\<close> means the move is blocked. A nil dereference or a send on a closed channel is an
  explicit panic state. The operations of a breaker call are the atomic ones of
  \<open>exec_step\<close>, and the monitor reads one breaker at a time; a tracker update is one move (theory \<open>Hedging\<close> shows it linearises).
\<close>

section \<open>Shared state\<close>

record 'l world =
  w_breakers :: "string \<rightharpoonup> Breaker"
  w_limiters :: "string \<rightharpoonup> 'l Limiter"
  w_trackers :: "string \<rightharpoonup> EMATracker"
  w_trace :: "MetricsCall list"

definition emit :: "MetricsCall list \<Rightarrow> 'l world \<Rightarrow> 'l world" where
  "emit es w = w\<lparr>w_trace := w_trace w @ es\<rparr>"

definition set_breaker :: "string \<Rightarrow> Breaker \<Rightarrow> 'l world \<Rightarrow> 'l world" where
  "set_breaker i b w = w\<lparr>w_breakers := (w_breakers w)(i \<mapsto> b)\<rparr>"

definition set_limiter :: "string \<Rightarrow> 'l Limiter \<Rightarrow> 'l world \<Rightarrow> 'l world" where
  "set_limiter i l w = w\<lparr>w_limiters := (w_limiters w)(i \<mapsto> l)\<rparr>"

definition set_tracker :: "string \<Rightarrow> EMATracker \<Rightarrow> 'l world \<Rightarrow> 'l world" where
  "set_tracker i t w = w\<lparr>w_trackers := (w_trackers w)(i \<mapsto> t)\<rparr>"

text \<open>
  What a move of a concurrent request can do: replace the contents of the breaker, the limiter
  and the tracker of one carrier (never add or remove one) and call the recorder.
\<close>
definition interfere :: "string \<Rightarrow> Breaker \<Rightarrow> 'l Limiter \<Rightarrow> EMATracker \<Rightarrow> MetricsCall list \<Rightarrow> 'l world \<Rightarrow> 'l world" where
  "interfere i b l t evs w = emit evs
     (w\<lparr>w_breakers := (case w_breakers w i of None \<Rightarrow> w_breakers w | Some _ \<Rightarrow> (w_breakers w)(i \<mapsto> b)),
        w_limiters := (case w_limiters w i of None \<Rightarrow> w_limiters w | Some _ \<Rightarrow> (w_limiters w)(i \<mapsto> l)),
        w_trackers := (case w_trackers w i of None \<Rightarrow> w_trackers w | Some _ \<Rightarrow> (w_trackers w)(i \<mapsto> t))\<rparr>)"

text \<open>
  Before its goroutines start, a fan-out reads the carriers' breakers and trackers one after
  another, and other requests run between these reads. \<open>gaps\<close> says what they have changed by the
  time a carrier is looked at: when its breaker is filtered, when its estimate is read and when
  its threshold is read.
\<close>
type_synonym 'l change = "string \<times> Breaker \<times> 'l Limiter \<times> EMATracker \<times> MetricsCall list"

record 'l gaps =
  v_filter :: "string \<Rightarrow> 'l change list"
  v_estimate :: "string \<Rightarrow> 'l change list"
  v_threshold :: "string \<Rightarrow> 'l change list"

text \<open>The world in which carrier \<open>i\<close> is looked at.\<close>
definition seen_by :: "(string \<Rightarrow> 'l change list) \<Rightarrow> 'l world \<Rightarrow> string \<Rightarrow> 'l world" where
  "seen_by changes w i = fold (\<lambda>(j, b, l, t, evs). interfere j b l t evs) (changes i) w"

section \<open>Eligible carriers\<close>

text \<open>A missing breaker does not exclude a carrier; an open one does.\<close>
definition breaker_open :: "'l world \<Rightarrow> string \<Rightarrow> bool" where
  "breaker_open w i \<longleftrightarrow>
     (case w_breakers w i of Some b \<Rightarrow> State b = CBStateOpen | None \<Rightarrow> False)"

text \<open>\<open>seen i\<close> is the world when the breaker of carrier \<open>i\<close> is looked at.\<close>
definition filterEligibleCarriers :: "Carrier list \<Rightarrow> (string \<Rightarrow> 'l world) \<Rightarrow> CoverageLine list \<Rightarrow> Carrier list" where
  "filterEligibleCarriers carriers seen lines =
     filter (\<lambda>c. \<not> breaker_open (seen (c_ID c)) (c_ID c) \<and> list_ex (\<lambda>cap. cap \<in> set lines) (c_Capabilities c)) carriers"

text \<open>\<^verbatim>\<open>classifyError\<close>: the status label of a failed call.\<close>
definition classifyError :: "go_error \<Rightarrow> string" where
  "classifyError err =
     (if errors_Is err ErrCircuitOpen then ''circuit_open''
      else if errors_Is err ErrRateLimitExceeded then ''rate_limited''
      else if errors_Is err CtxDeadlineExceeded \<or> errors_Is err ErrCarrierTimeout then ''timeout''
      else ''error'')"

section \<open>Goroutines\<close>

text \<open>
  What is fixed for one fan-out: the token bucket's operations, the registry, the request and
  the values computed before the goroutines start.
\<close>
record ('l, 'env, 'ctx) fan_cfg =
  fc_wait :: "'l \<Rightarrow> 'ctx \<Rightarrow> go_error option \<times> 'l"
  fc_allow :: "'l \<Rightarrow> instant \<Rightarrow> bool \<times> 'l"
  fc_registry :: "'env Registry"
  fc_req :: QuoteRequest
  fc_eligible :: "Carrier list"
  fc_hedgeable :: "hedgeCarrier list"
  fc_pending :: "string \<rightharpoonup> pendingCarrier"
  fc_deadline :: instant
  fc_cancel :: bool

text \<open>The inputs of a move; \<open>i_drop\<close> is the random choice of the \<^verbatim>\<open>ctx.Done()\<close> branch.\<close>
record ('env, 'ctx) inp =
  i_now :: instant
  i_env :: 'env
  i_ctx :: 'ctx
  i_drop :: bool

text \<open>
  \<^verbatim>\<open>callCarrier\<close>. \<open>P_Brk pc t\<close> is inside \<^verbatim>\<open>breaker.Execute\<close> at \<open>pc\<close>, with
  \<^verbatim>\<open>callStart\<close> \<open>t\<close>; where \<open>pc\<close> is a call of the guarded closure, the closure's own steps are
  \<open>P_Brk\<close> (the adapter runs), \<open>P_Track\<close>, \<open>P_Metric\<close> and \<open>P_Send\<close>.
\<close>
datatype prim_pc =
    P_Start
  | P_Wait
  | P_Brk exec_pc instant
  | P_Track exec_pc instant QuoteResult
  | P_Metric exec_pc instant QuoteResult
  | P_Send exec_pc instant QuoteResult
  | P_Done
  | P_Panic

definition brk_advance :: "string \<Rightarrow> instant \<Rightarrow> go_error option \<Rightarrow> exec_pc \<Rightarrow> instant \<Rightarrow> Breaker \<Rightarrow> 'l world
    \<Rightarrow> prim_pc \<times> 'l world" where
  "brk_advance i now r pc start b w =
     (case exec_step now r pc b of
        (pc', b', evs) \<Rightarrow> (P_Brk pc' start, emit evs (set_breaker i b' w)))"

text \<open>
  One move of a primary goroutine: its next state, the world, and what it sends on the channel.
  \<open>ctx_done\<close> and \<open>room\<close> say which branches of the final \<^verbatim>\<open>select\<close> are ready.
\<close>
fun prim_step :: "('l, 'env, 'ctx) fan_cfg \<Rightarrow> ('env, 'ctx) inp \<Rightarrow> bool \<Rightarrow> bool \<Rightarrow> string \<Rightarrow> prim_pc \<Rightarrow> 'l world
    \<Rightarrow> (prim_pc \<times> 'l world \<times> QuoteResult list) option" where
  "prim_step C inp ctx_done room i P_Start w =
     Some (case Get (fc_registry C) i of None \<Rightarrow> P_Done | Some fn \<Rightarrow> P_Wait, w, [])"
| "prim_step C inp ctx_done room i P_Wait w =
     (case w_limiters w i of
        None \<Rightarrow> Some (P_Panic, w, [])
      | Some l \<Rightarrow>
          (case Wait (fc_wait C) (i_ctx inp) l of
             (Some err, l', evs) \<Rightarrow>
               Some (P_Done, emit (evs @ [RecordQuote i 0 ''rate_limited'']) (set_limiter i l' w), [])
           | (None, l', evs) \<Rightarrow> Some (P_Brk E_Load (i_now inp), emit evs (set_limiter i l' w), [])))"
| "prim_step C inp ctx_done room i (P_Brk pc start) w =
     (case w_breakers w i of
        None \<Rightarrow> Some (P_Panic, w, [])
      | Some b \<Rightarrow>
          (if at_call pc then
             (case Get (fc_registry C) i of
                None \<Rightarrow> Some (P_Panic, w, [])
              | Some execFn \<Rightarrow>
                  (case execFn (i_env inp) (fc_req C) of
                     Inl err \<Rightarrow>
                       (case brk_advance i (i_now inp) (Some err) pc start b w of (p, w') \<Rightarrow> Some (p, w', []))
                   | Inr r \<Rightarrow>
                       Some (P_Track pc start (r\<lparr>r_RequestID := q_RequestID (fc_req C),
                                                  r_Latency := time_Sub (i_now inp) start\<rparr>), w, [])))
           else (case exec_result pc of
                   Some None \<Rightarrow> Some (P_Done, w, [])
                 | Some (Some err) \<Rightarrow>
                     Some (P_Done, emit [RecordQuote i (time_Sub (i_now inp) start) (classifyError err)] w, [])
                 | None \<Rightarrow>
                     (case brk_advance i (i_now inp) None pc start b w of (p, w') \<Rightarrow> Some (p, w', [])))))"
| "prim_step C inp ctx_done room i (P_Track pc start r) w =
     (case w_trackers w i of
        None \<Rightarrow> Some (P_Panic, w, [])
      | Some t \<Rightarrow>
          (case Record (r_Latency r) t of
             (t', evs) \<Rightarrow> Some (P_Metric pc start r, emit evs (set_tracker i t' w), [])))"
| "prim_step C inp ctx_done room i (P_Metric pc start r) w =
     Some (P_Send pc start r, emit [RecordQuote i (r_Latency r) ''success''] w, [])"
| "prim_step C inp ctx_done room i (P_Send pc start r) w =
     (case w_breakers w i of
        None \<Rightarrow> Some (P_Panic, w, [])
      | Some b \<Rightarrow>
          (if (if i_drop inp then ctx_done else room) then
             (case brk_advance i (i_now inp) None pc start b w of
                (p, w') \<Rightarrow> Some (p, w', if i_drop inp then [] else [r]))
           else None))"
| "prim_step C inp ctx_done room i P_Done w = None"
| "prim_step C inp ctx_done room i P_Panic w = None"

datatype hedge_pc = G_Exec | G_Send QuoteResult | G_Done | G_Panic

record hedge =
  g_trigger :: string
  g_carrier :: string
  g_pc :: hedge_pc

text \<open>The goroutine of a fired hedge: the adapter call, then the send.\<close>
fun hedge_step :: "('l, 'env, 'ctx) fan_cfg \<Rightarrow> ('env, 'ctx) inp \<Rightarrow> bool \<Rightarrow> bool \<Rightarrow> string \<Rightarrow> hedge_pc
    \<Rightarrow> (hedge_pc \<times> QuoteResult list) option" where
  "hedge_step C inp ctx_done room i G_Exec =
     (case Get (fc_registry C) i of
        None \<Rightarrow> Some (G_Panic, [])
      | Some execFn \<Rightarrow>
          (case execFn (i_env inp) (fc_req C) of
             Inl err \<Rightarrow> Some (G_Done, [])
           | Inr r \<Rightarrow> Some (G_Send (r\<lparr>r_IsHedged := True\<rparr>), [])))"
| "hedge_step C inp ctx_done room i (G_Send r) =
     (if (if i_drop inp then ctx_done else room) then Some (G_Done, if i_drop inp then [] else [r]) else None)"
| "hedge_step C inp ctx_done room i G_Done = None"
| "hedge_step C inp ctx_done room i G_Panic = None"

text \<open>
  \<^verbatim>\<open>hedgeMonitor\<close>: waiting for the ticker, inside the loop over the pending map (the
  carriers still to visit, \<^verbatim>\<open>allResolved\<close>, \<^verbatim>\<open>now\<close>), inside \<^verbatim>\<open>selectHedgeCandidate\<close> (the carriers
  still to visit, \<^verbatim>\<open>now\<close>, the slow carrier, the candidates still to look at, and
  \<^verbatim>\<open>best\<close>), or gone. The fifth argument of \<open>M_Select\<close> is history only: the breaker
  states read so far.
\<close>
datatype mon_pc =
    M_Wait
  | M_Scan "string list" bool instant
  | M_Select "string list" instant string "hedgeCarrier list" "(hedgeCarrier \<times> CBState) list" "hedgeCarrier option"
  | M_Exit
  | M_Panic

datatype close_pc = K_Wait | K_Drain | K_Closed

record 'l fan =
  f_world :: "'l world"
  f_prims :: "prim_pc list"
  f_mon :: mon_pc
  f_hedged :: "string list"
  f_hedges :: "hedge list"
  f_buf :: "QuoteResult list"
  f_sent :: "QuoteResult list"
  f_closer :: close_pc
  f_reqDone :: bool
  f_collected :: "QuoteResult list"

text \<open>\<open>f_sent\<close> is history only: everything ever sent on the channel, in order.\<close>

definition chan_cap :: "('l, 'env, 'ctx) fan_cfg \<Rightarrow> nat" where
  "chan_cap C = length (fc_eligible C) * 2"

text \<open>\<^verbatim>\<open>gCtx\<close> ends with the request context or when \<^verbatim>\<open>g.Wait\<close> has returned.\<close>
definition gctx_done :: "'l fan \<Rightarrow> bool" where
  "gctx_done f \<longleftrightarrow> f_reqDone f \<or> f_closer f \<noteq> K_Wait"

text \<open>A send is ready when the buffer has room, or (to panic) when the channel is closed.\<close>
definition send_ready :: "('l, 'env, 'ctx) fan_cfg \<Rightarrow> 'l fan \<Rightarrow> bool" where
  "send_ready C f \<longleftrightarrow> f_closer f = K_Closed \<or> length (f_buf f) < chan_cap C"

datatype ('l, 'env, 'ctx) fan_label =
    Prim nat "('env, 'ctx) inp"
  | Hedge nat "('env, 'ctx) inp"
  | Tick instant "string list"
  | MonDone
  | Scan instant
  | Close
  | Recv
  | Deadline instant
  | Cancel
  | Other string Breaker "'l Limiter" EMATracker "MetricsCall list"

text \<open>One carrier of the loop over the pending map, up to the choice of a candidate.\<close>
definition scan_one :: "('l, 'env, 'ctx) fan_cfg \<Rightarrow> string \<Rightarrow> string list \<Rightarrow> bool \<Rightarrow> instant \<Rightarrow> 'l fan \<Rightarrow> mon_pc" where
  "scan_one C i rest resolved now f =
     (if i \<in> set (f_hedged f) then M_Scan rest resolved now
      else case fc_pending C i of
             None \<Rightarrow> M_Scan rest False now
           | Some p \<Rightarrow> if due now p then M_Select rest now i (fc_hedgeable C) [] None else M_Scan rest False now)"

text \<open>
  One round of the loop of \<^verbatim>\<open>selectHedgeCandidate\<close>: the state of the candidate's breaker is
  read, unless it is the slow carrier itself.
\<close>
definition select_one :: "string list \<Rightarrow> instant \<Rightarrow> string \<Rightarrow> hedgeCarrier \<Rightarrow> hedgeCarrier list
    \<Rightarrow> (hedgeCarrier \<times> CBState) list \<Rightarrow> hedgeCarrier option \<Rightarrow> 'l world \<Rightarrow> mon_pc" where
  "select_one rest now i h todo seen best w =
     (if c_ID (h_carrier h) = i then M_Select rest now i todo seen best
      else case w_breakers w (c_ID (h_carrier h)) of
             None \<Rightarrow> M_Panic
           | Some b \<Rightarrow> M_Select rest now i todo (seen @ [(h, State b)]) (select_loop i [(h, State b)] best))"

text \<open>After the choice: the token, then the hedge; \<open>now'\<close> is the clock of \<^verbatim>\<open>tryAcquire\<close>.\<close>
definition acquire_hedge :: "('l, 'env, 'ctx) fan_cfg \<Rightarrow> instant \<Rightarrow> string list \<Rightarrow> instant \<Rightarrow> string
    \<Rightarrow> hedgeCarrier option \<Rightarrow> 'l fan \<Rightarrow> 'l fan" where
  "acquire_hedge C now' rest now i best f =
     (let f = f\<lparr>f_mon := M_Scan rest False now\<rparr>; w = f_world f
      in case best of
           None \<Rightarrow> f
         | Some c \<Rightarrow>
             (let j = c_ID (h_carrier c)
              in case w_limiters w j of
                   None \<Rightarrow> f\<lparr>f_mon := M_Panic\<rparr>
                 | Some l \<Rightarrow>
                     (case TryAcquire (fc_allow C) now' l of
                        (False, l') \<Rightarrow> f\<lparr>f_world := set_limiter j l' w\<rparr>
                      | (True, l') \<Rightarrow>
                          f\<lparr>f_world := emit [RecordHedge j i] (set_limiter j l' w),
                            f_hedged := i # f_hedged f,
                            f_hedges := f_hedges f @ [\<lparr>g_trigger = i, g_carrier = j, g_pc = G_Exec\<rparr>]\<rparr>)))"

text \<open>The collector's loop body: keep the first result of each carrier.\<close>
definition collect :: "QuoteResult \<Rightarrow> QuoteResult list \<Rightarrow> QuoteResult list" where
  "collect r collected =
     (if r_CarrierID r \<in> set (map r_CarrierID collected) then collected else collected @ [r])"

definition prim_move :: "('l, 'env, 'ctx) fan_cfg \<Rightarrow> nat \<Rightarrow> ('env, 'ctx) inp \<Rightarrow> 'l fan \<Rightarrow> 'l fan option" where
  "prim_move C k inp f =
     (if k < length (f_prims f) \<and> k < length (fc_eligible C) then
        case prim_step C inp (gctx_done f) (send_ready C f) (c_ID (fc_eligible C ! k)) (f_prims f ! k) (f_world f) of
          None \<Rightarrow> None
        | Some (p, w, out) \<Rightarrow>
            if out \<noteq> [] \<and> f_closer f = K_Closed then Some (f\<lparr>f_prims := (f_prims f)[k := P_Panic]\<rparr>)
            else Some (f\<lparr>f_prims := (f_prims f)[k := p], f_world := w,
                         f_buf := f_buf f @ out, f_sent := f_sent f @ out\<rparr>)
      else None)"

definition hedge_move :: "('l, 'env, 'ctx) fan_cfg \<Rightarrow> nat \<Rightarrow> ('env, 'ctx) inp \<Rightarrow> 'l fan \<Rightarrow> 'l fan option" where
  "hedge_move C k inp f =
     (if k < length (f_hedges f) then
        let h = f_hedges f ! k
        in case hedge_step C inp (gctx_done f) (send_ready C f) (g_carrier h) (g_pc h) of
             None \<Rightarrow> None
           | Some (p, out) \<Rightarrow>
               if out \<noteq> [] \<and> f_closer f = K_Closed
               then Some (f\<lparr>f_hedges := (f_hedges f)[k := h\<lparr>g_pc := G_Panic\<rparr>]\<rparr>)
               else Some (f\<lparr>f_hedges := (f_hedges f)[k := h\<lparr>g_pc := p\<rparr>],
                            f_buf := f_buf f @ out, f_sent := f_sent f @ out\<rparr>)
      else None)"

definition close_move :: "'l fan \<Rightarrow> 'l fan option" where
  "close_move f =
     (case f_closer f of
        K_Wait \<Rightarrow> if list_all (\<lambda>p. p = P_Done) (f_prims f) then Some (f\<lparr>f_closer := K_Drain\<rparr>) else None
      | K_Drain \<Rightarrow>
          if f_mon f = M_Exit \<and> list_all (\<lambda>h. g_pc h = G_Done) (f_hedges f)
          then Some (f\<lparr>f_closer := K_Closed\<rparr>) else None
      | K_Closed \<Rightarrow> None)"

fun fan_step :: "('l, 'env, 'ctx) fan_cfg \<Rightarrow> ('l, 'env, 'ctx) fan_label \<Rightarrow> 'l fan \<Rightarrow> 'l fan option" where
  "fan_step C (Prim k inp) f = prim_move C k inp f"
| "fan_step C (Hedge k inp) f = hedge_move C k inp f"
| "fan_step C (Tick now order) f =
     (if f_mon f = M_Wait \<and> distinct order \<and> set order = set (map c_ID (fc_eligible C))
      then Some (f\<lparr>f_mon := M_Scan order True now\<rparr>) else None)"
| "fan_step C MonDone f =
     (if f_mon f = M_Wait \<and> gctx_done f then Some (f\<lparr>f_mon := M_Exit\<rparr>) else None)"
| "fan_step C (Scan now') f =
     (case f_mon f of
        M_Scan [] resolved now \<Rightarrow> Some (f\<lparr>f_mon := if resolved then M_Exit else M_Wait\<rparr>)
      | M_Scan (i # rest) resolved now \<Rightarrow> Some (f\<lparr>f_mon := scan_one C i rest resolved now f\<rparr>)
      | M_Select rest now i (h # todo) seen best \<Rightarrow>
          Some (f\<lparr>f_mon := select_one rest now i h todo seen best (f_world f)\<rparr>)
      | M_Select rest now i [] seen best \<Rightarrow> Some (acquire_hedge C now' rest now i best f)
      | _ \<Rightarrow> None)"
| "fan_step C Close f = close_move f"
| "fan_step C Recv f =
     (case f_buf f of
        [] \<Rightarrow> None
      | r # rs \<Rightarrow> Some (f\<lparr>f_buf := rs, f_collected := collect r (f_collected f)\<rparr>))"
| "fan_step C (Deadline now) f = (if fc_deadline C \<le> now then Some (f\<lparr>f_reqDone := True\<rparr>) else None)"
| "fan_step C Cancel f = (if fc_cancel C then Some (f\<lparr>f_reqDone := True\<rparr>) else None)"
| "fan_step C (Other i b l t evs) f = Some (f\<lparr>f_world := interfere i b l t evs (f_world f)\<rparr>)"

section \<open>Starting and finishing a fan-out\<close>

text \<open>
  The hedge candidates: eligible carriers with an adapter, with their estimate when it is read.
  A missing tracker is a nil dereference, which \<^verbatim>\<open>fanOut\<close> reports as a panic before it comes
  here.
\<close>
definition hedgeables :: "'env Registry \<Rightarrow> (string \<Rightarrow> 'l world) \<Rightarrow> Carrier list \<Rightarrow> hedgeCarrier list" where
  "hedgeables reg seen eligible =
     map (\<lambda>c. \<lparr>h_carrier = c,
               h_p95Ms = (case w_trackers (seen (c_ID c)) (c_ID c) of Some t \<Rightarrow> P95 t | None \<Rightarrow> NaN)\<rparr>)
       (filter (\<lambda>c. Get reg (c_ID c) \<noteq> None) eligible)"

text \<open>\<open>starts\<close> are the clock readings of the loop that fills the pending map.\<close>
definition pending_map :: "(string \<Rightarrow> 'l world) \<Rightarrow> (string \<Rightarrow> instant) \<Rightarrow> Carrier list \<Rightarrow> (string \<rightharpoonup> pendingCarrier)" where
  "pending_map seen starts eligible =
     (\<lambda>i. if i \<in> set (map c_ID eligible)
          then Some \<lparr>p_startTime = starts i,
                     p_hedgeThreshold = (case w_trackers (seen i) i of Some t \<Rightarrow> HedgeThreshold t | None \<Rightarrow> NaN)\<rparr>
          else None)"

text \<open>
  \<open>deadline\<close> is when \<^verbatim>\<open>reqCtx\<close> times out, \<open>cancel\<close> whether the caller can cancel it; \<open>v\<close> is what
  other requests change between the reads.
\<close>
definition fan_cfg_for :: "('l \<Rightarrow> 'ctx \<Rightarrow> go_error option \<times> 'l) \<Rightarrow> ('l \<Rightarrow> instant \<Rightarrow> bool \<times> 'l) \<Rightarrow> 'env Registry
    \<Rightarrow> Carrier list \<Rightarrow> QuoteRequest \<Rightarrow> (string \<Rightarrow> instant) \<Rightarrow> instant \<Rightarrow> bool \<Rightarrow> 'l gaps \<Rightarrow> 'l world
    \<Rightarrow> ('l, 'env, 'ctx) fan_cfg" where
  "fan_cfg_for wait allow reg carriers req starts deadline cancel v w =
     (let eligible = filterEligibleCarriers carriers (seen_by (v_filter v) w) (q_CoverageLines req)
      in \<lparr>fc_wait = wait, fc_allow = allow, fc_registry = reg, fc_req = req, fc_eligible = eligible,
          fc_hedgeable = hedgeables reg (seen_by (v_estimate v) w) eligible,
          fc_pending = pending_map (seen_by (v_threshold v) w) starts eligible,
          fc_deadline = deadline, fc_cancel = cancel\<rparr>)"

definition fan_init :: "('l, 'env, 'ctx) fan_cfg \<Rightarrow> 'l world \<Rightarrow> 'l fan" where
  "fan_init C w =
     \<lparr>f_world = w, f_prims = replicate (length (fc_eligible C)) P_Start, f_mon = M_Wait,
      f_hedged = [], f_hedges = [], f_buf = [], f_sent = [], f_closer = K_Wait, f_reqDone = False,
      f_collected = []\<rparr>"

definition finished :: "'l fan \<Rightarrow> bool" where
  "finished f \<longleftrightarrow> f_closer f = K_Closed \<and> f_buf f = []"

text \<open>The comparison of \<^verbatim>\<open>slices.SortFunc\<close>: premium first, carrier ID second.\<close>
definition quote_key :: "QuoteResult \<Rightarrow> int \<times> string" where
  "quote_key r = (m_Amount (r_Premium r), r_CarrierID r)"

definition sort_quotes :: "QuoteResult list \<Rightarrow> QuoteResult list" where
  "sort_quotes rs = sort_key quote_key rs"

text \<open>A blocked label makes the run fail; the result is the state after all labels.\<close>
fun fan_run :: "('l, 'env, 'ctx) fan_cfg \<Rightarrow> ('l, 'env, 'ctx) fan_label list \<Rightarrow> 'l fan \<Rightarrow> 'l fan option" where
  "fan_run C [] f = Some f"
| "fan_run C (l # ls) f = (case fan_step C l f of None \<Rightarrow> None | Some f' \<Rightarrow> fan_run C ls f')"

inductive fan_reach :: "('l, 'env, 'ctx) fan_cfg \<Rightarrow> 'l world \<Rightarrow> 'l fan \<Rightarrow> bool" for C w where
  fan_start: "fan_reach C w (fan_init C w)"
| fan_more: "fan_reach C w f \<Longrightarrow> fan_step C l f = Some f' \<Longrightarrow> fan_reach C w f'"

end
