(* ===== verification/Fan_Out_Safety.thy ===== *)
theory Fan_Out_Safety
  imports Fan_Out
begin

text \<open>
  The invariants of the fan-out machine, for every interleaving of its goroutines with each
  other, with the deadline and with other requests: nobody dereferences nil or sends on a
  closed channel, the buffer of twice the number of eligible carriers never fills, every
  received result was produced by an adapter of an eligible carrier, and the machine always
  finishes.
\<close>

section \<open>What the fan-out relies on\<close>

definition ids :: "('l, 'env, 'ctx) fan_cfg \<Rightarrow> string set" where
  "ids C = set (map c_ID (fc_eligible C))"

text \<open>Every eligible carrier has a breaker, a limiter and a tracker.\<close>
definition wired :: "('l, 'env, 'ctx) fan_cfg \<Rightarrow> 'l world \<Rightarrow> bool" where
  "wired C w \<longleftrightarrow> ids C \<subseteq> dom (w_breakers w) \<inter> dom (w_limiters w) \<inter> dom (w_trackers w)"

definition cfg_wf :: "('l, 'env, 'ctx) fan_cfg \<Rightarrow> bool" where
  "cfg_wf C \<longleftrightarrow> (\<forall>h \<in> set (fc_hedgeable C). c_ID (h_carrier h) \<in> ids C
      \<and> Get (fc_registry C) (c_ID (h_carrier h)) \<noteq> None)"

lemma cfg_wf_fan_cfg_for [simp]: "cfg_wf (fan_cfg_for wait allow reg carriers req starts deadline cancel v w)"
  by (auto simp: cfg_wf_def fan_cfg_for_def hedgeables_def ids_def Let_def)

definition same_dom :: "'l world \<Rightarrow> 'l world \<Rightarrow> bool" where
  "same_dom w w' \<longleftrightarrow> dom (w_breakers w') = dom (w_breakers w)
     \<and> dom (w_limiters w') = dom (w_limiters w) \<and> dom (w_trackers w') = dom (w_trackers w)"

lemma same_dom_refl [simp]: "same_dom w w"
  by (simp add: same_dom_def)

lemma same_dom_emit [simp]: "same_dom w (emit es w') \<longleftrightarrow> same_dom w w'"
  by (simp add: same_dom_def emit_def)

lemma same_dom_set [simp]:
  "w_breakers w i \<noteq> None \<Longrightarrow> same_dom w (set_breaker i b w)"
  "w_limiters w i \<noteq> None \<Longrightarrow> same_dom w (set_limiter i l w)"
  "w_trackers w i \<noteq> None \<Longrightarrow> same_dom w (set_tracker i t w)"
  by (auto simp: same_dom_def set_breaker_def set_limiter_def set_tracker_def)

lemma same_dom_interfere: "same_dom w (interfere i b l t evs w)"
  by (auto simp: interfere_def same_dom_def emit_def split: option.splits)

lemma wired_same_dom: "same_dom w w' \<Longrightarrow> wired C w \<Longrightarrow> wired C w'"
  by (simp add: same_dom_def wired_def)

lemma wired_at:
  assumes "wired C w" "i \<in> ids C"
  shows "w_breakers w i \<noteq> None" "w_limiters w i \<noteq> None" "w_trackers w i \<noteq> None"
  using assms by (auto simp: wired_def)

section \<open>One move of a goroutine\<close>

text \<open>The goroutine may still send a result.\<close>
fun may_send :: "prim_pc \<Rightarrow> bool" where
  "may_send (P_Brk pc t) = (exec_calls_left pc \<noteq> 0)"
| "may_send P_Done = False"
| "may_send P_Panic = False"
| "may_send _ = True"

text \<open>A result as the adapter of an eligible carrier produced it for this request.\<close>
definition produced :: "('l, 'env, 'ctx) fan_cfg \<Rightarrow> string \<Rightarrow> bool \<Rightarrow> QuoteResult \<Rightarrow> bool" where
  "produced C i hedged r \<longleftrightarrow>
     (\<exists>fn env r0. Get (fc_registry C) i = Some fn \<and> fn env (fc_req C) = Inr r0
        \<and> (if hedged then r = r0\<lparr>r_IsHedged := True\<rparr>
           else \<exists>lat. r = r0\<lparr>r_RequestID := q_RequestID (fc_req C), r_Latency := lat\<rparr>))"

fun prim_ok :: "('l, 'env, 'ctx) fan_cfg \<Rightarrow> string \<Rightarrow> prim_pc \<Rightarrow> bool" where
  "prim_ok C i (P_Brk pc t) = (Get (fc_registry C) i \<noteq> None)"
| "prim_ok C i (P_Track pc t r) = (at_call pc \<and> produced C i False r)"
| "prim_ok C i (P_Metric pc t r) = (at_call pc \<and> produced C i False r)"
| "prim_ok C i (P_Send pc t r) = (at_call pc \<and> produced C i False r)"
| "prim_ok C i P_Wait = (Get (fc_registry C) i \<noteq> None)"
| "prim_ok C i P_Panic = False"
| "prim_ok C i _ = True"

fun prim_rank :: "prim_pc \<Rightarrow> nat" where
  "prim_rank P_Start = 103"
| "prim_rank P_Wait = 102"
| "prim_rank (P_Brk pc t) = 5 * exec_rank pc + 1"
| "prim_rank (P_Track pc t r) = 5 * exec_rank pc"
| "prim_rank (P_Metric pc t r) = 5 * exec_rank pc - 1"
| "prim_rank (P_Send pc t r) = 5 * exec_rank pc - 2"
| "prim_rank P_Done = 0"
| "prim_rank P_Panic = 0"

lemma at_call_facts:
  "at_call pc \<Longrightarrow> exec_calls_left pc = 1 \<and> exec_result pc = None \<and> 5 < exec_rank pc"
  by (cases pc) auto

lemma brk_advance_facts:
  assumes "brk_advance i now r pc start b w = (p, w')" "w_breakers w i = Some b"
    "exec_result pc = None"
  obtains pc' where "p = P_Brk pc' start" "same_dom w w'" "exec_rank pc' < exec_rank pc"
    "exec_calls_left pc' + (if at_call pc then 1 else 0) \<le> exec_calls_left pc"
proof -
  obtain pc' b' evs where st: "exec_step now r pc b = (pc', b', evs)"
    by (cases "exec_step now r pc b") auto
  have "exec_op (now, r) b pc = pc'" by (simp add: exec_op_def st)
  with exec_call.op_calls [of "(now, r)" b pc] exec_step_rank [OF st assms(3)] assms(1,2) st that
  show ?thesis by (auto simp: brk_advance_def)
qed

lemma producedI:
  assumes "Get (fc_registry C) i = Some fn" "fn env (fc_req C) = Inr r0"
  shows "produced C i False (r0\<lparr>r_RequestID := q_RequestID (fc_req C), r_Latency := lat\<rparr>)"
    and "produced C i True (r0\<lparr>r_IsHedged := True\<rparr>)"
  unfolding produced_def using assms
  by (auto intro!: exI [of _ env] exI [of _ r0] exI [of _ lat])

lemma produced_unregistered: "Get (fc_registry C) i = None \<Longrightarrow> \<not> produced C i hedged r"
  by (simp add: produced_def)

text \<open>
  A move of a healthy primary keeps it healthy, keeps every breaker, limiter and tracker in
  place, brings the goroutine closer to its end, and uses up its only send.
\<close>
lemma prim_step_facts:
  assumes st: "prim_step C inp d room i p w = Some (p', w', out)"
    and ok: "prim_ok C i p" and w: "wired C w" and i: "i \<in> ids C"
  shows "prim_ok C i p' \<and> same_dom w w' \<and> p \<noteq> P_Done
    \<and> prim_rank p' + length out < prim_rank p
    \<and> length out + of_bool (may_send p') \<le> (of_bool (may_send p) :: nat)
    \<and> list_all (produced C i False) out
    \<and> (out \<noteq> [] \<longrightarrow> (\<exists>pc t r. p = P_Send pc t r \<and> out = [r] \<and> room))"
proof (cases p)
  case (P_Brk pc t)
  obtain b where b: "w_breakers w i = Some b" using wired_at [OF w i] by auto
  obtain fn where fn: "Get (fc_registry C) i = Some fn" using ok P_Brk by auto
  have send: "may_send (P_Brk pc' t) \<Longrightarrow> exec_calls_left pc' \<le> exec_calls_left pc \<Longrightarrow> may_send p" for pc'
    by (simp add: P_Brk)
  show ?thesis
  proof (cases "at_call pc")
    case True
    note call = at_call_facts [OF True]
    show ?thesis
    proof (cases "fn (i_env inp) (fc_req C)")
      case (Inl err)
      obtain q v where adv: "brk_advance i (i_now inp) (Some err) pc t b w = (q, v)"
        by (cases "brk_advance i (i_now inp) (Some err) pc t b w")
      obtain pc' where "q = P_Brk pc' t" "same_dom w v" "exec_rank pc' < exec_rank pc" "exec_calls_left pc' = 0"
        using brk_advance_facts [OF adv b] call True by auto
      with st Inl adv show ?thesis by (auto simp: P_Brk b fn True)
    next
      case (Inr r)
      with st True call producedI(1) [OF fn Inr] show ?thesis by (auto simp: P_Brk b fn)
    qed
  next
    case False
    show ?thesis
    proof (cases "exec_result pc")
      case None
      obtain q v where adv: "brk_advance i (i_now inp) None pc t b w = (q, v)"
        by (cases "brk_advance i (i_now inp) None pc t b w")
      obtain pc' where "q = P_Brk pc' t" "same_dom w v" "exec_rank pc' < exec_rank pc"
          "exec_calls_left pc' \<le> exec_calls_left pc"
        using brk_advance_facts [OF adv b None] False by auto
      with st adv None send False show ?thesis by (auto simp: P_Brk b fn)
    next
      case (Some res)
      with st False show ?thesis by (cases res) (auto simp: P_Brk b)
    qed
  qed
next
  case (P_Send pc t r)
  obtain b where b: "w_breakers w i = Some b" using wired_at [OF w i] by auto
  have call: "at_call pc" using ok P_Send by simp
  obtain q v where adv: "brk_advance i (i_now inp) None pc t b w = (q, v)"
    by (cases "brk_advance i (i_now inp) None pc t b w")
  obtain pc' where "q = P_Brk pc' t" "same_dom w v" "exec_rank pc' < exec_rank pc" "exec_calls_left pc' = 0"
    using brk_advance_facts [OF adv b] at_call_facts [OF call] call by auto
  moreover obtain fn where "Get (fc_registry C) i = Some fn"
    using ok P_Send produced_unregistered [of C i] by fastforce
  ultimately show ?thesis
    using st ok at_call_facts [OF call] by (auto simp: P_Send b adv split: if_splits)
next
  case P_Wait
  obtain l where l: "w_limiters w i = Some l" using wired_at [OF w i] by auto
  obtain err l' evs where "Wait (fc_wait C) (i_ctx inp) l = (err, l', evs)"
    by (cases "Wait (fc_wait C) (i_ctx inp) l") auto
  with st ok l show ?thesis by (cases err) (auto simp: P_Wait)
next
  case (P_Track pc t r)
  obtain tr where tr: "w_trackers w i = Some tr" using wired_at [OF w i] by auto
  obtain t' evs where "Record (r_Latency r) tr = (t', evs)" by (cases "Record (r_Latency r) tr")
  with st ok tr at_call_facts [of pc] show ?thesis by (auto simp: P_Track)
next
  case (P_Metric pc t r)
  then have "5 < exec_rank pc" using ok at_call_facts [of pc] by simp
  with st ok P_Metric show ?thesis by auto
qed (use st ok in \<open>auto split: option.splits\<close>)

fun hedge_may :: "hedge_pc \<Rightarrow> bool" where
  "hedge_may G_Exec = True"
| "hedge_may (G_Send r) = True"
| "hedge_may _ = False"

fun hedge_rank :: "hedge_pc \<Rightarrow> nat" where
  "hedge_rank G_Exec = 3"
| "hedge_rank (G_Send r) = 2"
| "hedge_rank _ = 0"

fun hedge_pc_ok :: "('l, 'env, 'ctx) fan_cfg \<Rightarrow> string \<Rightarrow> hedge_pc \<Rightarrow> bool" where
  "hedge_pc_ok C i (G_Send r) = produced C i True r"
| "hedge_pc_ok C i G_Panic = False"
| "hedge_pc_ok C i _ = True"

text \<open>A fired hedge: it was triggered by an eligible carrier and calls another one.\<close>
definition hedge_ok :: "('l, 'env, 'ctx) fan_cfg \<Rightarrow> hedge \<Rightarrow> bool" where
  "hedge_ok C h \<longleftrightarrow> g_trigger h \<in> ids C \<and> g_carrier h \<in> ids C \<and> g_carrier h \<noteq> g_trigger h
     \<and> Get (fc_registry C) (g_carrier h) \<noteq> None \<and> hedge_pc_ok C (g_carrier h) (g_pc h)"

lemma hedge_step_facts:
  assumes st: "hedge_step C inp d room i p = Some (p', out)"
    and ok: "hedge_pc_ok C i p" and reg: "Get (fc_registry C) i \<noteq> None"
  shows "hedge_pc_ok C i p' \<and> p \<noteq> G_Done
    \<and> hedge_rank p' + length out < hedge_rank p
    \<and> length out + of_bool (hedge_may p') \<le> (of_bool (hedge_may p) :: nat)
    \<and> list_all (produced C i True) out
    \<and> (out \<noteq> [] \<longrightarrow> (\<exists>r. p = G_Send r \<and> out = [r] \<and> room))"
proof (cases p)
  case G_Exec
  obtain fn where fn: "Get (fc_registry C) i = Some fn" using reg by auto
  show ?thesis
  proof (cases "fn (i_env inp) (fc_req C)")
    case (Inl err)
    with st fn G_Exec show ?thesis by auto
  next
    case (Inr r)
    with st fn G_Exec producedI(2) [OF fn Inr] show ?thesis by auto
  qed
qed (use st ok in \<open>auto split: if_splits\<close>)

section \<open>One move of the monitor\<close>

lemma select_loop_append: "select_loop ex (xs @ ys) best = select_loop ex ys (select_loop ex xs best)"
  by (induction ex xs best rule: select_loop.induct) simp_all

abbreviation others :: "string \<Rightarrow> hedgeCarrier list \<Rightarrow> hedgeCarrier list" where
  "others i hs \<equiv> filter (\<lambda>h. c_ID (h_carrier h) \<noteq> i) hs"

text \<open>
  What the monitor knows: only eligible carriers are visited; while it chooses a candidate, the
  slow carrier is due and not yet hedged, and \<^verbatim>\<open>best\<close> is the choice among the states read.
\<close>
fun mon_ok :: "('l, 'env, 'ctx) fan_cfg \<Rightarrow> string list \<Rightarrow> mon_pc \<Rightarrow> bool" where
  "mon_ok C hedged (M_Scan is r t) = (set is \<subseteq> ids C)"
| "mon_ok C hedged (M_Select rest now i todo seen best) =
     (set rest \<subseteq> ids C \<and> i \<in> ids C \<and> i \<notin> set hedged \<and> (\<exists>p. fc_pending C i = Some p \<and> due now p)
      \<and> set todo \<subseteq> set (fc_hedgeable C) \<and> map fst seen @ others i todo = others i (fc_hedgeable C)
      \<and> best = select_loop i seen None)"
| "mon_ok C hedged M_Panic = False"
| "mon_ok C hedged _ = True"

text \<open>The monitor's distance to its next wait, with \<open>m\<close> candidates.\<close>
fun mon_rank :: "nat \<Rightarrow> mon_pc \<Rightarrow> nat" where
  "mon_rank m M_Wait = 1"
| "mon_rank m (M_Scan is r t) = 2 + (m + 5) * length is"
| "mon_rank m (M_Select rest now i todo seen best) = 6 + (m + 5) * length rest + length todo"
| "mon_rank m _ = 0"

text \<open>The conditions under which a hedge is fired, and what firing it changes.\<close>
definition fires :: "('l, 'env, 'ctx) fan_cfg \<Rightarrow> instant \<Rightarrow> instant \<Rightarrow> string \<Rightarrow> hedgeCarrier
    \<Rightarrow> (hedgeCarrier \<times> CBState) list \<Rightarrow> 'l fan \<Rightarrow> 'l fan \<Rightarrow> bool" where
  "fires C now now' i c seen f f' \<longleftrightarrow> i \<notin> set (f_hedged f) \<and> i \<in> ids C
     \<and> (\<exists>p. fc_pending C i = Some p \<and> due now p)
     \<and> map fst seen = others i (fc_hedgeable C) \<and> selectHedgeCandidate i seen = Some c
     \<and> (\<exists>rest. f_mon f = M_Select rest now i [] seen (Some c))
     \<and> (let j = c_ID (h_carrier c)
        in j \<in> ids C \<and> j \<noteq> i \<and> Get (fc_registry C) j \<noteq> None
          \<and> (\<exists>st. (c, st) \<in> set seen \<and> st \<noteq> CBStateOpen)
          \<and> (\<exists>l l'. w_limiters (f_world f) j = Some l \<and> TryAcquire (fc_allow C) now' l = (True, l')
               \<and> f_world f' = emit [RecordHedge j i] (set_limiter j l' (f_world f)))
          \<and> f_hedged f' = i # f_hedged f
          \<and> f_hedges f' = f_hedges f @ [\<lparr>g_trigger = i, g_carrier = j, g_pc = G_Exec\<rparr>])"

lemma scan_one_ok:
  assumes "mon_ok C (f_hedged f) (M_Scan (i # rest) res now)"
  shows "mon_ok C (f_hedged f) (scan_one C i rest res now f)"
    and "mon_rank (length (fc_hedgeable C)) (scan_one C i rest res now f)
      < mon_rank (length (fc_hedgeable C)) (M_Scan (i # rest) res now)"
  using assms by (auto simp: scan_one_def split: option.splits)

lemma select_one_ok:
  assumes ok: "mon_ok C hedged (M_Select rest now i (h # todo) seen best)" and wf: "cfg_wf C" and w: "wired C w"
  shows "mon_ok C hedged (select_one rest now i h todo seen best w)"
    and "mon_rank m (select_one rest now i h todo seen best w) < mon_rank m (M_Select rest now i (h # todo) seen best)"
proof -
  have "c_ID (h_carrier h) \<in> ids C" using ok wf by (auto simp: cfg_wf_def)
  then obtain b where b: "w_breakers w (c_ID (h_carrier h)) = Some b" using wired_at(1) [OF w] by auto
  show "mon_ok C hedged (select_one rest now i h todo seen best w)"
    using ok b by (auto simp: select_one_def select_loop_append simp del: select_loop.simps)
  show "mon_rank m (select_one rest now i h todo seen best w) < mon_rank m (M_Select rest now i (h # todo) seen best)"
    using b by (simp add: select_one_def)
qed

lemma acquire_hedge_cases [consumes 4, case_names quiet fire]:
  assumes mon: "f_mon f = M_Select rest now i [] seen best" and ok: "mon_ok C (f_hedged f) (f_mon f)"
    and wf: "cfg_wf C" and w: "wired C (f_world f)"
  obtains (quiet) w' where "acquire_hedge C now' rest now i best f = f\<lparr>f_mon := M_Scan rest False now, f_world := w'\<rparr>"
      "same_dom (f_world f) w'" "w' = f_world f \<or> (\<exists>j l. w' = set_limiter j l (f_world f))"
  | (fire) c w' where "acquire_hedge C now' rest now i best f = f\<lparr>f_mon := M_Scan rest False now, f_world := w',
        f_hedged := i # f_hedged f,
        f_hedges := f_hedges f @ [\<lparr>g_trigger = i, g_carrier = c_ID (h_carrier c), g_pc = G_Exec\<rparr>]\<rparr>"
      "same_dom (f_world f) w'" "fires C now now' i c seen f (acquire_hedge C now' rest now i best f)"
proof (cases best)
  case None
  then show thesis using quiet [of "f_world f"] by (simp add: acquire_hedge_def Let_def)
next
  case (Some c)
  let ?w = "f_world f"
  let ?j = "c_ID (h_carrier c)"
  have sel: "select_loop i seen None = Some c" and seen: "map fst seen = others i (fc_hedgeable C)"
    using ok mon Some by auto
  obtain x where x: "x \<in> set seen" "fst x = c" "candidate i x" using select_loop_in [OF sel] by auto
  then have st: "(c, snd x) \<in> set seen" "snd x \<noteq> CBStateOpen" "?j \<noteq> i" by (auto simp: candidate_def)
  have "c \<in> set (map fst seen)" using x by auto
  then have j: "?j \<in> ids C" "Get (fc_registry C) ?j \<noteq> None" using wf by (auto simp: seen cfg_wf_def)
  obtain l where l: "w_limiters ?w ?j = Some l" using wired_at(2) [OF w j(1)] by auto
  obtain got l' where t: "TryAcquire (fc_allow C) now' l = (got, l')" by (cases "TryAcquire (fc_allow C) now' l")
  note eq = acquire_hedge_def Let_def Some l t
  show thesis
  proof (cases got)
    case False
    then show thesis using quiet [of "set_limiter ?j l' ?w"] l by (auto simp: eq)
  next
    case True
    have f': "acquire_hedge C now' rest now i best f = f\<lparr>f_mon := M_Scan rest False now,
        f_world := emit [RecordHedge ?j i] (set_limiter ?j l' ?w), f_hedged := i # f_hedged f,
        f_hedges := f_hedges f @ [\<lparr>g_trigger = i, g_carrier = ?j, g_pc = G_Exec\<rparr>]\<rparr>"
      using True by (simp add: eq)
    have "fires C now now' i c seen f (acquire_hedge C now' rest now i best f)"
      unfolding fires_def Let_def f' using ok mon Some sel seen st j l t True
      by (auto simp: selectHedgeCandidate_def)
    with f' fire l show thesis by simp
  qed
qed

text \<open>A move of a healthy monitor leaves everything but a limiter alone, or fires a hedge.\<close>
lemma scan_cases [consumes 4, case_names quiet fire]:
  assumes st: "fan_step C (Scan now') f = Some f'" and ok: "mon_ok C (f_hedged f) (f_mon f)"
    and wf: "cfg_wf C" and w: "wired C (f_world f)"
  obtains (quiet) m' w' where "f' = f\<lparr>f_mon := m', f_world := w'\<rparr>" "f_mon f \<noteq> M_Exit" "mon_ok C (f_hedged f) m'"
      "mon_rank (length (fc_hedgeable C)) m' < mon_rank (length (fc_hedgeable C)) (f_mon f)"
      "same_dom (f_world f) w'" "w' = f_world f \<or> (\<exists>j l. w' = set_limiter j l (f_world f))"
  | (fire) i c w' rest now seen where "f' = f\<lparr>f_mon := M_Scan rest False now, f_world := w', f_hedged := i # f_hedged f,
        f_hedges := f_hedges f @ [\<lparr>g_trigger = i, g_carrier = c_ID (h_carrier c), g_pc = G_Exec\<rparr>]\<rparr>"
      "f_mon f \<noteq> M_Exit" "set rest \<subseteq> ids C"
      "mon_rank (length (fc_hedgeable C)) (M_Scan rest False now) + 3 < mon_rank (length (fc_hedgeable C)) (f_mon f)"
      "same_dom (f_world f) w'" "fires C now now' i c seen f f'"
proof (cases "f_mon f")
  case mon: (M_Scan js res now)
  show thesis
  proof (cases js)
    case Nil
    then show thesis using quiet [where m' = "if res then M_Exit else M_Wait" and w' = "f_world f"] st mon by auto
  next
    case (Cons i rest)
    with ok mon have "mon_ok C (f_hedged f) (M_Scan (i # rest) res now)" by simp
    from scan_one_ok [OF this] show thesis
      using quiet [where m' = "scan_one C i rest res now f" and w' = "f_world f"] st mon Cons by auto
  qed
next
  case mon: (M_Select rest now i todo seen best)
  show thesis
  proof (cases todo)
    case (Cons h hs)
    with ok mon have "mon_ok C (f_hedged f) (M_Select rest now i (h # hs) seen best)" by simp
    from select_one_ok [OF this wf w] show thesis
      using quiet [where m' = "select_one rest now i h hs seen best (f_world f)" and w' = "f_world f"] st mon Cons by auto
  next
    case Nil
    have f': "f' = acquire_hedge C now' rest now i best f" using st mon Nil by simp
    have rest: "set rest \<subseteq> ids C" using ok mon by simp
    from mon [unfolded Nil] ok wf w show thesis
    proof (cases rule: acquire_hedge_cases [where now' = now'])
      case (quiet w')
      with f' rest mon Nil show thesis by (intro that(1) [where m' = "M_Scan rest False now" and w' = w']) auto
    next
      case (fire c w')
      with f' rest mon Nil show thesis by (intro that(2) [where rest = rest and now = now and w' = w' and i = i and c = c and seen = seen]) auto
    qed
  qed
qed (use st in auto)

section \<open>The invariant of every interleaving\<close>

text \<open>Everybody is healthy, and each carrier triggered at most one hedge.\<close>
definition base_inv :: "('l, 'env, 'ctx) fan_cfg \<Rightarrow> 'l fan \<Rightarrow> bool" where
  "base_inv C f \<longleftrightarrow> length (f_prims f) = length (fc_eligible C)
     \<and> (\<forall>k < length (f_prims f). prim_ok C (c_ID (fc_eligible C ! k)) (f_prims f ! k))
     \<and> mon_ok C (f_hedged f) (f_mon f)
     \<and> distinct (f_hedged f) \<and> set (f_hedged f) \<subseteq> ids C \<and> map g_trigger (f_hedges f) = rev (f_hedged f)
     \<and> list_all (hedge_ok C) (f_hedges f) \<and> wired C (f_world f)"

text \<open>The channel is closed only after every sender has returned.\<close>
definition close_inv :: "'l fan \<Rightarrow> bool" where
  "close_inv f \<longleftrightarrow> (f_closer f \<noteq> K_Wait \<longrightarrow> list_all (\<lambda>p. p = P_Done) (f_prims f))
     \<and> (f_closer f = K_Closed \<longrightarrow> f_mon f = M_Exit \<and> list_all (\<lambda>h. g_pc h = G_Done) (f_hedges f))"

text \<open>Sends done plus sends still possible are at most one per goroutine.\<close>
definition send_inv :: "('l, 'env, 'ctx) fan_cfg \<Rightarrow> 'l fan \<Rightarrow> bool" where
  "send_inv C f \<longleftrightarrow> length (f_sent f) + count_pc may_send (f_prims f)
     + count_pc (\<lambda>h. hedge_may (g_pc h)) (f_hedges f) \<le> length (fc_eligible C) + length (f_hedges f)"

definition data_inv :: "('l, 'env, 'ctx) fan_cfg \<Rightarrow> 'l fan \<Rightarrow> bool" where
  "data_inv C f \<longleftrightarrow> (\<exists>rcv. f_sent f = rcv @ f_buf f \<and> f_collected f = fold collect rcv [])
     \<and> list_all (\<lambda>r. \<exists>i \<in> ids C. \<exists>hedged. produced C i hedged r) (f_sent f)"

definition fan_inv :: "('l, 'env, 'ctx) fan_cfg \<Rightarrow> 'l fan \<Rightarrow> bool" where
  "fan_inv C f \<longleftrightarrow> base_inv C f \<and> close_inv f \<and> send_inv C f \<and> data_inv C f"

lemmas fan_inv_defs = fan_inv_def base_inv_def close_inv_def send_inv_def data_inv_def

lemma mon_healthy: "base_inv C f \<Longrightarrow> f_mon f \<noteq> M_Panic"
  by (auto simp: base_inv_def)

lemma card_ids: "card (ids C) \<le> length (fc_eligible C)"
  by (metis card_length ids_def length_map)

lemma hedges_bound:
  assumes "base_inv C f"
  shows "length (f_hedges f) \<le> length (fc_eligible C)"
proof -
  have "length (f_hedges f) = card (set (f_hedged f))"
    using assms by (metis base_inv_def distinct_card length_map length_rev)
  also have "\<dots> \<le> card (ids C)" using assms by (auto simp: base_inv_def ids_def intro: card_mono)
  finally show ?thesis using card_ids [of C] by linarith
qed

text \<open>Whoever may still send finds room in the channel.\<close>
lemma channel_room:
  assumes "fan_inv C f"
    and "0 < count_pc may_send (f_prims f) + count_pc (\<lambda>h. hedge_may (g_pc h)) (f_hedges f)"
  shows "length (f_buf f) < chan_cap C"
proof -
  have "length (f_buf f) \<le> length (f_sent f)" using assms(1) by (auto simp: fan_inv_defs)
  moreover have "length (f_hedges f) \<le> length (fc_eligible C)"
    using assms(1) hedges_bound fan_inv_def by blast
  moreover have "send_inv C f" using assms(1) by (simp add: fan_inv_def)
  ultimately show ?thesis using assms(2) unfolding send_inv_def chan_cap_def by linarith
qed

lemma fan_inv_init: "wired C w \<Longrightarrow> fan_inv C (fan_init C w)"
  by (auto simp: fan_inv_defs fan_init_def filter_replicate)

lemma produced_data:
  assumes "data_inv C f" "list_all (produced C i hedged) out" "i \<in> ids C"
    and "f_sent f' = f_sent f @ out" "f_buf f' = f_buf f @ out" "f_collected f' = f_collected f"
  shows "data_inv C f'"
  using assms by (auto simp: data_inv_def list_all_iff)

lemma eligible_id: "k < length (fc_eligible C) \<Longrightarrow> c_ID (fc_eligible C ! k) \<in> ids C"
  by (auto simp: ids_def)

text \<open>A move of a primary, seen from outside.\<close>
lemma prim_move_cases:
  assumes mv: "prim_move C k inp f = Some f'" and inv: "fan_inv C f"
  obtains p w out where
    "k < length (f_prims f)" "c_ID (fc_eligible C ! k) \<in> ids C"
    "prim_step C inp (gctx_done f) (send_ready C f) (c_ID (fc_eligible C ! k)) (f_prims f ! k) (f_world f)
       = Some (p, w, out)"
    "f' = f\<lparr>f_prims := (f_prims f)[k := p], f_world := w, f_buf := f_buf f @ out, f_sent := f_sent f @ out\<rparr>"
    "f_closer f = K_Wait" "prim_ok C (c_ID (fc_eligible C ! k)) (f_prims f ! k)" "wired C (f_world f)"
proof -
  have k: "k < length (f_prims f)" and k': "k < length (fc_eligible C)" using mv by (auto simp: prim_move_def split: if_splits)
  let ?i = "c_ID (fc_eligible C ! k)"
  obtain p w out where st: "prim_step C inp (gctx_done f) (send_ready C f) ?i (f_prims f ! k) (f_world f)
      = Some (p, w, out)" using mv by (auto simp: prim_move_def split: if_splits option.splits)
  have ok: "prim_ok C ?i (f_prims f ! k)" "wired C (f_world f)" using inv k by (auto simp: fan_inv_defs)
  have "f_prims f ! k \<noteq> P_Done" using prim_step_facts [OF st ok eligible_id [OF k']] by blast
  then have wait: "f_closer f = K_Wait" using inv k by (auto simp: fan_inv_defs list_all_length)
  then have "f' = f\<lparr>f_prims := (f_prims f)[k := p], f_world := w, f_buf := f_buf f @ out, f_sent := f_sent f @ out\<rparr>"
    using mv st k k' by (simp add: prim_move_def)
  with that k st eligible_id [OF k'] wait ok show ?thesis by blast
qed

lemma prim_move_inv:
  assumes mv: "prim_move C k inp f = Some f'" and inv: "fan_inv C f"
  shows "fan_inv C f'"
  using mv inv
proof (rule prim_move_cases)
  fix p w out
  let ?i = "c_ID (fc_eligible C ! k)"
  assume k: "k < length (f_prims f)" and i: "?i \<in> ids C"
    and st: "prim_step C inp (gctx_done f) (send_ready C f) ?i (f_prims f ! k) (f_world f) = Some (p, w, out)"
    and f': "f' = f\<lparr>f_prims := (f_prims f)[k := p], f_world := w, f_buf := f_buf f @ out, f_sent := f_sent f @ out\<rparr>"
    and wait: "f_closer f = K_Wait" and ok: "prim_ok C ?i (f_prims f ! k)" "wired C (f_world f)"
  note facts = prim_step_facts [OF st ok i]
  have "prim_ok C (c_ID (fc_eligible C ! m)) ((f_prims f)[k := p] ! m)" if "m < length (f_prims f)" for m
    using that inv facts k by (cases "m = k") (auto simp: fan_inv_def base_inv_def)
  then have "base_inv C f'" using inv facts wired_same_dom [OF _ ok(2), of w]
    by (simp add: fan_inv_def base_inv_def f')
  moreover have "close_inv f'" using wait by (simp add: close_inv_def f')
  moreover have "send_inv C f'" using inv facts count_pc_update [OF k, of may_send p]
    by (auto simp: fan_inv_def send_inv_def f' split: if_splits)
  moreover have "data_inv C f'"
    by (rule produced_data [where f = f and i = ?i and hedged = False and out = out])
       (use inv facts i in \<open>auto simp: fan_inv_def f'\<close>)
  ultimately show ?thesis by (simp add: fan_inv_def)
qed

lemma hedge_move_cases:
  assumes mv: "hedge_move C k inp f = Some f'" and inv: "fan_inv C f"
  obtains h p out where
    "k < length (f_hedges f)" "f_hedges f ! k = h" "hedge_ok C h"
    "hedge_step C inp (gctx_done f) (send_ready C f) (g_carrier h) (g_pc h) = Some (p, out)"
    "f' = f\<lparr>f_hedges := (f_hedges f)[k := h\<lparr>g_pc := p\<rparr>], f_buf := f_buf f @ out, f_sent := f_sent f @ out\<rparr>"
    "f_closer f \<noteq> K_Closed"
proof -
  let ?h = "f_hedges f ! k"
  have k: "k < length (f_hedges f)" using mv by (auto simp: hedge_move_def split: if_splits)
  obtain p out where st: "hedge_step C inp (gctx_done f) (send_ready C f) (g_carrier ?h) (g_pc ?h) = Some (p, out)"
    using mv by (auto simp: hedge_move_def Let_def split: if_splits option.splits)
  have ok: "hedge_ok C ?h" using inv k by (auto simp: fan_inv_defs list_all_length)
  then have "g_pc ?h \<noteq> G_Done" using hedge_step_facts [OF st] by (auto simp: hedge_ok_def)
  then have wait: "f_closer f \<noteq> K_Closed" using inv k by (auto simp: fan_inv_defs list_all_length)
  then have "f' = f\<lparr>f_hedges := (f_hedges f)[k := ?h\<lparr>g_pc := p\<rparr>], f_buf := f_buf f @ out, f_sent := f_sent f @ out\<rparr>"
    using mv st k by (simp add: hedge_move_def Let_def)
  with that k st wait ok show ?thesis by blast
qed

lemma hedge_move_inv:
  assumes mv: "hedge_move C k inp f = Some f'" and inv: "fan_inv C f"
  shows "fan_inv C f'"
  using mv inv
proof (rule hedge_move_cases)
  fix h p out
  assume k: "k < length (f_hedges f)" and h: "f_hedges f ! k = h" and ok: "hedge_ok C h"
    and st: "hedge_step C inp (gctx_done f) (send_ready C f) (g_carrier h) (g_pc h) = Some (p, out)"
    and f': "f' = f\<lparr>f_hedges := (f_hedges f)[k := h\<lparr>g_pc := p\<rparr>], f_buf := f_buf f @ out, f_sent := f_sent f @ out\<rparr>"
    and wait: "f_closer f \<noteq> K_Closed"
  have facts: "hedge_pc_ok C (g_carrier h) p" "list_all (produced C (g_carrier h) True) out"
      "length out + of_bool (hedge_may p) \<le> (of_bool (hedge_may (g_pc h)) :: nat)"
    using hedge_step_facts [OF st] ok by (auto simp: hedge_ok_def)
  have trig: "map g_trigger ((f_hedges f)[k := h\<lparr>g_pc := p\<rparr>]) = map g_trigger (f_hedges f)"
    using k h by (simp add: map_update list_update_same_conv)
  have "hedge_ok C (h\<lparr>g_pc := p\<rparr>)" using ok facts by (simp add: hedge_ok_def)
  then have "list_all (hedge_ok C) ((f_hedges f)[k := h\<lparr>g_pc := p\<rparr>])"
    using inv set_update_subset_insert [of "f_hedges f" k] by (fastforce simp: fan_inv_defs list_all_iff)
  with trig have "base_inv C f'" using inv by (simp add: fan_inv_def base_inv_def f')
  moreover have "close_inv f'" using inv wait by (simp add: fan_inv_def close_inv_def f')
  moreover have "send_inv C f'"
    using inv facts(3) h count_pc_update [OF k, of "\<lambda>h. hedge_may (g_pc h)" "h\<lparr>g_pc := p\<rparr>"]
    by (auto simp: fan_inv_def send_inv_def f' split: if_splits)
  moreover have "data_inv C f'"
    by (rule produced_data [where f = f and i = "g_carrier h" and hedged = True and out = out])
       (use inv facts ok in \<open>auto simp: fan_inv_def hedge_ok_def f'\<close>)
  ultimately show ?thesis by (simp add: fan_inv_def)
qed

lemma scan_inv:
  assumes inv: "fan_inv C f" and wf: "cfg_wf C" and st: "fan_step C (Scan now') f = Some f'"
  shows "fan_inv C f'"
proof -
  have w: "wired C (f_world f)" and ok: "mon_ok C (f_hedged f) (f_mon f)" using inv by (auto simp: fan_inv_defs)
  from st ok wf w show ?thesis
  proof (cases rule: scan_cases)
    case (quiet m' w')
    with inv wired_same_dom [OF quiet(5) w] show ?thesis by (simp add: fan_inv_defs)
  next
    case (fire i c w' rest now seen)
    let ?j = "c_ID (h_carrier c)"
    have j: "?j \<in> ids C" "?j \<noteq> i" "Get (fc_registry C) ?j \<noteq> None" "i \<notin> set (f_hedged f)" "i \<in> ids C"
      using fire(6) by (auto simp: fires_def Let_def)
    then have ok: "hedge_ok C \<lparr>g_trigger = i, g_carrier = ?j, g_pc = G_Exec\<rparr>" by (simp add: hedge_ok_def)
    note mine = inv [unfolded fan_inv_defs] fire(2,3) wired_same_dom [OF fire(5) w]
    have "base_inv C f'" "close_inv f'" "send_inv C f'"
      unfolding fire(1) base_inv_def close_inv_def send_inv_def using mine j ok by auto
    moreover have "data_inv C f'" using inv by (simp add: fire(1) fan_inv_def data_inv_def)
    ultimately show ?thesis by (simp add: fan_inv_def)
  qed
qed

lemma recv_data:
  assumes "data_inv C f" "f_buf f = r # rs"
  shows "data_inv C (f\<lparr>f_buf := rs, f_collected := collect r (f_collected f)\<rparr>)"
proof -
  obtain rcv where "f_sent f = rcv @ r # rs" "f_collected f = fold collect rcv []"
    using assms by (auto simp: data_inv_def)
  then have "f_sent f = (rcv @ [r]) @ rs \<and> collect r (f_collected f) = fold collect (rcv @ [r]) []" by simp
  with assms(1) show ?thesis unfolding data_inv_def by auto
qed

lemma fan_step_inv:
  assumes st: "fan_step C l f = Some f'" and inv: "fan_inv C f" and wf: "cfg_wf C"
  shows "fan_inv C f'"
proof (cases l)
  case (Scan now')
  with st scan_inv [OF inv wf] show ?thesis by simp
next
  case Recv
  with st obtain r rs where r: "f_buf f = r # rs" by (auto split: list.splits)
  have "data_inv C f" using inv by (simp add: fan_inv_def)
  from recv_data [OF this r] st inv r Recv show ?thesis
    by (auto simp: fan_inv_def base_inv_def close_inv_def send_inv_def)
next
  case (Other i b l t evs)
  with st inv wired_same_dom [OF same_dom_interfere [of "f_world f"], of C] show ?thesis
    by (auto simp: fan_inv_defs)
next
  case (Tick now order)
  with st inv show ?thesis by (auto simp: fan_inv_defs ids_def split: if_splits)
next
  case Close
  with st inv show ?thesis by (auto simp: fan_inv_defs close_move_def split: close_pc.splits if_splits)
next
  case MonDone
  with st inv show ?thesis by (auto simp: fan_inv_defs split: if_splits)
next
  case (Prim k inp)
  with st prim_move_inv [OF _ inv] show ?thesis by simp
next
  case (Hedge k inp)
  with st hedge_move_inv [OF _ inv] show ?thesis by simp
next
  case (Deadline now)
  with st inv show ?thesis by (auto simp: fan_inv_defs split: if_splits)
next
  case Cancel
  with st inv show ?thesis by (auto simp: fan_inv_defs split: if_splits)
qed

lemma fan_reach_inv:
  assumes "fan_reach C w f" "cfg_wf C" "wired C w"
  shows "fan_inv C f"
  using assms(1) by induction (use assms(2,3) fan_inv_init fan_step_inv in \<open>blast+\<close>)

section \<open>Progress\<close>

text \<open>The moves the fan-out itself makes: not the clock, the deadline or other requests.\<close>
fun progress :: "('l, 'env, 'ctx) fan_label \<Rightarrow> bool" where
  "progress (Tick now order) = False"
| "progress (Deadline now) = False"
| "progress Cancel = False"
| "progress (Other i b l t evs) = False"
| "progress _ = True"

fun close_rank :: "close_pc \<Rightarrow> nat" where
  "close_rank K_Wait = 2"
| "close_rank K_Drain = 1"
| "close_rank K_Closed = 0"

definition fan_rank :: "('l, 'env, 'ctx) fan_cfg \<Rightarrow> 'l fan \<Rightarrow> nat" where
  "fan_rank C f = sum_list (map prim_rank (f_prims f)) + sum_list (map (\<lambda>h. hedge_rank (g_pc h)) (f_hedges f))
     + mon_rank (length (fc_hedgeable C)) (f_mon f) + close_rank (f_closer f) + length (f_buf f)"

lemma prim_move_rank:
  assumes mv: "prim_move C k inp f = Some f'" and inv: "fan_inv C f"
  shows "fan_rank C f' < fan_rank C f"
  using mv inv
proof (rule prim_move_cases)
  fix p w out
  let ?i = "c_ID (fc_eligible C ! k)"
  assume k: "k < length (f_prims f)" and i: "?i \<in> ids C"
    and st: "prim_step C inp (gctx_done f) (send_ready C f) ?i (f_prims f ! k) (f_world f) = Some (p, w, out)"
    and f': "f' = f\<lparr>f_prims := (f_prims f)[k := p], f_world := w, f_buf := f_buf f @ out, f_sent := f_sent f @ out\<rparr>"
    and ok: "prim_ok C ?i (f_prims f ! k)" "wired C (f_world f)"
  have "prim_rank p + length out < prim_rank (f_prims f ! k)" using prim_step_facts [OF st ok i] by blast
  with sum_list_update_nat [OF k, of prim_rank p] show ?thesis by (simp add: fan_rank_def f')
qed

lemma hedge_move_rank:
  assumes mv: "hedge_move C k inp f = Some f'" and inv: "fan_inv C f"
  shows "fan_rank C f' < fan_rank C f"
  using mv inv
proof (rule hedge_move_cases)
  fix h p out
  assume k: "k < length (f_hedges f)" and h: "f_hedges f ! k = h" and ok: "hedge_ok C h"
    and st: "hedge_step C inp (gctx_done f) (send_ready C f) (g_carrier h) (g_pc h) = Some (p, out)"
    and f': "f' = f\<lparr>f_hedges := (f_hedges f)[k := h\<lparr>g_pc := p\<rparr>], f_buf := f_buf f @ out, f_sent := f_sent f @ out\<rparr>"
  have "hedge_rank p + length out < hedge_rank (g_pc h)"
    using hedge_step_facts [OF st] ok by (auto simp: hedge_ok_def)
  with sum_list_update_nat [OF k, of "\<lambda>h. hedge_rank (g_pc h)" "h\<lparr>g_pc := p\<rparr>"] h show ?thesis
    by (simp add: fan_rank_def f')
qed

lemma fan_step_rank:
  assumes st: "fan_step C l f = Some f'" and inv: "fan_inv C f" and wf: "cfg_wf C" and p: "progress l"
  shows "fan_rank C f' < fan_rank C f"
proof (cases l)
  case (Scan now')
  have w: "wired C (f_world f)" and ok: "mon_ok C (f_hedged f) (f_mon f)" using inv by (auto simp: fan_inv_defs)
  from st [unfolded Scan] ok wf w show ?thesis
    by (cases rule: scan_cases) (simp_all add: fan_rank_def)
next
  case Close
  with st show ?thesis by (auto simp: close_move_def fan_rank_def split: close_pc.splits if_splits)
qed (use st p prim_move_rank [OF _ inv] hedge_move_rank [OF _ inv] in
      \<open>auto simp: fan_rank_def split: if_splits list.splits\<close>)

lemma prim_enabled:
  assumes "prim_ok C i p" "wired C w" "i \<in> ids C" "p \<noteq> P_Done" "\<not> i_drop inp"
    and "may_send p \<Longrightarrow> room"
  shows "\<exists>res. prim_step C inp d room i p w = Some res"
proof (cases "\<exists>pc t r. p = P_Send pc t r")
  case True
  then show ?thesis using assms wired_at(1) [OF assms(2,3)]
    by (auto split: prod.splits)
next
  case False
  then show ?thesis using assms(1,4)
    by (cases p) (auto split: option.splits sum.splits prod.splits if_splits)
qed

lemma hedge_enabled:
  assumes "hedge_pc_ok C i p" "p \<noteq> G_Done" "\<not> i_drop inp" "hedge_may p \<Longrightarrow> room"
  shows "\<exists>res. hedge_step C inp d room i p = Some res"
  using assms by (cases p) (auto split: option.splits sum.splits)

definition some_inp :: "'env \<Rightarrow> 'ctx \<Rightarrow> ('env, 'ctx) inp" where
  "some_inp env ctx = \<lparr>i_now = 0, i_env = env, i_ctx = ctx, i_drop = False\<rparr>"

lemma prim_move_enabled:
  assumes inv: "fan_inv C f" and k: "k < length (f_prims f)" and p: "f_prims f ! k \<noteq> P_Done"
  shows "\<exists>f'. prim_move C k (some_inp env ctx) f = Some f'"
proof -
  let ?i = "c_ID (fc_eligible C ! k)"
  have k': "k < length (fc_eligible C)" and ok: "prim_ok C ?i (f_prims f ! k)" and w: "wired C (f_world f)"
    using inv k by (auto simp: fan_inv_defs)
  have "send_ready C f" if "may_send (f_prims f ! k)"
    using channel_room [OF inv] count_pc_pos [OF k, of may_send] that by (simp add: send_ready_def)
  then obtain res where "prim_step C (some_inp env ctx) (gctx_done f) (send_ready C f) ?i (f_prims f ! k) (f_world f)
      = Some res"
    using prim_enabled [OF ok w eligible_id [OF k'] p, of "some_inp env ctx" "send_ready C f" "gctx_done f"]
    by (simp add: some_inp_def) blast
  with k k' show ?thesis by (cases res) (simp add: prim_move_def)
qed

lemma hedge_move_enabled:
  assumes inv: "fan_inv C f" and k: "k < length (f_hedges f)" and p: "g_pc (f_hedges f ! k) \<noteq> G_Done"
  shows "\<exists>f'. hedge_move C k (some_inp env ctx) f = Some f'"
proof -
  let ?h = "f_hedges f ! k"
  have ok: "hedge_pc_ok C (g_carrier ?h) (g_pc ?h)" using inv k by (auto simp: fan_inv_defs hedge_ok_def list_all_length)
  have "send_ready C f" if "hedge_may (g_pc ?h)"
    using channel_room [OF inv] count_pc_pos [OF k, of "\<lambda>h. hedge_may (g_pc h)"] that by (simp add: send_ready_def)
  then obtain res where "hedge_step C (some_inp env ctx) (gctx_done f) (send_ready C f) (g_carrier ?h) (g_pc ?h) = Some res"
    using hedge_enabled [OF ok p, of "some_inp env ctx" "send_ready C f" "gctx_done f"]
    by (simp add: some_inp_def) blast
  with k show ?thesis by (cases res) (simp add: hedge_move_def Let_def)
qed

text \<open>An unfinished fan-out can always move by itself.\<close>
lemma fan_not_stuck:
  assumes inv: "fan_inv C f" and unfinished: "\<not> finished f"
  shows "\<exists>l f'. progress l \<and> fan_step C l f = Some f'"
proof -
  have move: ?thesis if "progress l" "fan_step C l f \<noteq> None" for l using that by blast
  have prims: ?thesis if "\<not> list_all (\<lambda>p. p = P_Done) (f_prims f)"
    using that prim_move_enabled [OF inv] move [of "Prim _ (some_inp undefined undefined)"]
    by (fastforce simp: list_all_length)
  have hedges: ?thesis if "\<not> list_all (\<lambda>h. g_pc h = G_Done) (f_hedges f)"
    using that hedge_move_enabled [OF inv] move [of "Hedge _ (some_inp undefined undefined)"]
    by (fastforce simp: list_all_length)
  have mon: "f_mon f \<noteq> M_Panic" using inv mon_healthy by (auto simp: fan_inv_def)
  have scan: ?thesis if "f_mon f = M_Scan js r t" for js r t
    using move [of "Scan 0"] that by (cases js) auto
  have select: ?thesis if "f_mon f = M_Select rest now i todo seen best" for rest now i todo seen best
    using move [of "Scan 0"] that by (cases todo) auto
  show ?thesis
  proof (cases "f_closer f")
    case K_Wait
    then show ?thesis using prims move [of Close]
      by (cases "list_all (\<lambda>p. p = P_Done) (f_prims f)") (auto simp: close_move_def)
  next
    case K_Drain
    then show ?thesis using mon scan select hedges move [of MonDone] move [of Close]
      by (cases "f_mon f"; cases "list_all (\<lambda>h. g_pc h = G_Done) (f_hedges f)")
         (auto simp: close_move_def gctx_done_def)
  next
    case K_Closed
    then have "f_buf f \<noteq> []" using unfinished by (simp add: finished_def)
    then show ?thesis using move [of Recv] by (auto split: list.splits)
  qed
qed

lemma fan_completes_from:
  assumes "fan_inv C f" "cfg_wf C"
  shows "\<exists>ls f'. list_all progress ls \<and> length ls \<le> fan_rank C f \<and> fan_run C ls f = Some f' \<and> finished f'"
  using assms(1)
proof (induction "fan_rank C f" arbitrary: f rule: less_induct)
  case less
  show ?case
  proof (cases "finished f")
    case True
    then have "fan_run C [] f = Some f \<and> finished f" by simp
    then show ?thesis by (metis le0 list.pred_inject(1) list.size(3))
  next
    case False
    obtain l f1 where l: "progress l" "fan_step C l f = Some f1" using fan_not_stuck [OF less.prems False] by blast
    note rank = fan_step_rank [OF l(2) less.prems assms(2) l(1)]
    obtain ls f' where "list_all progress ls" "length ls \<le> fan_rank C f1" "fan_run C ls f1 = Some f'" "finished f'"
      using less.hyps [OF rank fan_step_inv [OF l(2) less.prems assms(2)]] by blast
    with l rank show ?thesis by (intro exI [of _ "l # ls"] exI [of _ f']) auto
  qed
qed

text \<open>Moves of the fan-out are paid for by its rank; only the ticker adds to it.\<close>
fun is_tick :: "('l, 'env, 'ctx) fan_label \<Rightarrow> bool" where
  "is_tick (Tick now order) = True"
| "is_tick _ = False"

lemma fan_step_cost:
  assumes st: "fan_step C l f = Some f'" and inv: "fan_inv C f" and wf: "cfg_wf C"
  shows "fan_rank C f' + of_bool (progress l)
    \<le> fan_rank C f + of_bool (is_tick l) * ((length (fc_hedgeable C) + 5) * length (fc_eligible C) + 1)"
proof (cases "progress l")
  case True
  with fan_step_rank [OF st inv wf] show ?thesis by simp
next
  case False
  show ?thesis
  proof (cases l)
    case (Tick now order)
    then have "distinct order" "set order = ids C" using st by (auto simp: ids_def split: if_splits)
    then have "length order = card (ids C)" using distinct_card [of order] by simp
    then have "length order \<le> length (fc_eligible C)" using card_ids [of C] by simp
    with Tick st show ?thesis by (auto simp: fan_rank_def split: if_splits)
  qed (use False st in \<open>auto simp: fan_rank_def split: if_splits\<close>)
qed

lemma fan_run_cost:
  assumes "fan_run C ls f = Some f'" "fan_inv C f" "cfg_wf C"
  shows "fan_inv C f' \<and> fan_rank C f' + count_pc progress ls
    \<le> fan_rank C f + count_pc is_tick ls * ((length (fc_hedgeable C) + 5) * length (fc_eligible C) + 1)"
  using assms(1,2)
proof (induction ls arbitrary: f)
  case (Cons l ls)
  then obtain f1 where st: "fan_step C l f = Some f1" and run: "fan_run C ls f1 = Some f'"
    by (auto split: option.splits)
  note inv = fan_step_inv [OF st Cons.prems(2) assms(3)]
  from Cons.IH [OF run inv] fan_step_cost [OF st Cons.prems(2) assms(3)] show ?case
    by (auto split: if_splits)
qed simp

lemma fan_run_reach: "fan_run C ls f = Some f' \<Longrightarrow> fan_reach C w f \<Longrightarrow> fan_reach C w f'"
  by (induction ls arbitrary: f) (auto split: option.splits intro: fan_more)

end
