(* ===== verification/Fan_Out_Props.thy ===== *)
theory Fan_Out_Props
  imports Fan_Out_Safety
begin

text \<open>
  What the invariants of \<open>Fan_Out_Safety\<close> say about a fan-out as the orchestrator starts it
  (\<open>fan_cfg_for\<close>), with a two-carrier example that runs to its end.
\<close>

section \<open>Collected results\<close>

lemma collect_ids: "set (map r_CarrierID (fold collect rs acc)) = set (map r_CarrierID acc) \<union> set (map r_CarrierID rs)"
  by (induction rs arbitrary: acc) (auto simp: collect_def)

lemma collect_distinct: "distinct (map r_CarrierID acc) \<Longrightarrow> distinct (map r_CarrierID (fold collect rs acc))"
  by (induction rs arbitrary: acc) (auto simp: collect_def)

lemma collect_subset: "set (fold collect rs acc) \<subseteq> set acc \<union> set rs"
proof (induction rs arbitrary: acc)
  case (Cons r rs)
  from Cons.IH [of "collect r acc"] show ?case by (auto simp: collect_def split: if_splits)
qed simp

text \<open>Which result represents a carrier: the first one that arrived.\<close>
lemma find_append: "List.find P (xs @ ys) = (case List.find P xs of None \<Rightarrow> List.find P ys | Some x \<Rightarrow> Some x)"
  by (induction xs) auto

lemma collect_first:
  "List.find (\<lambda>r. r_CarrierID r = i) (fold collect rs acc)
    = List.find (\<lambda>r. r_CarrierID r = i) (acc @ rs)"
proof (induction rs arbitrary: acc)
  case (Cons r rs)
  have "List.find (\<lambda>r. r_CarrierID r = i) (collect r acc @ rs) = List.find (\<lambda>r. r_CarrierID r = i) (acc @ r # rs)"
  proof (cases "List.find (\<lambda>r. r_CarrierID r = i) acc")
    case None
    then have "\<forall>x \<in> set acc. r_CarrierID x \<noteq> i" by (simp add: find_None_iff)
    with None show ?thesis by (auto simp: collect_def find_append)
  qed (simp add: collect_def find_append)
  with Cons.IH show ?case by simp
qed simp

lemma quote_key_inj:
  assumes "distinct (map r_CarrierID rs)"
  shows "inj_on quote_key (set rs)"
  using assms by (auto simp: distinct_map inj_on_def quote_key_def)

lemma sort_quotes_facts:
  "mset (sort_quotes rs) = mset rs" "sorted (map quote_key (sort_quotes rs))"
  by (simp_all add: sort_quotes_def)

text \<open>An unstable sort has no choice when every key occurs once.\<close>
lemma sort_quotes_unique:
  assumes "distinct (map r_CarrierID rs)" "mset rs' = mset rs" "sorted (map quote_key rs')"
  shows "rs' = sort_quotes rs"
proof (rule map_sorted_distinct_set_unique [of quote_key])
  have eq: "set rs' = set rs" "set (sort_quotes rs) = set rs"
    using assms(2) mset_eq_setD sort_quotes_facts(1) by blast+
  note inj = quote_key_inj [OF assms(1)]
  then show "inj_on quote_key (set rs' \<union> set (sort_quotes rs))" by (simp add: eq)
  have "distinct rs" using assms(1) by (simp add: distinct_map)
  then have "distinct rs'" "distinct (sort_quotes rs)"
    using assms(2) mset_eq_imp_distinct_iff sort_quotes_facts(1) by blast+
  with inj show "distinct (map quote_key rs')" "distinct (map quote_key (sort_quotes rs))"
    by (simp_all add: distinct_map eq)
  show "sorted (map quote_key rs')" "sorted (map quote_key (sort_quotes rs))" "set rs' = set (sort_quotes rs)"
    using assms(3) sort_quotes_facts(2) eq by simp_all
qed

lemma acquire_hedge_frame:
  "f_prims (acquire_hedge C now' rest now i best f) = f_prims f" "f_sent (acquire_hedge C now' rest now i best f) = f_sent f"
  "w_breakers (f_world (acquire_hedge C now' rest now i best f)) = w_breakers (f_world f)"
  by (auto simp: acquire_hedge_def Let_def emit_def set_limiter_def split: option.splits prod.splits bool.splits)

lemma scan_frame:
  assumes "fan_step C (Scan now') f = Some f'"
  shows "f_prims f' = f_prims f" "f_sent f' = f_sent f" "w_breakers (f_world f') = w_breakers (f_world f)"
  using assms by (auto simp: acquire_hedge_frame split: mon_pc.splits list.splits)

text \<open>The breaker states the monitor has read for the choice it is making.\<close>
fun reads :: "mon_pc \<Rightarrow> (hedgeCarrier \<times> CBState) list" where
  "reads (M_Select rest now i todo seen best) = seen"
| "reads _ = []"

lemma reads_scan_one [simp]: "reads (scan_one C i rest res now f) = []"
  by (simp add: scan_one_def split: option.splits)

lemma reads_true:
  assumes "fan_step C l f = Some f'"
  shows "reads (f_mon f') \<in> {[], reads (f_mon f)}
    \<or> (\<exists>h b. w_breakers (f_world f) (c_ID (h_carrier h)) = Some b \<and> reads (f_mon f') = reads (f_mon f) @ [(h, State b)])"
proof (cases l)
  case (Scan now')
  with assms show ?thesis
    by (auto simp: select_one_def acquire_hedge_def Let_def split: mon_pc.splits list.splits option.splits if_splits
        prod.splits bool.splits)
qed (use assms in \<open>auto simp: prim_move_def hedge_move_def close_move_def Let_def
       split: if_splits option.splits list.splits close_pc.splits\<close>)

section \<open>Starting from the orchestrator's wiring\<close>

text \<open>Every configured carrier has its breaker, its limiter and its tracker.\<close>
definition all_wired :: "Carrier list \<Rightarrow> 'l world \<Rightarrow> bool" where
  "all_wired carriers w \<longleftrightarrow> list_all (\<lambda>c. w_breakers w (c_ID c) \<noteq> None \<and> w_limiters w (c_ID c) \<noteq> None
     \<and> w_trackers w (c_ID c) \<noteq> None) carriers"

lemma fan_cfg_for_simps [simp]:
  "fc_eligible (fan_cfg_for wait allow reg carriers req starts deadline cancel v w) = filterEligibleCarriers carriers (seen_by (v_filter v) w) (q_CoverageLines req)"
  "fc_registry (fan_cfg_for wait allow reg carriers req starts deadline cancel v w) = reg"
  "fc_req (fan_cfg_for wait allow reg carriers req starts deadline cancel v w) = req"
  "fc_wait (fan_cfg_for wait allow reg carriers req starts deadline cancel v w) = wait"
  "fc_allow (fan_cfg_for wait allow reg carriers req starts deadline cancel v w) = allow"
  by (simp_all add: fan_cfg_for_def Let_def)

lemma all_wired_wired:
  assumes "all_wired carriers w"
  shows "wired (fan_cfg_for wait allow reg carriers req starts deadline cancel v w) w"
  using assms by (auto simp: all_wired_def wired_def ids_def filterEligibleCarriers_def list_all_iff)

lemma started_inv:
  assumes "all_wired carriers w"
    and "fan_reach (fan_cfg_for wait allow reg carriers req starts deadline cancel v w) w f"
  shows "fan_inv (fan_cfg_for wait allow reg carriers req starts deadline cancel v w) f"
  by (rule fan_reach_inv [OF assms(2) cfg_wf_fan_cfg_for all_wired_wired [OF assms(1)]])

section \<open>An example fan-out\<close>

text \<open>
  Two mock carriers, a token bucket that never refuses, and a schedule that runs both
  primaries one after the other, then closes and drains the channel.
\<close>
definition demo_carrier :: "string \<Rightarrow> Carrier" where
  "demo_carrier i = \<lparr>c_ID = i, c_Name = i, c_Capabilities = [''auto''], c_Config = demo_config\<rparr>"

definition demo_carriers :: "Carrier list" where
  "demo_carriers = [demo_carrier ''alpha'', demo_carrier ''gamma'']"

definition demo_cb :: CBConfig where
  "demo_cb = \<lparr>cb_FailureThreshold = 5, cb_SuccessThreshold = 2, cb_OpenTimeout = 30 * Second\<rparr>"

definition demo_world :: "unit world" where
  "demo_world = \<lparr>w_breakers = [''alpha'' \<mapsto> new_breaker ''alpha'' demo_cb, ''gamma'' \<mapsto> new_breaker ''gamma'' demo_cb],
     w_limiters = [''alpha'' \<mapsto> \<lparr>l_inner = (), l_carrierID = ''alpha''\<rparr>, ''gamma'' \<mapsto> \<lparr>l_inner = (), l_carrierID = ''gamma''\<rparr>],
     w_trackers = [''alpha'' \<mapsto> NewEMATracker ''alpha'' (100 * Millisecond) demo_config,
                   ''gamma'' \<mapsto> NewEMATracker ''gamma'' (100 * Millisecond) demo_config],
     w_trace = []\<rparr>"

definition demo_registry :: "mock_env Registry" where
  "demo_registry = Registry_Register ''alpha'' (RegisterMockCarrier NewAlpha)
     (Registry_Register ''gamma'' (RegisterMockCarrier NewGamma) NewRegistry)"

definition demo_request :: QuoteRequest where
  "demo_request = \<lparr>q_RequestID = ''r1'', q_ClientID = ''abcdefgh...'', q_CoverageLines = [''auto''],
     q_Timeout = 5 * Second\<rparr>"

definition demo_wait :: "unit \<Rightarrow> unit \<Rightarrow> go_error option \<times> unit" where
  "demo_wait l ctx = (None, l)"

definition demo_allow :: "unit \<Rightarrow> instant \<Rightarrow> bool \<times> unit" where
  "demo_allow l now = (True, l)"

text \<open>Nobody else runs while the fan-out looks at the carriers.\<close>
definition no_gaps :: "'l gaps" where
  "no_gaps = \<lparr>v_filter = (\<lambda>i. []), v_estimate = (\<lambda>i. []), v_threshold = (\<lambda>i. [])\<rparr>"

lemma no_gaps_seen [simp]:
  "seen_by (v_filter no_gaps) w = (\<lambda>i. w)" "seen_by (v_estimate no_gaps) w = (\<lambda>i. w)"
  "seen_by (v_threshold no_gaps) w = (\<lambda>i. w)"
  by (simp_all add: no_gaps_def seen_by_def fun_eq_iff)

definition demo_fan :: "(unit, mock_env, unit) fan_cfg" where
  "demo_fan = fan_cfg_for demo_wait demo_allow demo_registry demo_carriers demo_request (\<lambda>i. 0) (5 * Second) False no_gaps demo_world"

definition demo_inp :: "int \<Rightarrow> (mock_env, unit) inp" where
  "demo_inp premium = \<lparr>i_now = 0, i_env = \<lparr>me_jitter = 3, me_ctx = None, me_fail = Fin 1,
     me_premium = premium, me_now = 0\<rparr>, i_ctx = (), i_drop = False\<rparr>"

definition demo_labels :: "(unit, mock_env, unit) fan_label list" where
  "demo_labels = replicate 9 (Prim 0 (demo_inp 300)) @ replicate 9 (Prim 1 (demo_inp 200))
    @ [Close, MonDone, Close, Recv, Recv]"

definition demo_quote :: "string \<Rightarrow> int \<Rightarrow> QuoteResult" where
  "demo_quote i premium = \<lparr>r_RequestID = ''r1'', r_CarrierID = i,
     r_Premium = \<lparr>m_Amount = premium, m_Currency = ''USD''\<rparr>, r_ExpiresAt = 5 * Minute,
     r_CarrierRef = '''', r_Latency = 0, r_IsHedged = False\<rparr>"

lemma world_simps [simp]:
  "w_breakers (emit es w) = w_breakers w" "w_limiters (emit es w) = w_limiters w"
  "w_trackers (emit es w) = w_trackers w"
  "w_breakers (set_breaker i b w) = (w_breakers w)(i \<mapsto> b)" "w_limiters (set_breaker i b w) = w_limiters w"
  "w_trackers (set_breaker i b w) = w_trackers w"
  "w_breakers (set_limiter i l w) = w_breakers w" "w_limiters (set_limiter i l w) = (w_limiters w)(i \<mapsto> l)"
  "w_trackers (set_limiter i l w) = w_trackers w"
  "w_breakers (set_tracker i t w) = w_breakers w" "w_limiters (set_tracker i t w) = w_limiters w"
  "w_trackers (set_tracker i t w) = (w_trackers w)(i \<mapsto> t)"
  by (simp_all add: emit_def set_breaker_def set_limiter_def set_tracker_def)

lemmas demo_defs = demo_carriers_def demo_carrier_def demo_world_def demo_cb_def demo_request_def
  new_breaker_def New_Breaker_def

lemma demo_eligible: "filterEligibleCarriers demo_carriers (\<lambda>i. demo_world) (q_CoverageLines demo_request) = demo_carriers"
  by (simp add: filterEligibleCarriers_def breaker_open_def State_def cb_states demo_defs Let_def)

lemma demo_fan_simps:
  "fc_eligible demo_fan = demo_carriers" "fc_registry demo_fan = demo_registry" "fc_req demo_fan = demo_request"
  "fc_wait demo_fan = demo_wait" "fc_allow demo_fan = demo_allow"
  by (simp_all add: demo_fan_def demo_eligible)

lemma demo_wired: "all_wired demo_carriers demo_world"
  by (simp add: all_wired_def demo_defs)

lemmas demo_run_simps = prim_move_def demo_fan_simps demo_wait_def demo_defs demo_registry_def registry.lookup_register
  Wait_def demo_inp_def Let_def brk_advance_def breaker_states split_beta send_ready_def chan_cap_def
  RegisterMockCarrier_def Register_def mockAdapter_def MockCarrier_Call_def NewAlpha_def NewGamma_def
  NewMockCarrier_def wrap64_def time_Sub_def sat64_def int64_min_def int64_max_def duration_consts
  close_move_def finished_def collect_def gctx_done_def demo_quote_def

lemma demo_init:
  "fan_init demo_fan demo_world =
     \<lparr>f_world = demo_world, f_prims = [P_Start, P_Start], f_mon = M_Wait, f_hedged = [], f_hedges = [],
      f_buf = [], f_sent = [], f_closer = K_Wait, f_reqDone = False, f_collected = []\<rparr>"
  by (simp add: fan_init_def demo_fan_simps demo_carriers_def)

lemma demo_finishes:
  "map_option (\<lambda>f. (finished f, f_collected f, f_reqDone f)) (fan_run demo_fan demo_labels (fan_init demo_fan demo_world))
    = Some (True, [demo_quote ''alpha'' 50300, demo_quote ''gamma'' 50200], False)"
  unfolding demo_init demo_labels_def by (simp add: eval_nat_numeral) (simp add: demo_run_simps)

lemma demo_sending:
  "map_option (\<lambda>f. (f_prims f, f_reqDone f, fan_step demo_fan (Prim 0 (demo_inp 300)) f \<noteq> None))
     (fan_run demo_fan (take 6 demo_labels) (fan_init demo_fan demo_world))
    = Some ([P_Send C_Call 0 (demo_quote ''alpha'' 50300), P_Start], False, True)"
  unfolding demo_init demo_labels_def by (simp add: eval_nat_numeral) (simp add: demo_run_simps)

lemma demo_sending_run:
  obtains f f' pc t r where "fan_run demo_fan (take 6 demo_labels) (fan_init demo_fan demo_world) = Some f"
    "fan_step demo_fan (Prim 0 (demo_inp 300)) f = Some f'" "f_prims f ! 0 = P_Send pc t r"
    "0 < length (f_prims f)" "\<not> f_reqDone f"
  using demo_sending by (auto simp: map_option_eq_Some)

lemma demo_run:
  obtains f where "fan_run demo_fan demo_labels (fan_init demo_fan demo_world) = Some f" "finished f"
    "f_collected f = [demo_quote ''alpha'' 50300, demo_quote ''gamma'' 50200]" "\<not> f_reqDone f"
    "fan_reach demo_fan demo_world f"
  using demo_finishes fan_run_reach [OF _ fan_start, of demo_fan demo_labels demo_world]
  by (auto simp: map_option_eq_Some)

section \<open>Properties\<close>

text \<open>
  C1: no goroutine of a fan-out ever dereferences a missing breaker, limiter, tracker or
  adapter or sends on a closed channel, whatever the interleaving, provided every configured
  carrier is wired; the channel never holds more than its capacity, whoever stands at a send
  finds room, and once the channel is closed nobody can still send.
\<close>
theorem fan_out_never_panics:
  assumes "all_wired carriers w"
    and "fan_reach (fan_cfg_for wait allow reg carriers req starts deadline cancel v w) w f"
  shows "P_Panic \<notin> set (f_prims f) \<and> f_mon f \<noteq> M_Panic \<and> G_Panic \<notin> set (map g_pc (f_hedges f))
    \<and> length (f_buf f) \<le> 2 * length (filterEligibleCarriers carriers (seen_by (v_filter v) w) (q_CoverageLines req))
    \<and> (count_pc may_send (f_prims f) + count_pc hedge_may (map g_pc (f_hedges f)) > 0
       \<longrightarrow> f_closer f \<noteq> K_Closed
         \<and> length (f_buf f) < 2 * length (filterEligibleCarriers carriers (seen_by (v_filter v) w) (q_CoverageLines req)))"
proof -
  let ?C = "fan_cfg_for wait allow reg carriers req starts deadline cancel v w"
  have inv: "fan_inv ?C f" by (rule started_inv [OF assms])
  have prims: "P_Panic \<notin> set (f_prims f)" using inv
    by (fastforce simp: fan_inv_defs in_set_conv_nth)
  have hedges: "G_Panic \<notin> set (map g_pc (f_hedges f))" using inv
    by (auto simp: fan_inv_defs list_all_iff hedge_ok_def)
  have cap: "chan_cap ?C = 2 * length (filterEligibleCarriers carriers (seen_by (v_filter v) w) (q_CoverageLines req))"
    by (simp add: chan_cap_def)
  have hm: "count_pc hedge_may (map g_pc (f_hedges f)) = count_pc (\<lambda>h. hedge_may (g_pc h)) (f_hedges f)"
    by (simp add: filter_map comp_def)
  have "length (f_buf f) \<le> chan_cap ?C"
    using inv hedges_bound [of ?C f] by (auto simp: fan_inv_def send_inv_def data_inv_def cap)
  moreover have "f_closer f \<noteq> K_Closed" if "count_pc may_send (f_prims f) + count_pc hedge_may (map g_pc (f_hedges f)) > 0"
    using that inv by (fastforce simp: fan_inv_defs list_all_iff filter_empty_conv)
  ultimately show ?thesis
    using inv prims hedges channel_room [OF inv] mon_healthy unfolding cap hm by (auto simp: fan_inv_def)
qed

theorem fan_out_never_panics_witness:
  "\<exists>f. fan_run demo_fan (take 6 demo_labels) (fan_init demo_fan demo_world) = Some f
     \<and> count_pc may_send (f_prims f) = 2 \<and> f_closer f \<noteq> K_Closed \<and> length (f_buf f) < 4"
proof -
  obtain f where run: "fan_run demo_fan (take 6 demo_labels) (fan_init demo_fan demo_world) = Some f"
    and prims: "count_pc may_send (f_prims f) = 2" using demo_sending by (auto simp: map_option_eq_Some)
  have "fan_reach demo_fan demo_world f" by (rule fan_run_reach [OF run fan_start])
  from fan_out_never_panics [OF demo_wired this [unfolded demo_fan_def]] prims run show ?thesis
    by (simp add: demo_eligible) (simp add: demo_carriers_def)
qed

text \<open>
  C4: a fan-out always comes to its end. From every state it can reach, whatever the ticker,
  the deadline and other requests did, it is finished or one of its own goroutines can move,
  and a schedule of its own moves finishes it. Limiter waits and adapter calls are single moves
  of the model, so the claim rests on their returning.
\<close>
theorem fan_out_completes:
  assumes "all_wired carriers w"
    and "fan_reach (fan_cfg_for wait allow reg carriers req starts deadline cancel v w) w f"
  shows "(finished f \<or> (\<exists>l f'. progress l \<and> fan_step (fan_cfg_for wait allow reg carriers req starts deadline cancel v w) l f = Some f'))
    \<and> (\<exists>ls f'. list_all progress ls \<and> fan_run (fan_cfg_for wait allow reg carriers req starts deadline cancel v w) ls f = Some f'
         \<and> finished f')"
  using fan_not_stuck [OF started_inv [OF assms]] fan_completes_from [OF started_inv [OF assms] cfg_wf_fan_cfg_for]
  by blast

theorem fan_out_completes_witness:
  "\<exists>ls f'. list_all progress ls \<and> fan_run demo_fan ls (fan_init demo_fan demo_world) = Some f' \<and> finished f'"
  using fan_out_completes [OF demo_wired fan_start] unfolding demo_fan_def by blast

text \<open>
  C20: a fan-out cannot run on for ever: with \<open>n\<close> eligible carriers, the number of moves its
  goroutines make is at most \<open>103 n + 3\<close> plus \<open>n (n + 5) + 1\<close> for each tick of the hedge monitor.
\<close>
theorem fan_out_bounded:
  assumes "all_wired carriers w"
    and "fan_run (fan_cfg_for wait allow reg carriers req starts deadline cancel v w) ls
           (fan_init (fan_cfg_for wait allow reg carriers req starts deadline cancel v w) w) = Some f"
    and "n = length (filterEligibleCarriers carriers (seen_by (v_filter v) w) (q_CoverageLines req))"
  shows "count_pc progress ls \<le> 103 * n + 3 + count_pc is_tick ls * (n * (n + 5) + 1)"
proof -
  let ?C = "fan_cfg_for wait allow reg carriers req starts deadline cancel v w"
  let ?m = "length (fc_hedgeable ?C)"
  have "fan_rank ?C (fan_init ?C w) = 103 * n + 3"
    by (simp add: fan_rank_def fan_init_def assms(3) sum_list_replicate)
  with fan_run_cost [OF assms(2) fan_inv_init [OF all_wired_wired [OF assms(1)]] cfg_wf_fan_cfg_for]
  have "count_pc progress ls \<le> 103 * n + 3 + count_pc is_tick ls * ((?m + 5) * n + 1)" by (simp add: assms(3))
  also have "?m \<le> n" by (simp add: fan_cfg_for_def Let_def hedgeables_def assms(3))
  then have "count_pc is_tick ls * ((?m + 5) * n + 1) \<le> count_pc is_tick ls * (n * (n + 5) + 1)"
    by (intro mult_left_mono add_right_mono) (simp_all add: mult.commute)
  finally show ?thesis by simp
qed

theorem fan_out_bounded_witness:
  "count_pc progress demo_labels \<le> 209"
proof -
  obtain f where "fan_run demo_fan demo_labels (fan_init demo_fan demo_world) = Some f" by (rule demo_run)
  from fan_out_bounded [OF demo_wired this [unfolded demo_fan_def] refl] show ?thesis
    by (simp add: demo_eligible) (simp add: demo_carriers_def demo_labels_def)
qed

text \<open>
  C2: what a finished fan-out returns. The result list is sorted by premium, then carrier ID;
  each carrier occurs at most once and is represented by the first result it delivered; every
  carrier that delivered a result occurs; every result is what the adapter of some eligible
  carrier returned for this request, marked as hedged or stamped with the request ID and the
  measured latency; and any other sorting algorithm would return the same list. Results are
  dropped by carrier only: the late answer of a slow primary is returned beside the hedge that
  was sent to another carrier for it.
\<close>
theorem fan_out_results:
  assumes "all_wired carriers w"
    and "fan_reach (fan_cfg_for wait allow reg carriers req starts deadline cancel v w) w f" and "finished f"
    and "mset rs = mset (f_collected f)" "sorted (map quote_key rs)"
  shows "rs = sort_quotes (f_collected f) \<and> distinct (map r_CarrierID rs)
    \<and> set (map r_CarrierID rs) = set (map r_CarrierID (f_sent f))
    \<and> (\<forall>i. List.find (\<lambda>r. r_CarrierID r = i) (f_collected f) = List.find (\<lambda>r. r_CarrierID r = i) (f_sent f))
    \<and> list_all (\<lambda>r. \<exists>i \<in> set (map c_ID (filterEligibleCarriers carriers (seen_by (v_filter v) w) (q_CoverageLines req))).
         \<exists>hedged. produced (fan_cfg_for wait allow reg carriers req starts deadline cancel v w) i hedged r) rs"
proof -
  let ?C = "fan_cfg_for wait allow reg carriers req starts deadline cancel v w"
  have inv: "data_inv ?C f" using started_inv [OF assms(1,2)] by (simp add: fan_inv_def)
  have col: "f_collected f = fold collect (f_sent f) []"
    using inv assms(3) by (auto simp: data_inv_def finished_def)
  have dist: "distinct (map r_CarrierID (f_collected f))" by (simp add: col collect_distinct)
  have rs: "rs = sort_quotes (f_collected f)" by (rule sort_quotes_unique [OF dist assms(4,5)])
  have sets: "set rs = set (f_collected f)" using assms(4) by (metis mset_eq_setD)
  have "distinct (map r_CarrierID rs)"
    using dist assms(4) mset_map mset_eq_imp_distinct_iff by metis
  moreover have "set (map r_CarrierID rs) = set (map r_CarrierID (f_sent f))"
    using collect_ids [of "f_sent f" "[]"] by (simp add: sets col)
  moreover have "set rs \<subseteq> set (f_sent f)" using collect_subset [of "f_sent f" "[]"] by (simp add: sets col)
  then have "list_all (\<lambda>r. \<exists>i \<in> ids ?C. \<exists>hedged. produced ?C i hedged r) rs"
    using inv by (auto simp: data_inv_def list_all_iff)
  ultimately show ?thesis using rs collect_first [where acc = "[]"] by (simp add: col ids_def)
qed

theorem fan_out_results_witness:
  "\<exists>f. fan_reach demo_fan demo_world f \<and> finished f
     \<and> set (map r_CarrierID (f_sent f)) = {''alpha'', ''gamma''}
     \<and> [demo_quote ''gamma'' 50200, demo_quote ''alpha'' 50300] = sort_quotes (f_collected f)"
proof -
  let ?rs = "[demo_quote ''gamma'' 50200, demo_quote ''alpha'' 50300]"
  obtain f where f: "finished f" "f_collected f = [demo_quote ''alpha'' 50300, demo_quote ''gamma'' 50200]"
      "fan_reach demo_fan demo_world f" by (rule demo_run)
  have "mset ?rs = mset (f_collected f)" by (simp add: f(2))
  moreover have "sorted (map quote_key ?rs)"
    by (simp add: quote_key_def demo_quote_def less_eq_prod_def)
  ultimately have "?rs = sort_quotes (f_collected f) \<and> set (map r_CarrierID ?rs) = set (map r_CarrierID (f_sent f))"
    using fan_out_results [OF demo_wired f(3) [unfolded demo_fan_def] f(1), of ?rs] by blast
  moreover have "set (map r_CarrierID ?rs) = {''alpha'', ''gamma''}" by (auto simp: demo_quote_def)
  ultimately show ?thesis using f(1,3) by metis
qed

text \<open>
  C19: before the deadline no answer is lost. While the request's context is live, a primary
  whose adapter succeeded can only go on by delivering its result to the channel, and what is
  in the channel is never dropped.
\<close>
theorem no_result_lost_before_deadline:
  assumes "all_wired carriers w"
    and "fan_reach (fan_cfg_for wait allow reg carriers req starts deadline cancel v w) w f"
    and "fan_step (fan_cfg_for wait allow reg carriers req starts deadline cancel v w) l f = Some f'"
    and "\<not> f_reqDone f" "k < length (f_prims f)" "f_prims f ! k = P_Send pc t r"
  shows "(f_prims f' ! k = P_Send pc t r \<or> f_sent f' = f_sent f @ [r]) \<and> prefix (f_sent f) (f_sent f')"
proof -
  let ?C = "fan_cfg_for wait allow reg carriers req starts deadline cancel v w"
  have inv: "fan_inv ?C f" by (rule started_inv [OF assms(1,2)])
  have "f_closer f = K_Wait" using inv assms(5,6) by (auto simp: fan_inv_defs list_all_length)
  then have live: "\<not> gctx_done f" using assms(4) by (simp add: gctx_done_def)
  show ?thesis
  proof (cases l)
    case (Prim k' inp)
    then have mv: "prim_move ?C k' inp f = Some f'" using assms(3) by simp
    from mv inv show ?thesis
    proof (rule prim_move_cases)
      fix p w' out
      assume st: "prim_step ?C inp (gctx_done f) (send_ready ?C f) (c_ID (fc_eligible ?C ! k')) (f_prims f ! k') (f_world f)
          = Some (p, w', out)"
        and f': "f' = f\<lparr>f_prims := (f_prims f)[k' := p], f_world := w', f_buf := f_buf f @ out, f_sent := f_sent f @ out\<rparr>"
        and "c_ID (fc_eligible ?C ! k') \<in> ids ?C" "wired ?C (f_world f)"
      then show ?thesis using live assms(5,6) wired_at(1) [of ?C "f_world f" "c_ID (fc_eligible ?C ! k')"]
        by (cases "k' = k") (auto simp: f' split: option.splits if_splits prod.splits)
    qed
  next
    case (Hedge k' inp)
    then have mv: "hedge_move ?C k' inp f = Some f'" using assms(3) by simp
    from mv inv show ?thesis by (rule hedge_move_cases) (use assms(6) in simp)
  next
    case (Scan now')
    with assms(3,6) show ?thesis by (simp add: scan_frame)
  qed (use assms(3,6) in \<open>auto simp: close_move_def split: if_splits list.splits close_pc.splits\<close>)
qed

theorem no_result_lost_before_deadline_witness:
  "\<exists>f f' pc t r. fan_run demo_fan (take 6 demo_labels) (fan_init demo_fan demo_world) = Some f
     \<and> f_prims f ! 0 = P_Send pc t r \<and> fan_step demo_fan (Prim 0 (demo_inp 300)) f = Some f'
     \<and> (f_prims f' ! 0 = P_Send pc t r \<or> f_sent f' = f_sent f @ [r])"
proof -
  obtain f f' pc t r where run: "fan_run demo_fan (take 6 demo_labels) (fan_init demo_fan demo_world) = Some f"
    and st: "fan_step demo_fan (Prim 0 (demo_inp 300)) f = Some f'" and p: "f_prims f ! 0 = P_Send pc t r"
    and len: "0 < length (f_prims f)" and live: "\<not> f_reqDone f" by (rule demo_sending_run)
  have "fan_reach demo_fan demo_world f" by (rule fan_run_reach [OF run fan_start])
  from no_result_lost_before_deadline [OF demo_wired this [unfolded demo_fan_def] st [unfolded demo_fan_def] live len p]
    run st p show ?thesis by blast
qed

text \<open>
  C18: a hedge goroutine is started only by the monitor, for an eligible carrier that has had
  none in this fan-out and has been running for at least its threshold; it calls the candidate
  \<^verbatim>\<open>selectHedgeCandidate\<close> chose among all others, an eligible carrier with an adapter, whose
  breaker was not open when its state was read and whose limiter gave a token, and it is
  recorded. Every breaker state the choice rests on is one the breaker had when it was read. So
  a carrier triggers at most one hedge, and there are never more hedges than eligible carriers.
\<close>
theorem hedges_are_justified:
  assumes "all_wired carriers w"
    and "fan_reach (fan_cfg_for wait allow reg carriers req starts deadline cancel v w) w f"
    and "fan_step (fan_cfg_for wait allow reg carriers req starts deadline cancel v w) l f = Some f'"
  shows "distinct (map g_trigger (f_hedges f))
    \<and> length (f_hedges f) \<le> length (filterEligibleCarriers carriers (seen_by (v_filter v) w) (q_CoverageLines req))
    \<and> (length (f_hedges f') = length (f_hedges f)
       \<or> (\<exists>now now' i c. l = Scan now'
            \<and> fires (fan_cfg_for wait allow reg carriers req starts deadline cancel v w) now now' i c (reads (f_mon f)) f f'))
    \<and> (reads (f_mon f') \<in> {[], reads (f_mon f)}
       \<or> (\<exists>h b. w_breakers (f_world f) (c_ID (h_carrier h)) = Some b
            \<and> reads (f_mon f') = reads (f_mon f) @ [(h, State b)]))"
proof -
  let ?C = "fan_cfg_for wait allow reg carriers req starts deadline cancel v w"
  have inv: "fan_inv ?C f" by (rule started_inv [OF assms(1,2)])
  have "distinct (map g_trigger (f_hedges f))" using inv by (auto simp: fan_inv_defs)
  moreover have "length (f_hedges f) \<le> length (fc_eligible ?C)"
    using inv hedges_bound [of ?C f] by (simp add: fan_inv_def)
  moreover have "length (f_hedges f') = length (f_hedges f)
       \<or> (\<exists>now now' i c. l = Scan now' \<and> fires ?C now now' i c (reads (f_mon f)) f f')"
  proof (cases l)
    case (Scan now')
    have w: "wired ?C (f_world f)" and ok: "mon_ok ?C (f_hedged f) (f_mon f)" using inv by (auto simp: fan_inv_defs)
    from assms(3) [unfolded Scan] ok cfg_wf_fan_cfg_for w show ?thesis
    proof (cases rule: scan_cases)
      case (fire i c w' rest now seen)
      then have "reads (f_mon f) = seen" by (auto simp: fires_def)
      with fire(6) Scan show ?thesis by blast
    qed simp
  next
    case (Prim k inp)
    with assms(3) show ?thesis by (auto simp: prim_move_def split: if_splits option.splits)
  next
    case (Hedge k inp)
    with assms(3) show ?thesis by (auto simp: hedge_move_def Let_def split: if_splits option.splits)
  qed (use assms(3) in \<open>auto simp: close_move_def split: if_splits list.splits close_pc.splits\<close>)
  ultimately show ?thesis using reads_true [OF assms(3)] by simp
qed

text \<open>The example with warm trackers: 400 ms after the start both carriers are slow.\<close>
definition warm_tracker :: "string \<Rightarrow> EMATracker" where
  "warm_tracker i = \<lparr>t_carrierID = i, t_alpha = to_float64 (1 / 10), t_multiplier = Fin (3 / 2), t_warmup = 10,
     t_state = \<lparr>e_p95 = Fin 200, e_observations = 10\<rparr>\<rparr>"

definition warm_world :: "unit world" where
  "warm_world = demo_world\<lparr>w_trackers := [''alpha'' \<mapsto> warm_tracker ''alpha'', ''gamma'' \<mapsto> warm_tracker ''gamma'']\<rparr>"

definition warm_fan :: "(unit, mock_env, unit) fan_cfg" where
  "warm_fan = fan_cfg_for demo_wait demo_allow demo_registry demo_carriers demo_request (\<lambda>i. 0) (5 * Second) False no_gaps warm_world"

lemma warm_threshold: "HedgeThreshold (warm_tracker i) = Fin 300"
proof -
  have "f_mul (Fin 200) (Fin (3 / 2)) = Fin 300" by code_simp
  then show ?thesis by (simp add: HedgeThreshold_def warm_tracker_def)
qed

lemma slow_400: "float_ms (400 * Millisecond) = Fin 400"
  by code_simp

lemma warm_wired: "all_wired demo_carriers warm_world"
  by (simp add: all_wired_def warm_world_def demo_defs)

lemma warm_fan_simps:
  "fc_eligible warm_fan = demo_carriers" "fc_registry warm_fan = demo_registry" "fc_allow warm_fan = demo_allow"
  "fc_hedgeable warm_fan = map (\<lambda>c. \<lparr>h_carrier = c, h_p95Ms = Fin 200\<rparr>) demo_carriers"
  "fc_pending warm_fan ''alpha'' = Some \<lparr>p_startTime = 0, p_hedgeThreshold = Fin 300\<rparr>"
proof -
  have "filterEligibleCarriers demo_carriers (\<lambda>i. warm_world) (q_CoverageLines demo_request) = demo_carriers"
    using demo_eligible by (simp add: filterEligibleCarriers_def breaker_open_def warm_world_def)
  then show "fc_eligible warm_fan = demo_carriers" "fc_registry warm_fan = demo_registry" "fc_allow warm_fan = demo_allow"
    "fc_hedgeable warm_fan = map (\<lambda>c. \<lparr>h_carrier = c, h_p95Ms = Fin 200\<rparr>) demo_carriers"
    "fc_pending warm_fan ''alpha'' = Some \<lparr>p_startTime = 0, p_hedgeThreshold = Fin 300\<rparr>"
    by (simp_all add: warm_fan_def fan_cfg_for_def Let_def hedgeables_def pending_map_def warm_world_def
        demo_carriers_def demo_carrier_def warm_threshold demo_registry_def registry.lookup_register P95_def)
       (simp_all add: warm_tracker_def)
qed

text \<open>
  The monitor visits alpha, which is due, skips it as a candidate, reads gamma's breaker and
  is about to ask for a token.
\<close>
definition warm_labels :: "(unit, mock_env, unit) fan_label list" where
  "warm_labels = Tick (400 * Millisecond) [''alpha'', ''gamma''] # replicate 3 (Scan (400 * Millisecond))"

lemma warm_hedge:
  "map_option (\<lambda>f. (length (f_hedges f), map_option (\<lambda>f'. map (\<lambda>h. (g_trigger h, g_carrier h)) (f_hedges f'))
       (fan_step warm_fan (Scan (400 * Millisecond)) f)))
     (fan_run warm_fan warm_labels (fan_init warm_fan warm_world)) = Some (0, Some [(''alpha'', ''gamma'')])"
  by (simp add: warm_labels_def eval_nat_numeral)
     (simp add: fan_init_def warm_fan_simps scan_one_def select_one_def acquire_hedge_def Let_def due_def elapsedMs_def
      time_Sub_def slow_400 [unfolded Millisecond_def, simplified] demo_carriers_def demo_carrier_def warm_world_def
      demo_world_def TryAcquire_def demo_allow_def new_breaker_def New_Breaker_def demo_cb_def State_def cb_states
      in_int64_def int64_min_def int64_max_def Millisecond_def)

theorem hedges_are_justified_witness:
  "\<exists>f f' now i c seen. fan_reach warm_fan warm_world f \<and> fan_step warm_fan (Scan (400 * Millisecond)) f = Some f'
     \<and> fires warm_fan now (400 * Millisecond) i c seen f f'"
proof -
  obtain f f' where run: "fan_run warm_fan warm_labels (fan_init warm_fan warm_world) = Some f"
    and st: "fan_step warm_fan (Scan (400 * Millisecond)) f = Some f'" and before: "length (f_hedges f) = 0"
    and h: "map (\<lambda>h. (g_trigger h, g_carrier h)) (f_hedges f') = [(''alpha'', ''gamma'')]"
    using warm_hedge by (auto simp: map_option_eq_Some simp del: fan_step.simps)
  have reach: "fan_reach warm_fan warm_world f" by (rule fan_run_reach [OF run fan_start])
  have "length (f_hedges f') = 1" using arg_cong [OF h, of length] by simp
  with before show ?thesis
    using hedges_are_justified [OF warm_wired reach [unfolded warm_fan_def] st [unfolded warm_fan_def]] reach st
    unfolding warm_fan_def by (metis fan_label.inject(4) zero_neq_one)
qed

text \<open>
  C30: while fewer observations than the warm-up count have been recorded for a carrier when the
  starting fan-out reads its threshold, the fan-out never hedges it, whatever the clock, the
  schedule and other requests do.
\<close>
theorem no_hedge_during_warmup:
  assumes "all_wired carriers w"
    and "fan_reach (fan_cfg_for wait allow reg carriers req starts deadline cancel v w) w f"
    and "w_trackers (seen_by (v_threshold v) w i) i = Some (Record_all ls (NewEMATracker carrierID seed cfg))"
    and "int (length ls) < cc_EMAWarmupObservations cfg" "length ls \<le> 2 ^ 62"
  shows "i \<notin> set (map g_trigger (f_hedges f))"
proof -
  let ?C = "fan_cfg_for wait allow reg carriers req starts deadline cancel v w"
  have calm: "\<not> due now p" if "fc_pending ?C i = Some p" for now p
    using that assms(3) warmup_threshold [OF assms(4,5)] warmup_not_due
    by (auto simp: fan_cfg_for_def Let_def pending_map_def split: if_splits)
  have "i \<notin> set (f_hedged f)" using assms(2)
  proof induction
    case (fan_more f l f')
    note inv = started_inv [OF assms(1) fan_more.hyps(1)]
    then have w: "wired ?C (f_world f)" and ok: "mon_ok ?C (f_hedged f) (f_mon f)" by (auto simp: fan_inv_defs)
    show ?case
    proof (cases l)
      case (Scan now')
      from fan_more.hyps(2) [unfolded Scan] ok cfg_wf_fan_cfg_for w show ?thesis
        by (cases rule: scan_cases) (use fan_more.IH calm in \<open>auto simp: fires_def\<close>)
    qed (use fan_more in \<open>auto simp: prim_move_def hedge_move_def close_move_def Let_def
           split: if_splits option.splits list.splits close_pc.splits\<close>)
  qed (simp add: fan_init_def)
  moreover have "map g_trigger (f_hedges f) = rev (f_hedged f)"
    using started_inv [OF assms(1,2)] by (simp add: fan_inv_defs)
  ultimately show ?thesis by simp
qed

theorem no_hedge_during_warmup_witness:
  "\<exists>f. fan_run demo_fan [Tick (10 ^ 15) [''alpha'', ''gamma''], Scan 0] (fan_init demo_fan demo_world) = Some f
     \<and> ''alpha'' \<notin> set (map g_trigger (f_hedges f))"
proof -
  obtain f where run: "fan_run demo_fan [Tick (10 ^ 15) [''alpha'', ''gamma''], Scan 0] (fan_init demo_fan demo_world) = Some f"
    by (auto simp: demo_init demo_fan_simps demo_carriers_def demo_carrier_def)
  have reach: "fan_reach demo_fan demo_world f" by (rule fan_run_reach [OF run fan_start])
  have "w_trackers (seen_by (v_threshold no_gaps) demo_world ''alpha'') ''alpha'' = Some (Record_all [] (NewEMATracker ''alpha'' (100 * Millisecond) demo_config))"
    by (simp add: demo_world_def)
  from no_hedge_during_warmup [OF demo_wired reach [unfolded demo_fan_def] this] run show ?thesis
    by (simp add: demo_config_def)
qed

section \<open>Open breakers\<close>

text \<open>The moves of this fan-out alone.\<close>
fun own_move :: "('l, 'env, 'ctx) fan_label \<Rightarrow> bool" where
  "own_move (Other i b l t evs) = False"
| "own_move _ = True"

lemma prim_step_other_breakers:
  assumes "prim_step C inp d room i p w = Some (p', w', out)" "j \<noteq> i"
  shows "w_breakers w' j = w_breakers w j"
  using assms
  by (cases "(C, inp, d, room, i, p, w)" rule: prim_step.cases)
     (auto simp: brk_advance_def split: option.splits prod.splits if_splits sum.splits)

lemma own_move_breakers:
  assumes "fan_step C l f = Some f'" "own_move l" "j \<notin> ids C"
  shows "w_breakers (f_world f') j = w_breakers (f_world f) j"
proof (cases l)
  case (Prim k inp)
  then have k: "k < length (fc_eligible C)" using assms(1) by (auto simp: prim_move_def split: if_splits)
  then have "j \<noteq> c_ID (fc_eligible C ! k)" using assms(3) by (auto simp: ids_def)
  with Prim assms(1) prim_step_other_breakers [of C _ _ _ "c_ID (fc_eligible C ! k)" _ _ _ _ _ j] show ?thesis
    by (auto simp: prim_move_def split: if_splits option.splits)
next
  case (Scan now')
  with assms(1) scan_frame(3) show ?thesis by metis
next
  case (Hedge k inp)
  with assms(1) show ?thesis by (auto simp: hedge_move_def Let_def split: if_splits option.splits)
qed (use assms in \<open>auto simp: close_move_def split: if_splits list.splits close_pc.splits\<close>)

lemma own_run_breakers:
  assumes "fan_run C ls f = Some f'" "list_all own_move ls" "j \<notin> ids C"
  shows "w_breakers (f_world f') j = w_breakers (f_world f) j"
  using assms(1,2)
proof (induction ls arbitrary: f)
  case (Cons l ls)
  then show ?case using own_move_breakers [OF _ _ assms(3)] by (auto split: option.splits)
qed simp

lemma open_not_eligible:
  assumes "breaker_open w i"
  shows "i \<notin> ids (fan_cfg_for wait allow reg carriers req starts deadline cancel no_gaps w)"
  using assms by (auto simp: ids_def filterEligibleCarriers_def)

text \<open>Fan-outs one after the other, each with its request, its clock readings and its schedule.\<close>
fun fan_outs :: "('l \<Rightarrow> 'ctx \<Rightarrow> go_error option \<times> 'l) \<Rightarrow> ('l \<Rightarrow> instant \<Rightarrow> bool \<times> 'l) \<Rightarrow> 'env Registry \<Rightarrow> Carrier list
    \<Rightarrow> (QuoteRequest \<times> (string \<Rightarrow> instant) \<times> instant \<times> bool \<times> ('l, 'env, 'ctx) fan_label list) list \<Rightarrow> 'l world \<Rightarrow> 'l world option" where
  "fan_outs wait allow reg carriers [] w = Some w"
| "fan_outs wait allow reg carriers ((req, starts, deadline, cancel, ls) # rs) w =
     (let C = fan_cfg_for wait allow reg carriers req starts deadline cancel no_gaps w
      in case fan_run C ls (fan_init C w) of
           None \<Rightarrow> None
         | Some f \<Rightarrow> fan_outs wait allow reg carriers rs (f_world f))"

text \<open>
  C21: a breaker that is open when a request arrives is left exactly as it is by every later
  fan-out, however much later it runs: the carrier is not eligible, so its breaker's
  \<^verbatim>\<open>Execute\<close>, the only place where an expired open timeout moves it to half-open, is never
  called. An opened circuit does not recover.
\<close>
theorem open_breaker_never_recovers:
  assumes "breaker_open w i" "fan_outs wait allow reg carriers rs w = Some w'"
    and "list_all (\<lambda>(req, starts, deadline, cancel, ls). list_all own_move ls) rs"
  shows "w_breakers w' i = w_breakers w i \<and> breaker_open w' i"
  using assms
proof (induction rs arbitrary: w)
  case (Cons x rs)
  obtain req starts deadline cancel ls where x: "x = (req, starts, deadline, cancel, ls)" by (cases x)
  let ?C = "fan_cfg_for wait allow reg carriers req starts deadline cancel no_gaps w"
  obtain f where run: "fan_run ?C ls (fan_init ?C w) = Some f"
    and rest: "fan_outs wait allow reg carriers rs (f_world f) = Some w'"
    using Cons.prems(2) by (auto simp: x Let_def split: option.splits)
  have same: "w_breakers (f_world f) i = w_breakers w i"
    using own_run_breakers [OF run _ open_not_eligible [OF Cons.prems(1)]] Cons.prems(3)
    by (simp add: x fan_init_def)
  then have "breaker_open (f_world f) i" using Cons.prems(1) by (simp add: breaker_open_def)
  from Cons.IH [OF this rest] Cons.prems(3) same show ?case by (simp add: x)
qed simp

text \<open>The example with alpha's circuit open since time 0, served one hour later.\<close>
definition tripped_world :: "unit world" where
  "tripped_world = demo_world\<lparr>w_breakers := (w_breakers demo_world)
     (''alpha'' \<mapsto> (new_breaker ''alpha'' demo_cb)\<lparr>b_state := stateOpen\<rparr>)\<rparr>"

definition late_inp :: "(mock_env, unit) inp" where
  "late_inp = (demo_inp 200)\<lparr>i_now := 60 * Minute\<rparr>"

lemma tripped_runs:
  "fan_outs demo_wait demo_allow demo_registry demo_carriers
     [(demo_request, \<lambda>i. 60 * Minute, 61 * Minute, False, replicate 9 (Prim 0 late_inp) @ [Close, MonDone, Close, Recv])] tripped_world \<noteq> None"
proof -
  let ?C = "fan_cfg_for demo_wait demo_allow demo_registry demo_carriers demo_request (\<lambda>i. 60 * Minute) (61 * Minute) False no_gaps tripped_world"
  have el: "filterEligibleCarriers demo_carriers (\<lambda>i. tripped_world) (q_CoverageLines demo_request) = [demo_carrier ''gamma'']"
    by (simp add: filterEligibleCarriers_def breaker_open_def State_def cb_states demo_defs Let_def
        tripped_world_def breaker_states)
  have init: "fan_init ?C tripped_world = \<lparr>f_world = tripped_world, f_prims = [P_Start], f_mon = M_Wait,
      f_hedged = [], f_hedges = [], f_buf = [], f_sent = [], f_closer = K_Wait, f_reqDone = False, f_collected = []\<rparr>"
    by (simp add: fan_init_def el)
  define C where "C = ?C"
  have C: "fc_eligible C = [demo_carrier ''gamma'']" "fc_registry C = demo_registry" "fc_req C = demo_request"
    "fc_wait C = demo_wait"
    by (simp_all add: C_def el)
  have "fan_run C (replicate 9 (Prim 0 late_inp) @ [Close, MonDone, Close, Recv]) (fan_init ?C tripped_world) \<noteq> None"
    unfolding init by (simp add: eval_nat_numeral) (simp add: demo_run_simps C tripped_world_def late_inp_def)
  then show ?thesis by (auto simp: C_def split: option.splits)
qed

theorem open_breaker_never_recovers_witness:
  "\<exists>w'. fan_outs demo_wait demo_allow demo_registry demo_carriers
     [(demo_request, \<lambda>i. 60 * Minute, 61 * Minute, False, replicate 9 (Prim 0 late_inp) @ [Close, MonDone, Close, Recv])] tripped_world = Some w'
     \<and> breaker_open w' ''alpha''"
proof -
  obtain w' where w': "fan_outs demo_wait demo_allow demo_registry demo_carriers
     [(demo_request, \<lambda>i. 60 * Minute, 61 * Minute, False, replicate 9 (Prim 0 late_inp) @ [Close, MonDone, Close, Recv])] tripped_world = Some w'"
    using tripped_runs by blast
  have "breaker_open tripped_world ''alpha''"
    by (simp add: breaker_open_def tripped_world_def State_def cb_states breaker_states)
  from open_breaker_never_recovers [OF this w'] w' show ?thesis by (simp add: list_all_iff del: fan_outs.simps)
qed

end
