(* ===== verification/Repository.thy ===== *)
theory Repository
  imports Domain
begin

text \<open>
  \<^verbatim>\<open>internal/repository/postgres.go\<close>. The \<^verbatim>\<open>quotes\<close> table is a list of rows with the
  key (request_id, carrier_id); the three SQL statements of the source are functions on it.
  What the database server and driver decide is an argument: which call fails (\<open>save_env\<close>,
  \<open>find_env\<close>), the order in which a query meets equal premiums (\<open>scan\<close>), and the
  resolution of \<^verbatim>\<open>TIMESTAMPTZ\<close> (\<open>ts\<close>). A transaction that fails leaves the table
  unchanged, except that a failed commit may have been applied by the server.

  The locale \<open>quote_store\<close> is the contract of the \<^verbatim>\<open>ports.QuoteRepository\<close> port, with the
  isolation of keys and the harmlessness of purging derived in it.
\<close>

section \<open>The table and its statements\<close>

record row =
  rw_request_id :: string
  rw_carrier_id :: string
  rw_premium_cents :: int
  rw_currency :: string
  rw_expires_at :: instant
  rw_is_hedged :: bool
  rw_latency_ms :: int

type_synonym table = "row list"

definition same_key :: "row \<Rightarrow> row \<Rightarrow> bool" where
  "same_key r s \<longleftrightarrow> rw_request_id r = rw_request_id s \<and> rw_carrier_id r = rw_carrier_id s"

text \<open>\<^verbatim>\<open>INSERT ... ON CONFLICT (request_id, carrier_id) DO NOTHING\<close>.\<close>
definition insert_row :: "row \<Rightarrow> table \<Rightarrow> table" where
  "insert_row r t = (if list_ex (same_key r) t then t else t @ [r])"

text \<open>The row \<^verbatim>\<open>Save\<close> inserts for one result.\<close>
definition row_of :: "(instant \<Rightarrow> instant) \<Rightarrow> string \<Rightarrow> QuoteResult \<Rightarrow> row" where
  "row_of ts requestID res =
     (let currency = (if m_Currency (r_Premium res) = '''' then ''USD'' else m_Currency (r_Premium res))
      in \<lparr>rw_request_id = requestID, rw_carrier_id = r_CarrierID res,
          rw_premium_cents = m_Amount (r_Premium res), rw_currency = currency,
          rw_expires_at = ts (r_ExpiresAt res), rw_is_hedged = r_IsHedged res,
          rw_latency_ms = Milliseconds (r_Latency res)\<rparr>)"

text \<open>\<^verbatim>\<open>SELECT ... WHERE request_id = $1 AND expires_at > NOW()\<close>.\<close>
definition live_rows :: "instant \<Rightarrow> string \<Rightarrow> table \<Rightarrow> table" where
  "live_rows now requestID t = filter (\<lambda>r. rw_request_id r = requestID \<and> now < rw_expires_at r) t"

text \<open>\<^verbatim>\<open>DELETE FROM quotes WHERE expires_at <= NOW()\<close>.\<close>
definition purge_rows :: "instant \<Rightarrow> table \<Rightarrow> table" where
  "purge_rows now t = filter (\<lambda>r. \<not> rw_expires_at r \<le> now) t"

text \<open>The result \<^verbatim>\<open>FindByRequestID\<close> builds from one scanned row.\<close>
definition result_of :: "string \<Rightarrow> row \<Rightarrow> QuoteResult" where
  "result_of requestID r =
     \<lparr>r_RequestID = requestID, r_CarrierID = rw_carrier_id r,
      r_Premium = \<lparr>m_Amount = rw_premium_cents r, m_Currency = rw_currency r\<rparr>,
      r_ExpiresAt = rw_expires_at r, r_CarrierRef = '''',
      r_Latency = wrap64 (rw_latency_ms r * Millisecond), r_IsHedged = rw_is_hedged r\<rparr>"

section \<open>The repository's methods\<close>

text \<open>\<^verbatim>\<open>Open\<close>: the error of \<^verbatim>\<open>sql.Open\<close> or of the first ping.\<close>
definition Open :: "go_error option \<Rightarrow> go_error option \<Rightarrow> go_error option" where
  "Open open_err ping_err =
     (case open_err of
        Some err \<Rightarrow> Some (Wrapped (''repository: open postgres: '' @ Error_text err) err)
      | None \<Rightarrow>
          (case ping_err of
             Some err \<Rightarrow> Some (Wrapped (''repository: ping postgres: '' @ Error_text err) err)
           | None \<Rightarrow> None))"

definition Migrate :: "go_error option \<Rightarrow> table option \<Rightarrow> go_error option \<times> table option" where
  "Migrate exec_err db =
     (case exec_err of
        Some err \<Rightarrow> (Some (Wrapped (''repository: migrate: '' @ Error_text err) err), db)
      | None \<Rightarrow> (None, case db of None \<Rightarrow> Some [] | Some t \<Rightarrow> Some t))"

text \<open>\<open>sv_commit\<close> also says whether the server applied the failed commit; \<open>sv_quote\<close> is
  \<^verbatim>\<open>%q\<close>.\<close>
record save_env =
  sv_begin :: "go_error option"
  sv_exec :: "nat \<Rightarrow> go_error option"
  sv_commit :: "(go_error \<times> bool) option"
  sv_quote :: "string \<Rightarrow> string"

fun save_rows :: "save_env \<Rightarrow> (instant \<Rightarrow> instant) \<Rightarrow> string \<Rightarrow> nat \<Rightarrow> QuoteResult list \<Rightarrow> table
    \<Rightarrow> go_error + table" where
  "save_rows env ts requestID i [] t = Inr t"
| "save_rows env ts requestID i (res # results) t =
     (case sv_exec env i of
        Some err \<Rightarrow> Inl (Wrapped (''repository: insert quote for carrier '' @ sv_quote env (r_CarrierID res)
                       @ '': '' @ Error_text err) err)
      | None \<Rightarrow> save_rows env ts requestID (Suc i) results (insert_row (row_of ts requestID res) t))"

definition Save :: "save_env \<Rightarrow> (instant \<Rightarrow> instant) \<Rightarrow> string \<Rightarrow> QuoteResult list \<Rightarrow> table
    \<Rightarrow> go_error option \<times> table" where
  "Save env ts requestID results t =
     (case sv_begin env of
        Some err \<Rightarrow> (Some (Wrapped (''repository: begin tx: '' @ Error_text err) err), t)
      | None \<Rightarrow>
          (case save_rows env ts requestID 0 results t of
             Inl err \<Rightarrow> (Some err, t)
           | Inr t' \<Rightarrow>
               (case sv_commit env of
                  Some (err, applied) \<Rightarrow>
                    (Some (Wrapped (''repository: commit: '' @ Error_text err) err), if applied then t' else t)
                | None \<Rightarrow> (None, t'))))"

text \<open>Errors of the query, of scanning the \<open>i\<close>-th row, and of the iteration.\<close>
record find_env =
  fe_query :: "go_error option"
  fe_scan :: "nat \<Rightarrow> go_error option"
  fe_rows :: "go_error option"

fun scan_rows :: "find_env \<Rightarrow> string \<Rightarrow> nat \<Rightarrow> row list \<Rightarrow> QuoteResult list \<Rightarrow> go_error + QuoteResult list" where
  "scan_rows env requestID i [] results = Inr results"
| "scan_rows env requestID i (r # rs) results =
     (case fe_scan env i of
        Some err \<Rightarrow> Inl (Wrapped (''repository: scan quote row: '' @ Error_text err) err)
      | None \<Rightarrow> scan_rows env requestID (Suc i) rs (results @ [result_of requestID r]))"

definition FindByRequestID :: "find_env \<Rightarrow> (table \<Rightarrow> table) \<Rightarrow> instant \<Rightarrow> string \<Rightarrow> table
    \<Rightarrow> go_error + (QuoteResult list \<times> bool)" where
  "FindByRequestID env scan now requestID t =
     (case fe_query env of
        Some err \<Rightarrow> Inl (Wrapped (''repository: query quotes: '' @ Error_text err) err)
      | None \<Rightarrow>
          (case scan_rows env requestID 0 (sort_key rw_premium_cents (scan (live_rows now requestID t))) [] of
             Inl err \<Rightarrow> Inl err
           | Inr results \<Rightarrow>
               (case fe_rows env of
                  Some err \<Rightarrow> Inl (Wrapped (''repository: rows iteration: '' @ Error_text err) err)
                | None \<Rightarrow> Inr (results, 0 < length results))))"

definition DeleteExpired :: "go_error option \<Rightarrow> instant \<Rightarrow> table \<Rightarrow> (go_error + nat) \<times> table" where
  "DeleteExpired exec_err now t =
     (case exec_err of
        Some err \<Rightarrow> (Inl (Wrapped (''repository: delete expired: '' @ Error_text err) err), t)
      | None \<Rightarrow> (Inr (length t - length (purge_rows now t)), purge_rows now t))"

section \<open>The store's contract\<close>

text \<open>
  The state-level view of the port: \<open>saved\<close> and \<open>purged\<close> are the successful operations,
  \<open>contents now k\<close> what a lookup of key \<open>k\<close> can return at time \<open>now\<close>.
\<close>

locale quote_store =
  fixes saved :: "string \<Rightarrow> QuoteResult list \<Rightarrow> 'd \<Rightarrow> 'd" and purged :: "instant \<Rightarrow> 'd \<Rightarrow> 'd"
    and contents :: "instant \<Rightarrow> string \<Rightarrow> 'd \<Rightarrow> QuoteResult list" and ok :: "'d \<Rightarrow> bool"
  assumes contents_fresh: "r \<in> set (contents now k d) \<Longrightarrow> now < r_ExpiresAt r"
    and contents_unique: "ok d \<Longrightarrow> distinct (map r_CarrierID (contents now k d))"
    and saved_other: "k \<noteq> k' \<Longrightarrow> contents now k (saved k' rs d) = contents now k d"
    and purged_later: "now \<le> now' \<Longrightarrow> contents now' k (purged now d) = contents now' k d"
    and ok_saved: "ok d \<Longrightarrow> ok (saved k rs d)"
    and ok_purged: "ok d \<Longrightarrow> ok (purged now d)"
begin

fun run_op :: "(string \<times> QuoteResult list) + instant \<Rightarrow> 'd \<Rightarrow> 'd" where
  "run_op (Inl (k, rs)) d = saved k rs d"
| "run_op (Inr now) d = purged now d"

lemma run_ops_ok: "ok d \<Longrightarrow> ok (fold run_op ops d)"
proof (induction ops arbitrary: d)
  case (Cons a ops)
  then show ?case by (cases a) (auto simp: ok_saved ok_purged)
qed simp

text \<open>Saves under other keys and purges up to \<open>now\<close> do not change what \<open>now\<close> sees.\<close>

lemma run_ops_contents:
  assumes "\<forall>a \<in> set ops. case a of Inl (k', rs) \<Rightarrow> k' \<noteq> k | Inr past \<Rightarrow> past \<le> now"
  shows "contents now k (fold run_op ops d) = contents now k d"
  using assms
proof (induction ops arbitrary: d)
  case (Cons a ops)
  then show ?case by (cases a) (auto simp: saved_other purged_later)
qed simp

end

section \<open>The table satisfies the contract\<close>

definition table_ok :: "table \<Rightarrow> bool" where
  "table_ok t \<longleftrightarrow> distinct (map (\<lambda>r. (rw_request_id r, rw_carrier_id r)) t)"

definition table_save :: "(instant \<Rightarrow> instant) \<Rightarrow> string \<Rightarrow> QuoteResult list \<Rightarrow> table \<Rightarrow> table" where
  "table_save ts k rs t = fold (\<lambda>res. insert_row (row_of ts k res)) rs t"

definition table_contents :: "instant \<Rightarrow> string \<Rightarrow> table \<Rightarrow> QuoteResult list" where
  "table_contents now k t = map (result_of k) (live_rows now k t)"

lemma row_of_fields [simp]:
  "rw_request_id (row_of ts k r) = k" "rw_carrier_id (row_of ts k r) = r_CarrierID r"
  "rw_expires_at (row_of ts k r) = ts (r_ExpiresAt r)"
  "rw_premium_cents (row_of ts k r) = m_Amount (r_Premium r)"
  by (simp_all add: row_of_def Let_def)

lemma result_of_fields [simp]:
  "r_CarrierID (result_of k r) = rw_carrier_id r" "r_ExpiresAt (result_of k r) = rw_expires_at r"
  "r_RequestID (result_of k r) = k" "m_Amount (r_Premium (result_of k r)) = rw_premium_cents r"
  by (simp_all add: result_of_def)

lemma table_ok_insert: "table_ok t \<Longrightarrow> table_ok (insert_row r t)"
  by (auto simp: table_ok_def insert_row_def same_key_def list_ex_iff)

lemma table_ok_save: "table_ok t \<Longrightarrow> table_ok (table_save ts k rs t)"
  unfolding table_save_def by (induction rs arbitrary: t) (auto simp: table_ok_insert)

lemma table_ok_purge: "table_ok t \<Longrightarrow> table_ok (purge_rows now t)"
  unfolding table_ok_def purge_rows_def by (rule distinct_map_filter)

lemma table_ok_carriers:
  assumes "table_ok t"
  shows "distinct (map rw_carrier_id (filter (\<lambda>r. rw_request_id r = k \<and> P r) t))"
  using assms by (induction t) (auto simp: table_ok_def image_iff)

lemma live_rows_insert_other:
  "rw_request_id r \<noteq> k \<Longrightarrow> live_rows now k (insert_row r t) = live_rows now k t"
  by (simp add: live_rows_def insert_row_def)

lemma save_other: "k \<noteq> k' \<Longrightarrow> live_rows now k (table_save ts k' rs t) = live_rows now k t"
  unfolding table_save_def by (induction rs arbitrary: t) (auto simp: live_rows_insert_other)

interpretation pg: quote_store "table_save ts" purge_rows table_contents table_ok
proof
  show "r \<in> set (table_contents now k t) \<Longrightarrow> now < r_ExpiresAt r" for r now k t
    by (auto simp: table_contents_def live_rows_def)
  show "table_ok t \<Longrightarrow> distinct (map r_CarrierID (table_contents now k t))" for now k t
    using table_ok_carriers [of t k "\<lambda>r. now < rw_expires_at r"]
    by (simp add: table_contents_def live_rows_def comp_def)
  show "k \<noteq> k' \<Longrightarrow> table_contents now k (table_save ts k' rs t) = table_contents now k t" for now k k' rs t
    by (simp add: table_contents_def save_other)
  show "now \<le> now' \<Longrightarrow> table_contents now' k (purge_rows now t) = table_contents now' k t" for now now' k t
    unfolding table_contents_def live_rows_def purge_rows_def
    by (auto intro!: arg_cong [of _ _ "map (result_of k)"] filter_cong)
qed (auto intro: table_ok_save table_ok_purge)

section \<open>Functional behaviour of the methods\<close>

lemma save_rows_Inr: "save_rows env ts k i rs t = Inr t' \<Longrightarrow> t' = table_save ts k rs t"
  by (induction rs arbitrary: i t) (auto simp: table_save_def split: option.splits)

lemma save_rows_ok: "(\<And>i. sv_exec env i = None) \<Longrightarrow> save_rows env ts k i rs t = Inr (table_save ts k rs t)"
  by (induction rs arbitrary: i t) (auto simp: table_save_def)

text \<open>A save either leaves the table alone or adds all its rows.\<close>

lemma Save_cases:
  assumes "Save env ts k rs t = (err, t')"
  shows "t' = t \<or> t' = table_save ts k rs t"
    and "err = None \<Longrightarrow> t' = table_save ts k rs t"
    and "err \<noteq> None \<Longrightarrow> \<nexists>e. sv_commit env = Some (e, True) \<Longrightarrow> t' = t"
  using assms
  by (auto simp: Save_def split: option.splits sum.splits if_splits dest!: save_rows_Inr)

lemma scan_rows_ok:
  "(\<And>i. fe_scan env i = None) \<Longrightarrow> scan_rows env k i rs acc = Inr (acc @ map (result_of k) rs)"
  by (induction rs arbitrary: i acc) auto

lemma scan_rows_Inr:
  "scan_rows env k i rs acc = Inr res \<Longrightarrow> res = acc @ map (result_of k) rs"
proof (induction rs arbitrary: i acc)
  case (Cons r rs)
  then show ?case by (cases "fe_scan env i") force+
qed simp

text \<open>A successful lookup returns the live rows in the order of their premiums.\<close>

lemma FindByRequestID_Inr:
  assumes "FindByRequestID env scan now k t = Inr (res, hit)"
  shows "res = map (result_of k) (sort_key rw_premium_cents (scan (live_rows now k t)))"
    and "hit = (0 < length res)"
proof -
  obtain rs where rs: "scan_rows env k 0 (sort_key rw_premium_cents (scan (live_rows now k t))) [] = Inr rs"
    and eq: "res = rs" "hit = (0 < length rs)"
    using assms by (auto simp: FindByRequestID_def split: option.splits sum.splits)
  show "res = map (result_of k) (sort_key rw_premium_cents (scan (live_rows now k t)))"
    using scan_rows_Inr [OF rs] eq by simp
  show "hit = (0 < length res)" using eq by simp
qed

lemma Find_contents:
  assumes "FindByRequestID env scan now k t = Inr (res, hit)" "mset (scan (live_rows now k t)) = mset (live_rows now k t)"
  shows "mset res = mset (table_contents now k t)"
  using FindByRequestID_Inr [OF assms(1)] assms(2) by (simp add: table_contents_def)

text \<open>Saving under a key that has no rows stores exactly the rows of the results.\<close>

lemma table_save_new_key:
  assumes "distinct (map r_CarrierID rs)"
    and "\<forall>r \<in> set t. rw_request_id r = k \<longrightarrow> rw_carrier_id r \<notin> set (map r_CarrierID rs)"
  shows "table_save ts k rs t = t @ map (row_of ts k) rs"
  using assms
proof (induction rs arbitrary: t)
  case (Cons x rs)
  have "insert_row (row_of ts k x) t = t @ [row_of ts k x]"
    using Cons.prems(2) by (auto simp: insert_row_def same_key_def list_ex_iff)
  moreover have "table_save ts k rs (t @ [row_of ts k x]) = (t @ [row_of ts k x]) @ map (row_of ts k) rs"
    using Cons.prems by (intro Cons.IH) auto
  ultimately show ?case by (simp add: table_save_def)
qed (simp add: table_save_def)

text \<open>Inserting a row again changes nothing.\<close>

lemma insert_row_keeps: "list_ex (same_key r) t \<Longrightarrow> list_ex (same_key r) (insert_row s t)"
  by (auto simp: insert_row_def)

lemma table_save_present:
  "\<forall>x \<in> set rs. list_ex (same_key (row_of ts k x)) t \<Longrightarrow> table_save ts k rs t = t"
  unfolding table_save_def by (induction rs) (auto simp: insert_row_def)

lemma table_save_makes_present:
  "x \<in> set rs \<Longrightarrow> list_ex (same_key (row_of ts k x)) (table_save ts k rs t)"
proof (induction rs arbitrary: t)
  case (Cons y rs)
  have keep: "list_ex (same_key r) t \<Longrightarrow> list_ex (same_key r) (table_save ts k rs t)" for r t
    unfolding table_save_def by (induction rs arbitrary: t) (auto simp: insert_row_keeps)
  have "list_ex (same_key (row_of ts k y)) (insert_row (row_of ts k y) t)"
    by (auto simp: insert_row_def same_key_def)
  with Cons keep show ?case by (auto simp: table_save_def)
qed simp

text \<open>
  What a stored result should look like when it comes back, field by field: the same carrier,
  amount and hedge flag, the same currency (US dollars when none was given), the key as request
  ID, no carrier reference, the expiry at the server's resolution and the latency in whole
  milliseconds. It is stated on results alone; that the columns written by \<^verbatim>\<open>Save\<close> and read
  by \<^verbatim>\<open>FindByRequestID\<close> give it is the lemma below.
\<close>
definition cached_form :: "(instant \<Rightarrow> instant) \<Rightarrow> string \<Rightarrow> QuoteResult \<Rightarrow> QuoteResult" where
  "cached_form ts k r =
     \<lparr>r_RequestID = k,
      r_CarrierID = r_CarrierID r,
      r_Premium = \<lparr>m_Amount = m_Amount (r_Premium r),
                   m_Currency = (if m_Currency (r_Premium r) = '''' then ''USD'' else m_Currency (r_Premium r))\<rparr>,
      r_ExpiresAt = ts (r_ExpiresAt r),
      r_CarrierRef = '''',
      r_Latency = wrap64 (1000000 * (r_Latency r sdiv 1000000)),
      r_IsHedged = r_IsHedged r\<rparr>"

lemma stored_and_read: "result_of k (row_of ts k r) = cached_form ts k r"
  by (simp add: result_of_def row_of_def cached_form_def Milliseconds_def Millisecond_def Let_def mult.commute)

lemma saved_contents:
  assumes "distinct (map r_CarrierID rs)" "\<forall>r \<in> set rs. now < ts (r_ExpiresAt r)"
    and "\<forall>r \<in> set t. rw_request_id r \<noteq> k"
  shows "table_contents now k (table_save ts k rs t) = map (cached_form ts k) rs"
proof -
  have "table_save ts k rs t = t @ map (row_of ts k) rs" using assms table_save_new_key by auto
  then have "live_rows now k (table_save ts k rs t) = map (row_of ts k) rs"
    using assms by (auto simp: live_rows_def filter_empty_conv filter_id_conv)
  then show ?thesis by (simp add: table_contents_def stored_and_read)
qed

lemma Find_after_save:
  assumes find: "FindByRequestID env scan now k t' = Inr (res, hit)" and t': "t' = table_save ts k rs t"
    and scan: "\<And>t. mset (scan t) = mset t"
    and rs: "distinct (map r_CarrierID rs)" "\<forall>r \<in> set rs. now < ts (r_ExpiresAt r)"
    and fresh: "\<forall>r \<in> set t. rw_request_id r \<noteq> k"
  shows "hit = (rs \<noteq> []) \<and> mset res = mset (map (cached_form ts k) rs)
    \<and> sorted (map (\<lambda>r. m_Amount (r_Premium r)) res)"
proof -
  have m: "mset res = mset (map (cached_form ts k) rs)"
    using Find_contents [OF find scan] saved_contents [OF rs fresh] t' by simp
  have "sorted (map (\<lambda>r. m_Amount (r_Premium r)) res)" by (simp add: FindByRequestID_Inr(1) [OF find] comp_def)
  moreover have "hit = (rs \<noteq> [])" using FindByRequestID_Inr(2) [OF find] mset_eq_length [OF m] by simp
  ultimately show ?thesis using m by simp
qed

lemma save_keeps_rows: "r \<in> set t \<Longrightarrow> r \<in> set (table_save ts k rs t)"
  unfolding table_save_def by (induction rs arbitrary: t) (auto simp: insert_row_def)

section \<open>Properties\<close>

definition no_save_errors :: save_env where
  "no_save_errors = \<lparr>sv_begin = None, sv_exec = (\<lambda>i. None), sv_commit = None, sv_quote = (\<lambda>s. s)\<rparr>"

definition no_find_errors :: find_env where
  "no_find_errors = \<lparr>fe_query = None, fe_scan = (\<lambda>i. None), fe_rows = None\<rparr>"

text \<open>
  C22: save, then look up. If results of distinct carriers, none expired at the time of the
  lookup, are saved under a key with no rows and neither call fails, the lookup of that key
  reports a hit and returns, sorted by premium, each result once, with its carrier, amount,
  currency, expiry and hedge flag, the key as request ID, the latency in whole milliseconds and
  without the carrier reference (\<open>cached_form\<close>).
\<close>
theorem Save_then_Find:
  assumes save: "Save env ts k rs t = (None, t')"
    and find: "FindByRequestID env' scan now k t' = Inr (res, hit)"
    and scan: "\<And>t. mset (scan t) = mset t"
    and rs: "rs \<noteq> []" "distinct (map r_CarrierID rs)" "\<forall>r \<in> set rs. now < ts (r_ExpiresAt r)"
    and fresh: "\<forall>r \<in> set t. rw_request_id r \<noteq> k"
  shows "hit \<and> mset res = mset (map (cached_form ts k) rs)
    \<and> sorted (map (\<lambda>r. m_Amount (r_Premium r)) res)"
proof -
  have "t' = table_save ts k rs t" using Save_cases(2) [OF save] by simp
  from Find_after_save [OF find this scan rs(2,3) fresh] rs(1) show ?thesis by simp
qed

definition demo_result :: "string \<Rightarrow> int \<Rightarrow> QuoteResult" where
  "demo_result c cents = \<lparr>r_RequestID = ''r1'', r_CarrierID = c,
     r_Premium = \<lparr>m_Amount = cents, m_Currency = ''USD''\<rparr>, r_ExpiresAt = 1000, r_CarrierRef = ''Q7'',
     r_Latency = 48500000, r_IsHedged = False\<rparr>"

theorem Save_then_Find_witness:
  "\<exists>res. FindByRequestID no_find_errors rev 5 ''k''
       (snd (Save no_save_errors id ''k'' [demo_result ''beta'' 300, demo_result ''alpha'' 200] []))
     = Inr (res, True)
     \<and> mset res = mset (map (\<lambda>(c, cents). \<lparr>r_RequestID = ''k'', r_CarrierID = c,
          r_Premium = \<lparr>m_Amount = cents, m_Currency = ''USD''\<rparr>, r_ExpiresAt = 1000, r_CarrierRef = '''',
          r_Latency = 48000000, r_IsHedged = False\<rparr>) [(''beta'', 300), (''alpha'', 200)])
     \<and> sorted (map (\<lambda>r. m_Amount (r_Premium r)) res)"
proof -
  let ?rs = "[demo_result ''beta'' 300, demo_result ''alpha'' 200]"
  obtain t' where s: "Save no_save_errors id ''k'' ?rs [] = (None, t')"
    using save_rows_ok [of no_save_errors id "''k''" 0 ?rs "[]"] by (simp add: Save_def no_save_errors_def)
  obtain res hit where f: "FindByRequestID no_find_errors rev 5 ''k'' t' = Inr (res, hit)"
    using scan_rows_ok [of no_find_errors] by (simp add: FindByRequestID_def no_find_errors_def)
  have "hit \<and> mset res = mset (map (cached_form id ''k'') ?rs) \<and> sorted (map (\<lambda>r. m_Amount (r_Premium r)) res)"
    by (rule Save_then_Find [OF s f]) (simp_all add: demo_result_def)
  with s f show ?thesis
    by (auto simp: cached_form_def demo_result_def signed_divide_int_def in_int64_def int64_min_def int64_max_def)
qed

text \<open>
  C23: \<^verbatim>\<open>Save\<close> is all or nothing and idempotent. When it reports an error the table is unchanged
  unless the server applied the failed commit; when it succeeds, every result's key is present,
  the key constraint still holds, and saving the same results again changes nothing.
\<close>
theorem Save_atomic_idempotent:
  assumes "Save env ts k rs t = (err, t')" and "table_ok t"
  shows "(err \<noteq> None \<longrightarrow> (\<nexists>e. sv_commit env = Some (e, True)) \<longrightarrow> t' = t)
    \<and> table_ok t'
    \<and> (err = None \<longrightarrow> (\<forall>x \<in> set rs. list_ex (same_key (row_of ts k x)) t')
        \<and> (\<forall>env'. snd (Save env' ts k rs t') = t'))"
proof -
  have t': "t' = t \<or> t' = table_save ts k rs t" "err = None \<Longrightarrow> t' = table_save ts k rs t"
    using Save_cases [OF assms(1)] by auto
  have "snd (Save env' ts k rs (table_save ts k rs t)) = table_save ts k rs t" for env'
    using Save_cases [OF prod.collapse [symmetric], of env' ts k rs "table_save ts k rs t"]
      table_save_present [of rs ts k "table_save ts k rs t"] table_save_makes_present [of _ rs ts k t]
    by metis
  with t' Save_cases [OF assms(1)] assms(2) table_ok_save [of t ts k rs] table_save_makes_present [of _ rs ts k t]
  show ?thesis by metis
qed

theorem Save_atomic_idempotent_witness:
  "snd (Save (no_save_errors\<lparr>sv_exec := (\<lambda>i. if i = 1 then Some CtxDeadlineExceeded else None)\<rparr>) id ''k''
     [demo_result ''beta'' 300, demo_result ''alpha'' 200] []) = []"
proof -
  let ?env = "no_save_errors\<lparr>sv_exec := (\<lambda>i. if i = 1 then Some CtxDeadlineExceeded else None)\<rparr>"
  let ?rs = "[demo_result ''beta'' 300, demo_result ''alpha'' 200]"
  obtain err t' where s: "Save ?env id ''k'' ?rs [] = (err, t')" by (cases "Save ?env id ''k'' ?rs []") auto
  then have "err \<noteq> None" by (auto simp: Save_def no_save_errors_def)
  with Save_atomic_idempotent [OF s] s show ?thesis by (simp add: table_ok_def no_save_errors_def)
qed

text \<open>
  Purging is invisible. A successful lookup returns only quotes that are still valid, at
  most one per carrier, and any purges up to the time of the lookup and any saves under other
  keys leave its result as a multiset unchanged.
\<close>
theorem Find_isolated:
  assumes ok: "table_ok t" and scan: "\<And>t. mset (scan t) = mset t"
    and find: "FindByRequestID env scan now k t = Inr (res, hit)"
    and find': "FindByRequestID env' scan now k (fold (pg.run_op ts) ops t) = Inr (res', hit')"
    and ops: "\<forall>a \<in> set ops. case a of Inl (k', rs) \<Rightarrow> k' \<noteq> k | Inr past \<Rightarrow> past \<le> now"
  shows "mset res' = mset res \<and> hit' = hit \<and> (\<forall>r \<in> set res. now < r_ExpiresAt r)
    \<and> distinct (map r_CarrierID res)"
proof -
  have c: "table_contents now k (fold (pg.run_op ts) ops t) = table_contents now k t"
    using ops by (rule pg.run_ops_contents)
  have r: "mset res = mset (table_contents now k t)" using Find_contents [OF find] scan by simp
  have m1: "mset res' = mset res" using Find_contents [OF find'] scan c r by simp
  have m: "mset res' = mset res" "hit' = hit"
    using m1 mset_eq_length [OF m1] FindByRequestID_Inr(2) [OF find] FindByRequestID_Inr(2) [OF find'] by auto
  from r have "set res = set (table_contents now k t)" by (rule mset_eq_setD)
  then have "\<forall>r \<in> set res. now < r_ExpiresAt r" using pg.contents_fresh by auto
  moreover have "mset (map r_CarrierID res) = mset (map r_CarrierID (table_contents now k t))"
    using r by simp
  then have "distinct (map r_CarrierID res)"
    using pg.contents_unique [OF ok, of now k] mset_eq_imp_distinct_iff by blast
  ultimately show ?thesis using m by simp
qed

theorem Find_isolated_witness:
  "\<exists>res res'. FindByRequestID no_find_errors id 5 ''k'' [row_of id ''k'' (demo_result ''alpha'' 200)] = Inr (res, True)
     \<and> FindByRequestID no_find_errors id 5 ''k'' (fold (pg.run_op id) [Inl (''j'', [demo_result ''beta'' 300]), Inr 4]
         [row_of id ''k'' (demo_result ''alpha'' 200)]) = Inr (res', True)
     \<and> mset res' = mset res \<and> list_all (\<lambda>r. 5 < r_ExpiresAt r) res"
proof -
  let ?t = "[row_of id ''k'' (demo_result ''alpha'' 200)]"
  let ?ops = "[Inl (''j'', [demo_result ''beta'' 300]), Inr 4] :: ((string \<times> QuoteResult list) + instant) list"
  obtain res where f: "FindByRequestID no_find_errors id 5 ''k'' ?t = Inr (res, True)"
    using scan_rows_ok [of no_find_errors]
    by (simp add: FindByRequestID_def no_find_errors_def live_rows_def row_of_def demo_result_def Let_def)
  obtain res' hit' where f': "FindByRequestID no_find_errors id 5 ''k'' (fold (pg.run_op id) ?ops ?t) = Inr (res', hit')"
    using scan_rows_ok [of no_find_errors] by (simp add: FindByRequestID_def no_find_errors_def)
  have "mset res' = mset res \<and> hit' = True \<and> (\<forall>r \<in> set res. 5 < r_ExpiresAt r) \<and> distinct (map r_CarrierID res)"
    by (rule Find_isolated [OF _ _ f f']) (simp_all add: table_ok_def)
  with f f' show ?thesis by (auto simp: list_all_iff)
qed

text \<open>
  C24: an expired row shadows a new quote. While a row of the same request and carrier that has
  already expired is still in the table, saving a fresh quote reports success but stores
  nothing for that carrier, and no later lookup returns it.
\<close>
theorem expired_row_blocks_save:
  assumes ok: "table_ok t" and stale: "r \<in> set t" "rw_request_id r = k" "rw_expires_at r \<le> now"
    and save: "Save env ts k rs t = (None, t')"
    and find: "FindByRequestID env' scan now k t' = Inr (res, hit)" and scan: "\<And>t. mset (scan t) = mset t"
  shows "rw_carrier_id r \<notin> set (map r_CarrierID res)"
proof
  assume "rw_carrier_id r \<in> set (map r_CarrierID res)"
  then obtain x where x: "x \<in> set res" "r_CarrierID x = rw_carrier_id r" by auto
  have t': "t' = table_save ts k rs t" using Save_cases(2) [OF save] by simp
  have "x \<in> set (table_contents now k t')"
    using Find_contents [OF find scan] x(1) by (metis mset_eq_setD)
  then obtain r' where r': "r' \<in> set t'" "rw_request_id r' = k" "now < rw_expires_at r'" "rw_carrier_id r' = r_CarrierID x"
    by (auto simp: table_contents_def live_rows_def)
  have "r \<in> set t'" using stale(1) by (simp add: t' save_keeps_rows)
  moreover have "table_ok t'" using ok by (simp add: t' table_ok_save)
  ultimately have "r = r'" using r' x(2) stale(2)
    by (auto simp: table_ok_def distinct_map inj_on_def)
  with r'(3) stale(3) show False by simp
qed

theorem expired_row_blocks_save_witness:
  "\<exists>t'. Save no_save_errors id ''k'' [demo_result ''alpha'' 200]
       [(row_of id ''k'' (demo_result ''alpha'' 999))\<lparr>rw_expires_at := 3\<rparr>] = (None, t')
     \<and> (\<forall>res hit. FindByRequestID no_find_errors id 5 ''k'' t' = Inr (res, hit) \<longrightarrow> ''alpha'' \<notin> set (map r_CarrierID res))"
proof -
  let ?old = "(row_of id ''k'' (demo_result ''alpha'' 999))\<lparr>rw_expires_at := 3\<rparr>"
  obtain t' where s: "Save no_save_errors id ''k'' [demo_result ''alpha'' 200] [?old] = (None, t')"
    using save_rows_ok [of no_save_errors id "''k''" 0 "[demo_result ''alpha'' 200]" "[?old]"]
    by (simp add: Save_def no_save_errors_def)
  have "rw_carrier_id ?old \<notin> set (map r_CarrierID res)"
    if "FindByRequestID no_find_errors id 5 ''k'' t' = Inr (res, hit)" for res hit
    by (rule expired_row_blocks_save [OF _ _ _ _ s that]) (simp_all add: table_ok_def row_of_def Let_def)
  with s show ?thesis by (auto simp: demo_result_def row_of_def Let_def)
qed

end
