(* ===== verification/Orchestrator.thy ===== *)
theory Orchestrator
  imports Fan_Out_Props Repository
begin

text \<open>
  \<^verbatim>\<open>internal/orchestrator/orchestrator.go\<close> around the fan-out machine: construction, the
  scoped key, \<^verbatim>\<open>fanOut\<close> and \<^verbatim>\<open>GetQuotes\<close>. The orchestrator's state is its carriers, its
  registry, the world of breakers, limiters, trackers and recorder calls, and the optional
  repository's table. What the environment decides in one call (clock, schedule of the
  goroutines, behaviour of the token bucket and of the database) is the record \<open>call_env\<close>.
  \<^verbatim>\<open>singleflight.Group.Do\<close> is the argument \<open>Do\<close>, of which only \<open>sf_law\<close> is assumed; \<open>get_call\<close>
  is what a call asks of it. A result is \<open>None\<close> when the given
  schedule is not a complete run.

  Other requests and the sweeper use the same table while a fan-out runs: what they save and
  purge between its start and its own save is \<open>ce_meanwhile\<close>, arbitrary in every theorem.
\<close>

section \<open>State\<close>

definition defaultHedgePollInterval :: duration where "defaultHedgePollInterval = 5 * Millisecond"
definition defaultRequestTimeout :: duration where "defaultRequestTimeout = 5 * Second"

record OrchConfig =
  oc_HedgePollInterval :: duration

record ('l, 'env) Orchestrator =
  o_carriers :: "Carrier list"
  o_registry :: "'env Registry"
  o_world :: "'l world"
  o_repo :: "table option"
  o_cfg :: OrchConfig

definition New_Orchestrator :: "Carrier list \<Rightarrow> 'env Registry \<Rightarrow> 'l world \<Rightarrow> OrchConfig \<Rightarrow> table option
    \<Rightarrow> ('l, 'env) Orchestrator" where
  "New_Orchestrator carriers registry w cfg repo =
     (let cfg = (if oc_HedgePollInterval cfg \<le> 0
                 then cfg\<lparr>oc_HedgePollInterval := defaultHedgePollInterval\<rparr> else cfg)
      in \<lparr>o_carriers = carriers, o_registry = registry, o_world = w, o_repo = repo, o_cfg = cfg\<rparr>)"

definition scopedKey :: "QuoteRequest \<Rightarrow> string" where
  "scopedKey req = (if q_ClientID req = '''' then q_RequestID req
     else q_ClientID req @ '':'' @ q_RequestID req)"

text \<open>
  \<open>ce_start\<close>, \<open>ce_ctx\<close> and \<open>ce_end\<close> are the clock at the start of the call, when the
  context with timeout is made, and when the deferred recorder call runs; \<open>ce_gaps\<close> is what
  other requests change while the fan-out looks at the carriers.
\<close>
type_synonym store_op = "(string \<times> QuoteResult list) + instant"

record ('l, 'env, 'ctx) call_env =
  ce_wait :: "'l \<Rightarrow> 'ctx \<Rightarrow> go_error option \<times> 'l"
  ce_allow :: "'l \<Rightarrow> instant \<Rightarrow> bool \<times> 'l"
  ce_start :: instant
  ce_ctx :: instant
  ce_gaps :: "'l gaps"
  ce_starts :: "string \<Rightarrow> instant"
  ce_labels :: "('l, 'env, 'ctx) fan_label list"
  ce_end :: instant
  ce_meanwhile :: "store_op list"
  ce_save :: save_env
  ce_ts :: "instant \<Rightarrow> instant"
  ce_find :: find_env
  ce_scan :: "table \<Rightarrow> table"
  ce_now :: instant

datatype 'a outcome = Panicked | Returned 'a

text \<open>\<^verbatim>\<open>ports.OrchestratorPort\<close>: its method on a service with state \<open>'s\<close>.\<close>
type_synonym 's OrchestratorPort = "QuoteRequest \<Rightarrow> 's \<Rightarrow> ((go_error + QuoteResult list) outcome \<times> 's) option"

type_synonym ('l, 'env) quotes_run =
  "((go_error + QuoteResult list) outcome \<times> ('l, 'env) Orchestrator) option"

section \<open>Operations\<close>

definition request_timeout :: "QuoteRequest \<Rightarrow> duration" where
  "request_timeout req = (if q_Timeout req \<le> 0 then defaultRequestTimeout else q_Timeout req)"

definition fan_panicked :: "'l fan \<Rightarrow> bool" where
  "fan_panicked f \<longleftrightarrow> list_ex (\<lambda>p. p = P_Panic) (f_prims f) \<or> f_mon f = M_Panic
     \<or> list_ex (\<lambda>h. g_pc h = G_Panic) (f_hedges f)"

text \<open>The deferred \<^verbatim>\<open>RecordFanOutDuration\<close>.\<close>
definition record_duration :: "('l, 'env, 'ctx) call_env \<Rightarrow> ('l, 'env) Orchestrator \<Rightarrow> ('l, 'env) Orchestrator" where
  "record_duration E s =
     s\<lparr>o_world := emit [RecordFanOutDuration (time_Sub (ce_end E) (ce_start E))] (o_world s)\<rparr>"

text \<open>The shared table after the saves (\<open>Inl\<close>) and purges (\<open>Inr\<close>) of concurrent calls.\<close>
definition meanwhile :: "('l, 'env, 'ctx) call_env \<Rightarrow> table \<Rightarrow> table" where
  "meanwhile E t = fold (pg.run_op (ce_ts E)) (ce_meanwhile E) t"

text \<open>The save at the end of \<^verbatim>\<open>fanOut\<close>; its error is only logged.\<close>
definition save_quotes :: "('l, 'env, 'ctx) call_env \<Rightarrow> QuoteRequest \<Rightarrow> QuoteResult list \<Rightarrow> table option \<Rightarrow> table option" where
  "save_quotes E req collected repo =
     (case repo of
        None \<Rightarrow> None
      | Some t \<Rightarrow>
          if q_RequestID req \<noteq> '''' \<and> collected \<noteq> []
          then Some (snd (Save (ce_save E) (ce_ts E) (scopedKey req) collected t)) else Some t)"

definition fan_cfg_of :: "('l, 'env, 'ctx) call_env \<Rightarrow> bool \<Rightarrow> QuoteRequest \<Rightarrow> ('l, 'env) Orchestrator
    \<Rightarrow> ('l, 'env, 'ctx) fan_cfg" where
  "fan_cfg_of E cancel req s =
     fan_cfg_for (ce_wait E) (ce_allow E) (o_registry s) (o_carriers s) req (ce_starts E)
       (ce_ctx E + request_timeout req) cancel (ce_gaps E) (o_world s)"

text \<open>The carriers the fan-out of a request asks.\<close>
definition eligible_for :: "('l, 'env, 'ctx) call_env \<Rightarrow> QuoteRequest \<Rightarrow> ('l, 'env) Orchestrator \<Rightarrow> Carrier list" where
  "eligible_for E req s =
     filterEligibleCarriers (o_carriers s) (seen_by (v_filter (ce_gaps E)) (o_world s)) (q_CoverageLines req)"

definition fanOut :: "('l, 'env, 'ctx) call_env \<Rightarrow> bool \<Rightarrow> QuoteRequest \<Rightarrow> ('l, 'env) Orchestrator
    \<Rightarrow> ('l, 'env) quotes_run" where
  "fanOut E cancel req s =
     (let eligible = eligible_for E req s
      in if eligible = [] then Some (Returned (Inr []), record_duration E s)
         else if \<not> list_all (\<lambda>c. w_trackers (o_world s) (c_ID c) \<noteq> None) eligible
         then Some (Panicked, record_duration E s)
         else let C = fan_cfg_of E cancel req s
              in case fan_run C (ce_labels E) (fan_init C (o_world s)) of
                   None \<Rightarrow> None
                 | Some f \<Rightarrow>
                     if fan_panicked f then Some (Panicked, s\<lparr>o_world := f_world f\<rparr>)
                     else if \<not> finished f then None
                     else let collected = sort_quotes (f_collected f)
                          in Some (Returned (Inr collected), record_duration E
                               (s\<lparr>o_world := f_world f,
                                  o_repo := save_quotes E req collected (map_option (meanwhile E) (o_repo s))\<rparr>)))"

text \<open>The cache lookup of \<^verbatim>\<open>GetQuotes\<close>: a failed lookup counts as a miss.\<close>
definition cache_lookup :: "('l, 'env, 'ctx) call_env \<Rightarrow> QuoteRequest \<Rightarrow> table option \<Rightarrow> QuoteResult list option" where
  "cache_lookup E req repo =
     (case repo of
        None \<Rightarrow> None
      | Some t \<Rightarrow>
          if q_RequestID req = '''' then None
          else case FindByRequestID (ce_find E) (ce_scan E) (ce_now E) (scopedKey req) t of
                 Inl err \<Rightarrow> None
               | Inr (cached, ok) \<Rightarrow> if ok then Some cached else None)"

text \<open>
  What a call does once the cache has been asked: answer from it, call \<^verbatim>\<open>sfGroup.Do\<close> with a key
  and a function, or run the fan-out itself.
\<close>
type_synonym ('l, 'env) flight_fn = "('l, 'env) Orchestrator \<Rightarrow> ('l, 'env) quotes_run"

datatype ('l, 'env) get_action =
    Cached "QuoteResult list"
  | Flight string "('l, 'env) flight_fn"
  | Alone "('l, 'env) flight_fn"

definition get_call :: "('l, 'env, 'ctx) call_env \<Rightarrow> QuoteRequest \<Rightarrow> ('l, 'env) Orchestrator \<Rightarrow> ('l, 'env) get_action" where
  "get_call E req s =
     (let cacheKey = scopedKey req
      in case cache_lookup E req (o_repo s) of
           Some cached \<Rightarrow> Cached cached
         | None \<Rightarrow> if q_RequestID req \<noteq> '''' then Flight cacheKey (fanOut E False req) else Alone (fanOut E True req))"

definition GetQuotes ::
  "(string \<Rightarrow> ('l, 'env) flight_fn \<Rightarrow> ('l, 'env) flight_fn)
    \<Rightarrow> ('l, 'env, 'ctx) call_env \<Rightarrow> QuoteRequest \<Rightarrow> ('l, 'env) Orchestrator \<Rightarrow> ('l, 'env) quotes_run" where
  "GetQuotes Do E req s =
     (case get_call E req s of
        Cached cached \<Rightarrow> Some (Returned (Inr cached), s)
      | Flight key fn \<Rightarrow> Do key fn s
      | Alone fn \<Rightarrow> fn s)"

lemma GetQuotes_hit: "cache_lookup E req (o_repo s) = Some cached \<Longrightarrow> GetQuotes Do E req s = Some (Returned (Inr cached), s)"
  and GetQuotes_flight: "cache_lookup E req (o_repo s) = None \<Longrightarrow> q_RequestID req \<noteq> ''''
    \<Longrightarrow> GetQuotes Do E req s = Do (scopedKey req) (fanOut E False req) s"
  and GetQuotes_alone: "cache_lookup E req (o_repo s) = None \<Longrightarrow> q_RequestID req = ''''
    \<Longrightarrow> GetQuotes Do E req s = fanOut E True req s"
  by (simp_all add: GetQuotes_def get_call_def)

section \<open>What a fan-out returns\<close>

lemma same_dom_trans: "same_dom u v \<Longrightarrow> same_dom v w \<Longrightarrow> same_dom u w"
  by (simp add: same_dom_def)

lemma fan_step_same_dom:
  assumes st: "fan_step C l f = Some f'" and inv: "fan_inv C f" and wf: "cfg_wf C"
  shows "same_dom (f_world f) (f_world f')"
proof (cases l)
  case (Prim k inp)
  then have mv: "prim_move C k inp f = Some f'" using st by simp
  from mv inv show ?thesis by (rule prim_move_cases) (use prim_step_facts in fastforce)
next
  case (Hedge k inp)
  then have mv: "hedge_move C k inp f = Some f'" using st by simp
  from mv inv show ?thesis by (rule hedge_move_cases) simp
next
  case (Scan now')
  have "mon_ok C (f_hedged f) (f_mon f)" "wired C (f_world f)" using inv by (auto simp: fan_inv_defs)
  from st [unfolded Scan] this(1) wf this(2) show ?thesis by (cases rule: scan_cases) simp_all
next
  case (Other i b l' t evs)
  with st same_dom_interfere show ?thesis by auto
qed (use st in \<open>auto simp: close_move_def split: if_splits list.splits close_pc.splits\<close>)

lemma fan_run_same_dom:
  assumes "fan_run C ls f = Some f'" "fan_inv C f" "cfg_wf C"
  shows "same_dom (f_world f) (f_world f')"
  using assms(1,2)
proof (induction ls arbitrary: f)
  case (Cons l ls)
  then obtain f1 where st: "fan_step C l f = Some f1" and run: "fan_run C ls f1 = Some f'"
    by (auto split: option.splits)
  from Cons.IH [OF run fan_step_inv [OF st Cons.prems(2) assms(3)]]
    fan_step_same_dom [OF st Cons.prems(2) assms(3)] show ?case by (rule same_dom_trans [rotated])
qed simp

lemma all_wired_same_dom: "same_dom w w' \<Longrightarrow> all_wired carriers w \<Longrightarrow> all_wired carriers w'"
  by (auto simp: all_wired_def same_dom_def list_all_iff dom_def)

text \<open>Sorted by premium and carrier ID, each carrier at most once.\<close>
definition good_quotes :: "QuoteResult list \<Rightarrow> bool" where
  "good_quotes rs \<longleftrightarrow> sorted (map quote_key rs) \<and> distinct (map r_CarrierID rs)"

definition orch_ok :: "('l, 'env) Orchestrator \<Rightarrow> bool" where
  "orch_ok s \<longleftrightarrow> all_wired (o_carriers s) (o_world s)"

lemma healthy_not_panicked: "fan_inv C f \<Longrightarrow> \<not> fan_panicked f"
  by (fastforce simp: fan_inv_defs fan_panicked_def list_ex_iff list_all_iff in_set_conv_nth hedge_ok_def)

lemma run_inv:
  assumes "orch_ok s" "C = fan_cfg_of E cancel req s" "fan_run C ls (fan_init C (o_world s)) = Some f"
  shows "fan_inv C f" and "fan_reach C (o_world s) f" and "same_dom (o_world s) (f_world f)"
proof -
  have wired: "wired C (o_world s)" and wf: "cfg_wf C"
    using assms(1,2) all_wired_wired by (auto simp: orch_ok_def fan_cfg_of_def)
  show reach: "fan_reach C (o_world s) f" by (rule fan_run_reach [OF assms(3) fan_start])
  show "fan_inv C f" by (rule fan_reach_inv [OF reach wf wired])
  show "same_dom (o_world s) (f_world f)"
    using fan_run_same_dom [OF assms(3) fan_inv_init [OF wired] wf] by (simp add: fan_init_def)
qed

text \<open>
  Every complete run of \<^verbatim>\<open>fanOut\<close>: it returns no error, does not panic, and its quotes come
  from a finished fan-out (or there was no eligible carrier).
\<close>
lemma fanOut_cases:
  assumes ok: "orch_ok s" and run: "fanOut E cancel req s = Some (out, s')"
  obtains (nobody) "eligible_for E req s = []"
      "out = Returned (Inr [])" "s' = record_duration E s"
  | (ran) C f where "C = fan_cfg_of E cancel req s"
      "fan_run C (ce_labels E) (fan_init C (o_world s)) = Some f" "finished f"
      "out = Returned (Inr (sort_quotes (f_collected f)))"
      "s' = record_duration E (s\<lparr>o_world := f_world f,
         o_repo := save_quotes E req (sort_quotes (f_collected f)) (map_option (meanwhile E) (o_repo s))\<rparr>)"
proof (cases "eligible_for E req s = []")
  case True
  with run nobody show ?thesis by (simp add: fanOut_def)
next
  case False
  let ?C = "fan_cfg_of E cancel req s"
  have tr: "list_all (\<lambda>c. w_trackers (o_world s) (c_ID c) \<noteq> None) (eligible_for E req s)"
    using ok by (auto simp: orch_ok_def all_wired_def eligible_for_def filterEligibleCarriers_def list_all_iff)
  with False run obtain f where f: "fan_run ?C (ce_labels E) (fan_init ?C (o_world s)) = Some f"
    by (auto simp: fanOut_def Let_def split: option.splits)
  have "\<not> fan_panicked f" by (rule healthy_not_panicked [OF run_inv(1) [OF ok refl f]])
  with False run tr f have "finished f \<and> out = Returned (Inr (sort_quotes (f_collected f)))
      \<and> s' = record_duration E (s\<lparr>o_world := f_world f,
         o_repo := save_quotes E req (sort_quotes (f_collected f)) (map_option (meanwhile E) (o_repo s))\<rparr>)"
    by (auto simp: fanOut_def Let_def split: if_splits)
  with f ran show ?thesis by blast
qed

lemma finished_good:
  assumes "fan_inv C f" "finished f"
  shows "good_quotes (sort_quotes (f_collected f))"
proof -
  have "f_collected f = fold collect (f_sent f) []"
    using assms by (auto simp: fan_inv_def data_inv_def finished_def)
  then have "distinct (map r_CarrierID (f_collected f))" by (simp add: collect_distinct)
  then show ?thesis
    by (metis good_quotes_def mset_eq_imp_distinct_iff mset_map sort_quotes_facts)
qed

lemma good_quotes_premiums: "good_quotes rs \<Longrightarrow> sorted (map (\<lambda>r. m_Amount (r_Premium r)) rs)"
  by (auto simp: good_quotes_def quote_key_def sorted_map less_eq_prod_def elim!: sorted_wrt_mono_rel [rotated])

lemma orch_simps [simp]:
  "o_carriers (record_duration E s) = o_carriers s" "o_registry (record_duration E s) = o_registry s"
  "o_repo (record_duration E s) = o_repo s"
  "o_world (record_duration E s) = emit [RecordFanOutDuration (time_Sub (ce_end E) (ce_start E))] (o_world s)"
  by (simp_all add: record_duration_def)

lemma fanOut_result:
  assumes ok: "orch_ok s" and run: "fanOut E cancel req s = Some (out, s')"
  shows "\<exists>rs. out = Returned (Inr rs) \<and> good_quotes rs \<and> orch_ok s' \<and> o_carriers s' = o_carriers s
    \<and> o_registry s' = o_registry s
    \<and> (rs = [] \<and> o_repo s' = o_repo s \<or> o_repo s' = save_quotes E req rs (map_option (meanwhile E) (o_repo s)))"
  using ok run
proof (cases rule: fanOut_cases)
  case nobody
  then show ?thesis using ok
    by (auto simp: good_quotes_def orch_ok_def all_wired_def save_quotes_def split: option.splits)
next
  case (ran C f)
  note inv = run_inv [OF ok ran(1,2)]
  show ?thesis using ok ran(4,5) finished_good [OF inv(1) ran(3)] all_wired_same_dom [OF inv(3)]
    by (simp add: orch_ok_def) (simp add: all_wired_def)
qed

section \<open>The port\<close>

text \<open>
  The contract of \<^verbatim>\<open>ports.OrchestratorPort\<close> its clients rely on: a call returns quotes sorted by
  premium with one quote per carrier, never an error, and leaves the service usable. The
  derived law is about any sequence of calls.
\<close>
locale quote_port =
  fixes get :: "'e \<Rightarrow> 's OrchestratorPort"
    and usable :: "'s \<Rightarrow> bool" and fit :: "'e \<Rightarrow> bool"
  assumes get_quotes: "usable s \<Longrightarrow> fit e \<Longrightarrow> get e req s = Some (out, s')
    \<Longrightarrow> usable s' \<and> (\<exists>rs. out = Returned (Inr rs) \<and> sorted (map (\<lambda>r. m_Amount (r_Premium r)) rs)
          \<and> distinct (map r_CarrierID rs))"
begin

fun serve :: "('e \<times> QuoteRequest) list \<Rightarrow> 's \<Rightarrow> ((go_error + QuoteResult list) outcome list \<times> 's) option" where
  "serve [] s = Some ([], s)"
| "serve ((e, req) # cs) s =
     (case get e req s of
        None \<Rightarrow> None
      | Some (out, s') \<Rightarrow> map_option (\<lambda>(outs, s''). (out # outs, s'')) (serve cs s'))"

lemma serve_never_fails:
  assumes "usable s" "list_all (\<lambda>(e, req). fit e) cs" "serve cs s = Some (outs, s')"
  shows "usable s' \<and> list_all (\<lambda>out. \<exists>rs. out = Returned (Inr rs)) outs"
  using assms
proof (induction cs arbitrary: s outs)
  case (Cons c cs)
  obtain e req where c: "c = (e, req)" by (cases c)
  obtain out s1 outs' where g: "get e req s = Some (out, s1)" and r: "serve cs s1 = Some (outs', s')"
    and outs: "outs = out # outs'"
    using Cons.prems(3) by (auto simp: c split: option.splits)
  have fit: "fit e" using Cons.prems(2) by (simp add: c)
  note get = get_quotes [OF Cons.prems(1) fit g]
  with Cons.IH [OF _ _ r] Cons.prems(2) show ?case by (auto simp: c outs)
qed simp

end

section \<open>Deduplicated calls\<close>

text \<open>
  \<^verbatim>\<open>golang.org/x/sync/singleflight\<close> documents that \<^verbatim>\<open>Do\<close> makes sure only one execution is in
  flight for a key at a time; a duplicate caller waits for the original and receives its
  results. The executions in flight are given by their key, function and state. \<open>sf_law\<close>: a
  call of \<^verbatim>\<open>Do\<close> runs its function, or returns the result of an execution in flight under the
  same key (and does nothing itself). \<open>sf_joins\<close>: while there is one, the call joins.
\<close>
type_synonym ('l, 'env) flight = "string \<times> ('l, 'env) flight_fn \<times> ('l, 'env) Orchestrator"

definition joined :: "('l, 'env) flight \<Rightarrow> ('l, 'env) flight_fn" where
  "joined x s = (case x of (k, fn, s0) \<Rightarrow> map_option (\<lambda>res. (fst res, s)) (fn s0))"

definition sf_law :: "(string \<Rightarrow> ('l, 'env) flight_fn \<Rightarrow> ('l, 'env) flight_fn) \<Rightarrow> ('l, 'env) flight list \<Rightarrow> bool" where
  "sf_law Do flights \<longleftrightarrow> (\<forall>k fn s. Do k fn s = fn s \<or> (\<exists>x \<in> set flights. fst x = k \<and> Do k fn s = joined x s))"

definition sf_joins :: "(string \<Rightarrow> ('l, 'env) flight_fn \<Rightarrow> ('l, 'env) flight_fn) \<Rightarrow> ('l, 'env) flight list \<Rightarrow> bool" where
  "sf_joins Do flights \<longleftrightarrow> (\<forall>x \<in> set flights. \<forall>fn s. \<exists>y \<in> set flights. fst y = fst x \<and> Do (fst x) fn s = joined y s)"

text \<open>The executions that calls of \<^verbatim>\<open>GetQuotes\<close> have in flight.\<close>
type_synonym ('l, 'env, 'ctx) call = "('l, 'env, 'ctx) call_env \<times> QuoteRequest \<times> ('l, 'env) Orchestrator"

definition flight_of :: "('l, 'env, 'ctx) call \<Rightarrow> ('l, 'env) flight option" where
  "flight_of c = (case c of (E, req, s) \<Rightarrow>
     (case get_call E req s of Flight key fn \<Rightarrow> Some (key, fn, s) | _ \<Rightarrow> None))"

definition in_flight :: "('l, 'env, 'ctx) call list \<Rightarrow> ('l, 'env) flight list" where
  "in_flight calls = List.map_filter flight_of calls"

lemma in_flightE:
  assumes "x \<in> set (in_flight calls)"
  obtains E req s where "(E, req, s) \<in> set calls" "x = (scopedKey req, fanOut E False req, s)"
    "cache_lookup E req (o_repo s) = None" "q_RequestID req \<noteq> ''''"
  using assms
  by (auto simp: in_flight_def List.map_filter_def flight_of_def get_call_def Let_def
      split: option.splits if_splits get_action.splits)

lemma in_flight_one:
  "cache_lookup E req (o_repo s) = None \<Longrightarrow> q_RequestID req \<noteq> ''''
    \<Longrightarrow> in_flight [(E, req, s)] = [(scopedKey req, fanOut E False req, s)]"
  by (simp add: in_flight_def List.map_filter_def flight_of_def get_call_def)

text \<open>An instance: the first execution in flight under the key is joined.\<close>
definition share_do :: "('l, 'env) flight list \<Rightarrow> string \<Rightarrow> ('l, 'env) flight_fn \<Rightarrow> ('l, 'env) flight_fn" where
  "share_do flights k fn s = (case List.find (\<lambda>x. fst x = k) flights of None \<Rightarrow> fn s | Some x \<Rightarrow> joined x s)"

lemma share_do_law: "sf_law (share_do flights) flights" "sf_joins (share_do flights) flights"
  by (auto simp: sf_law_def sf_joins_def share_do_def find_Some_iff find_None_iff split: option.splits)

text \<open>
  The three ways a call is answered: from the cache, by its own fan-out, or by the fan-out of a
  call in flight under the same key.
\<close>
lemma GetQuotes_cases:
  assumes sf: "sf_law Do (in_flight calls)" and run: "GetQuotes Do E req s = Some (out, s')"
  obtains (hit) cached where "cache_lookup E req (o_repo s) = Some cached" "out = Returned (Inr cached)" "s' = s"
  | (own) cancel where "cache_lookup E req (o_repo s) = None" "fanOut E cancel req s = Some (out, s')"
  | (other) E0 req0 s0 s1 where "(E0, req0, s0) \<in> set calls" "scopedKey req0 = scopedKey req" "q_RequestID req0 \<noteq> ''''"
      "q_RequestID req \<noteq> ''''" "cache_lookup E req (o_repo s) = None" "fanOut E0 False req0 s0 = Some (out, s1)" "s' = s"
proof (cases "cache_lookup E req (o_repo s)")
  case (Some cached)
  then have "out = Returned (Inr cached)" "s' = s" using run GetQuotes_hit [OF Some, of Do] by simp_all
  with hit [OF Some] show ?thesis by blast
next
  case None
  show ?thesis
  proof (cases "q_RequestID req = ''''")
    case True
    then have "fanOut E True req s = Some (out, s')" using run GetQuotes_alone [OF None, of Do] by simp
    with own [OF None] show ?thesis by blast
  next
    case False
    then have d: "Do (scopedKey req) (fanOut E False req) s = Some (out, s')" using None run by (simp add: GetQuotes_flight)
    consider "fanOut E False req s = Some (out, s')"
      | x where "x \<in> set (in_flight calls)" "fst x = scopedKey req" "joined x s = Some (out, s')"
      using sf d unfolding sf_law_def by metis
    then show ?thesis
    proof cases
      case 1
      with None own show ?thesis by blast
    next
      case (2 x)
      from 2(1) obtain E0 req0 s0 where x: "(E0, req0, s0) \<in> set calls" "x = (scopedKey req0, fanOut E0 False req0, s0)"
        "q_RequestID req0 \<noteq> ''''" by (rule in_flightE)
      obtain s1 where "fanOut E0 False req0 s0 = Some (out, s1)" "s' = s" using 2(3) by (auto simp: joined_def x(2))
      with other [OF x(1)] x(2,3) 2(2) None False show ?thesis by simp
    qed
  qed
qed

definition repo_ok :: "table option \<Rightarrow> bool" where
  "repo_ok repo \<longleftrightarrow> (case repo of None \<Rightarrow> True | Some t \<Rightarrow> table_ok t)"

lemma save_quotes_ok: "repo_ok repo \<Longrightarrow> repo_ok (save_quotes E req rs repo)"
proof (cases repo)
  case (Some t)
  assume "repo_ok repo"
  with Some have ok: "table_ok t" by (simp add: repo_ok_def)
  obtain err t' where s: "Save (ce_save E) (ce_ts E) (scopedKey req) rs t = (err, t')"
    by (cases "Save (ce_save E) (ce_ts E) (scopedKey req) rs t")
  have "t' = t \<or> t' = table_save (ce_ts E) (scopedKey req) rs t" using Save_cases(1) [OF s] .
  then have "table_ok t'" using ok pg.ok_saved by metis
  with Some ok s show ?thesis by (simp add: repo_ok_def save_quotes_def)
qed (simp add: repo_ok_def save_quotes_def)

lemma meanwhile_ok: "repo_ok repo \<Longrightarrow> repo_ok (map_option (meanwhile E) repo)"
  using pg.run_ops_ok by (auto simp: repo_ok_def meanwhile_def split: option.splits)

lemma cache_lookup_good:
  assumes "cache_lookup E req repo = Some rs" "repo_ok repo" "\<And>t. mset (ce_scan E t) = mset t"
  shows "sorted (map (\<lambda>r. m_Amount (r_Premium r)) rs) \<and> distinct (map r_CarrierID rs)"
proof -
  obtain t where t: "repo = Some t" and find: "FindByRequestID (ce_find E) (ce_scan E) (ce_now E) (scopedKey req) t = Inr (rs, True)"
    using assms(1) by (auto simp: cache_lookup_def split: option.splits if_splits sum.splits)
  have ok: "table_ok t" using assms(2) t by (simp add: repo_ok_def)
  have "distinct (map r_CarrierID (table_contents (ce_now E) (scopedKey req) t))" using pg.contents_unique [OF ok] .
  moreover have "mset rs = mset (table_contents (ce_now E) (scopedKey req) t)" using Find_contents [OF find assms(3)] .
  ultimately have "distinct (map r_CarrierID rs)" by (metis mset_map mset_eq_imp_distinct_iff)
  moreover have "sorted (map (\<lambda>r. m_Amount (r_Premium r)) rs)"
    by (simp add: FindByRequestID_Inr(1) [OF find] comp_def)
  ultimately show ?thesis by simp
qed

definition usable_orch :: "('l, 'env) Orchestrator \<Rightarrow> bool" where
  "usable_orch s \<longleftrightarrow> orch_ok s \<and> repo_ok (o_repo s)"

text \<open>
  A query returns the selected rows in some order; the calls in flight started from a usable
  state; \<^verbatim>\<open>Do\<close> behaves as documented.
\<close>
definition fit_env :: "('l, 'env, 'ctx) call_env \<times> ('l, 'env, 'ctx) call list
    \<times> (string \<Rightarrow> ('l, 'env) flight_fn \<Rightarrow> ('l, 'env) flight_fn) \<Rightarrow> bool" where
  "fit_env e \<longleftrightarrow> (case e of (E, calls, Do) \<Rightarrow>
     (\<forall>t. mset (ce_scan E t) = mset t) \<and> list_all (\<lambda>(E0, req0, s0). orch_ok s0) calls \<and> sf_law Do (in_flight calls))"

lemma GetQuotes_good:
  assumes s: "usable_orch s" and fit: "fit_env (E, calls, Do)" and run: "GetQuotes Do E req s = Some (out, s')"
  shows "usable_orch s' \<and> (\<exists>rs. out = Returned (Inr rs) \<and> sorted (map (\<lambda>r. m_Amount (r_Premium r)) rs)
          \<and> distinct (map r_CarrierID rs))"
proof -
  have sf: "sf_law Do (in_flight calls)" using fit by (simp add: fit_env_def)
  from sf run show ?thesis
  proof (cases rule: GetQuotes_cases)
    case (hit cached)
    with cache_lookup_good [OF hit(1)] s fit show ?thesis by (simp add: usable_orch_def fit_env_def)
  next
    case (own cancel)
    then show ?thesis
      using fanOut_result [OF _ own(2)] s save_quotes_ok [OF meanwhile_ok [of "o_repo s" E], of E req] good_quotes_premiums
      by (auto simp: usable_orch_def good_quotes_def)
  next
    case (other E0 req0 s0 s1)
    have "orch_ok s0" using fit other(1) by (auto simp: fit_env_def list_all_iff)
    from fanOut_result [OF this other(6)] obtain rs where "out = Returned (Inr rs)" "good_quotes rs" by blast
    with s other(7) good_quotes_premiums [of rs] show ?thesis by (simp add: good_quotes_def)
  qed
qed

interpretation gateway: quote_port "\<lambda>(E, calls, Do) req s. GetQuotes Do E req s" usable_orch fit_env
proof
  fix s e req out s'
  assume *: "usable_orch s" "fit_env e" "(case e of (E, calls, Do) \<Rightarrow> \<lambda>req s. GetQuotes Do E req s) req s = Some (out, s')"
  obtain E calls Do where e: "e = (E, calls, Do)" by (cases e)
  from GetQuotes_good [OF *(1), of E calls Do req out s'] * show "usable_orch s' \<and> (\<exists>rs. out = Returned (Inr rs)
      \<and> sorted (map (\<lambda>r. m_Amount (r_Premium r)) rs) \<and> distinct (map r_CarrierID rs))"
    by (simp add: e)
qed

section \<open>Keys\<close>

lemma scopedKey_inj:
  assumes "scopedKey req = scopedKey req'" "length (q_ClientID req) = length (q_ClientID req')"
  shows "q_ClientID req = q_ClientID req' \<and> q_RequestID req = q_RequestID req'"
  using assms by (auto simp: scopedKey_def split: if_splits)

lemma fanOut_repo:
  assumes "orch_ok s" "fanOut E cancel req s = Some (Returned (Inr rs), s')" "o_repo s = Some t" "rs \<noteq> []"
    and "q_RequestID req \<noteq> ''''"
  shows "o_repo s' = Some (snd (Save (ce_save E) (ce_ts E) (scopedKey req) rs (meanwhile E t)))"
  using fanOut_result [OF assms(1,2)] assms(3-) by (auto simp: save_quotes_def)

text \<open>Operations on other keys and purges of the past do not change what \<open>now\<close> sees under \<open>k\<close>.\<close>
definition spares :: "string \<Rightarrow> instant \<Rightarrow> store_op \<Rightarrow> bool" where
  "spares k now a = (case a of Inl (k', rs) \<Rightarrow> k' \<noteq> k | Inr past \<Rightarrow> past \<le> now)"

lemma spared_contents:
  "list_all (spares k now) ops \<Longrightarrow> table_contents now k (fold (pg.run_op ts) ops t) = table_contents now k t"
  by (rule pg.run_ops_contents) (auto simp: list_all_iff spares_def split: sum.splits)

lemma fanOut_other_key:
  assumes s: "orch_ok s" and run: "fanOut E cancel req s = Some (out, s')"
    and t: "o_repo s = Some t" and k: "k \<noteq> scopedKey req" and mw: "list_all (spares k now) (ce_meanwhile E)"
  shows "\<exists>t'. o_repo s' = Some t' \<and> table_contents now k t' = table_contents now k t"
proof -
  have mw': "table_contents now k (meanwhile E t) = table_contents now k t"
    unfolding meanwhile_def using mw by (rule spared_contents)
  obtain rs where repo: "o_repo s' = Some t \<or> o_repo s' = save_quotes E req rs (Some (meanwhile E t))"
    using fanOut_result [OF s run] t by auto
  obtain err t' where sv: "Save (ce_save E) (ce_ts E) (scopedKey req) rs (meanwhile E t) = (err, t')"
    by (cases "Save (ce_save E) (ce_ts E) (scopedKey req) rs (meanwhile E t)")
  have "t' = meanwhile E t \<or> t' = table_save (ce_ts E) (scopedKey req) rs (meanwhile E t)" using Save_cases(1) [OF sv] .
  then have "table_contents now k t' = table_contents now k (meanwhile E t)" using pg.saved_other [OF k] by metis
  with repo sv mw' show ?thesis by (auto simp: save_quotes_def split: if_splits)
qed

lemma cache_lookup_contents:
  assumes "cache_lookup E req repo = Some cached" "repo = Some t" "\<And>t. mset (ce_scan E t) = mset t"
  shows "mset cached = mset (table_contents (ce_now E) (scopedKey req) t)"
proof -
  have "FindByRequestID (ce_find E) (ce_scan E) (ce_now E) (scopedKey req) t = Inr (cached, True)"
    using assms(1,2) by (auto simp: cache_lookup_def split: if_splits sum.splits)
  from Find_contents [OF this assms(3)] show ?thesis .
qed

section \<open>Hits\<close>

lemma cache_hit:
  assumes repo: "o_repo s = Some t" "table_contents (ce_now E) (scopedKey req) t = cs" "cs \<noteq> []"
    and req: "q_RequestID req \<noteq> ''''" and find: "ce_find E = no_find_errors" "\<And>t. mset (ce_scan E t) = mset t"
  shows "\<exists>cached. GetQuotes Do E req s = Some (Returned (Inr cached), s) \<and> mset cached = mset cs
    \<and> sorted (map (\<lambda>r. m_Amount (r_Premium r)) cached)"
proof -
  obtain cached hit where f: "FindByRequestID no_find_errors (ce_scan E) (ce_now E) (scopedKey req) t = Inr (cached, hit)"
    using scan_rows_ok [of no_find_errors] by (simp add: FindByRequestID_def no_find_errors_def)
  have m: "mset cached = mset cs" using Find_contents [OF f find(2)] repo(2) by simp
  then have "cached \<noteq> []" using repo(3) by auto
  then have hit: hit using FindByRequestID_Inr(2) [OF f] by simp
  have srt: "sorted (map (\<lambda>r. m_Amount (r_Premium r)) cached)" by (simp add: FindByRequestID_Inr(1) [OF f] comp_def)
  have "cache_lookup E req (o_repo s) = Some cached" using repo(1) req find(1) f hit by (simp add: cache_lookup_def)
  then have "GetQuotes Do E req s = Some (Returned (Inr cached), s)" by (rule GetQuotes_hit)
  with m srt show ?thesis by blast
qed

text \<open>A second call, under the same key, after the quotes of the first were saved.\<close>
lemma cache_hit_after_save:
  assumes ok: "orch_ok s" and run: "fanOut E False req s = Some (Returned (Inr rs), s')"
    and repo: "o_repo s = Some t" "\<forall>r \<in> set (meanwhile E t). rw_request_id r \<noteq> scopedKey req"
    and req: "q_RequestID req \<noteq> ''''" "rs \<noteq> []"
    and saved: "fst (Save (ce_save E) (ce_ts E) (scopedKey req) rs (meanwhile E t)) = None"
    and later: "o_repo s2 = map_option (fold (pg.run_op ts) ops) (o_repo s')"
      "list_all (spares (scopedKey req) (ce_now E')) ops"
      "ce_find E' = no_find_errors" "\<And>t. mset (ce_scan E' t) = mset t"
      "\<forall>r \<in> set rs. ce_now E' < ce_ts E (r_ExpiresAt r)"
    and req': "scopedKey req' = scopedKey req" "q_RequestID req' \<noteq> ''''"
  shows "\<exists>cached. GetQuotes Do E' req' s2 = Some (Returned (Inr cached), s2)
    \<and> mset cached = mset (map (cached_form (ce_ts E) (scopedKey req)) rs)
    \<and> sorted (map (\<lambda>r. m_Amount (r_Premium r)) cached)"
proof -
  let ?k = "scopedKey req"
  have dist: "distinct (map r_CarrierID rs)" using fanOut_result [OF ok run] by (auto simp: good_quotes_def)
  obtain t' where sv: "Save (ce_save E) (ce_ts E) ?k rs (meanwhile E t) = (None, t')"
    using saved by (cases "Save (ce_save E) (ce_ts E) ?k rs (meanwhile E t)") auto
  have "o_repo s' = Some t'" using fanOut_repo [OF ok run repo(1) req(2,1)] sv by simp
  then have s2: "o_repo s2 = Some (fold (pg.run_op ts) ops t')" using later(1) by simp
  have "table_contents (ce_now E') ?k t' = map (cached_form (ce_ts E) ?k) rs"
    using saved_contents [OF dist later(5) repo(2)] Save_cases(2) [OF sv] by simp
  then have "table_contents (ce_now E') (scopedKey req') (fold (pg.run_op ts) ops t') = map (cached_form (ce_ts E) ?k) rs"
    using spared_contents [OF later(2), of ts t'] req'(1) by simp
  from cache_hit [OF s2 this _ req'(2) later(3,4)] req(2) show ?thesis by simp
qed

section \<open>An example call\<close>

definition demo_orch :: "(unit, mock_env) Orchestrator" where
  "demo_orch = New_Orchestrator demo_carriers demo_registry demo_world \<lparr>oc_HedgePollInterval = 0\<rparr> (Some [])"

definition demo_env :: "(unit, mock_env, unit) call_env" where
  "demo_env = \<lparr>ce_wait = demo_wait, ce_allow = demo_allow, ce_start = 0, ce_ctx = 0, ce_gaps = no_gaps, ce_starts = (\<lambda>i. 0),
     ce_labels = demo_labels, ce_end = Second, ce_meanwhile = [], ce_save = no_save_errors, ce_ts = id, ce_find = no_find_errors,
     ce_scan = rev, ce_now = Second\<rparr>"

lemma demo_orch_simps [simp]:
  "o_carriers demo_orch = demo_carriers" "o_registry demo_orch = demo_registry"
  "o_world demo_orch = demo_world" "o_repo demo_orch = Some []"
  by (simp_all add: demo_orch_def New_Orchestrator_def Let_def)

lemma demo_no_meanwhile [simp]: "meanwhile demo_env t = t" "ce_meanwhile demo_env = []"
  by (simp_all add: meanwhile_def demo_env_def)

lemma demo_usable: "usable_orch demo_orch" "orch_ok demo_orch"
  using demo_wired by (simp_all add: usable_orch_def orch_ok_def repo_ok_def table_ok_def)

lemma demo_fit: "fit_env (demo_env, calls, share_do (in_flight calls))"
  if "list_all (\<lambda>(E0, req0, s0). orch_ok s0) calls"
  using that share_do_law(1) by (simp add: fit_env_def demo_env_def)

lemma demo_fit_alone: "fit_env (demo_env, [], share_do [])"
  using demo_fit [of "[]"] by (simp add: in_flight_def List.map_filter_def)

lemma demo_sorted: "sort_quotes [demo_quote ''alpha'' 50300, demo_quote ''gamma'' 50200]
    = [demo_quote ''gamma'' 50200, demo_quote ''alpha'' 50300]"
  by (simp add: sort_quotes_def quote_key_def demo_quote_def)

text \<open>The example call, over any table.\<close>
lemma demo_fanOut_over:
  obtains s' where "fanOut demo_env False demo_request (demo_orch\<lparr>o_repo := repo\<rparr>)
    = Some (Returned (Inr [demo_quote ''gamma'' 50200, demo_quote ''alpha'' 50300]), s')"
proof -
  let ?s = "demo_orch\<lparr>o_repo := repo\<rparr>"
  obtain f where f: "fan_run demo_fan demo_labels (fan_init demo_fan demo_world) = Some f" "finished f"
    "f_collected f = [demo_quote ''alpha'' 50300, demo_quote ''gamma'' 50200]" by (rule demo_run)
  have C: "fan_cfg_of demo_env False demo_request ?s = demo_fan"
    by (simp add: fan_cfg_of_def demo_fan_def demo_env_def request_timeout_def demo_request_def Second_def)
  have "orch_ok ?s" using demo_usable(2) by (simp add: orch_ok_def)
  from run_inv(1) [OF this refl, of demo_env False demo_request demo_labels f] f(1)
  have "\<not> fan_panicked f" by (intro healthy_not_panicked) (simp add: C)
  moreover have el: "eligible_for demo_env demo_request ?s = demo_carriers"
    by (simp add: eligible_for_def demo_env_def demo_eligible)
  moreover have "demo_carriers \<noteq> []" by (simp add: demo_carriers_def)
  moreover have "list_all (\<lambda>c. w_trackers demo_world (c_ID c) \<noteq> None) demo_carriers"
    using demo_wired by (auto simp: all_wired_def list_all_iff)
  moreover have "ce_labels demo_env = demo_labels" by (simp add: demo_env_def)
  ultimately show ?thesis using that f by (simp add: fanOut_def Let_def C demo_sorted)
qed

lemma demo_fanOut:
  obtains s' where "fanOut demo_env False demo_request demo_orch
    = Some (Returned (Inr [demo_quote ''gamma'' 50200, demo_quote ''alpha'' 50300]), s')"
  using demo_fanOut_over [of "Some []"] by (metis demo_orch_simps(4) Orchestrator.Orchestrator.surjective Orchestrator.Orchestrator.update_convs(4))

lemma demo_miss: "cache_lookup demo_env demo_request (Some []) = None" "q_RequestID demo_request \<noteq> ''''"
  by (simp_all add: cache_lookup_def demo_env_def no_find_errors_def FindByRequestID_def live_rows_def demo_request_def)

lemma demo_get:
  obtains s' where "GetQuotes (share_do []) demo_env demo_request demo_orch
    = Some (Returned (Inr [demo_quote ''gamma'' 50200, demo_quote ''alpha'' 50300]), s')"
proof -
  obtain s' where run: "fanOut demo_env False demo_request demo_orch
    = Some (Returned (Inr [demo_quote ''gamma'' 50200, demo_quote ''alpha'' 50300]), s')" by (rule demo_fanOut)
  have "GetQuotes (share_do []) demo_env demo_request demo_orch
      = Some (Returned (Inr [demo_quote ''gamma'' 50200, demo_quote ''alpha'' 50300]), s')"
    using run by (simp add: GetQuotes_flight demo_miss share_do_def)
  then show ?thesis by (rule that)
qed

section \<open>Properties\<close>

text \<open>
  C3: \<^verbatim>\<open>GetQuotes\<close> never fails. On a wired orchestrator every call that runs to its end,
  whether answered by the cache, by a fan-out or by a concurrent call with the same key,
  returns quotes without an error and without a panic, sorted by premium, at most one for each
  carrier, and leaves the orchestrator wired and the table's key constraint intact. In
  particular the errors \<^verbatim>\<open>ErrNoEligibleCarriers\<close> and \<^verbatim>\<open>ErrCarrierTimeout\<close> that the domain
  package announces for these cases never come back; the list is empty or partial instead.
\<close>
theorem GetQuotes_never_fails:
  assumes "usable_orch s" "fit_env (E, calls, Do)" and "GetQuotes Do E req s = Some (out, s')"
  shows "usable_orch s' \<and> (\<exists>rs. out = Returned (Inr rs) \<and> sorted (map (\<lambda>r. m_Amount (r_Premium r)) rs)
    \<and> distinct (map r_CarrierID rs))"
  using assms by (rule GetQuotes_good)

theorem GetQuotes_never_fails_witness:
  "\<exists>rs s'. GetQuotes (share_do (in_flight [(demo_env, demo_request, demo_orch)])) demo_env demo_request demo_orch
       = Some (Returned (Inr rs), s') \<and> length rs = 2 \<and> usable_orch s'"
proof -
  let ?calls = "[(demo_env, demo_request, demo_orch)]"
  obtain s1 where run: "fanOut demo_env False demo_request demo_orch
    = Some (Returned (Inr [demo_quote ''gamma'' 50200, demo_quote ''alpha'' 50300]), s1)" by (rule demo_fanOut)
  have get: "GetQuotes (share_do (in_flight ?calls)) demo_env demo_request demo_orch
      = Some (Returned (Inr [demo_quote ''gamma'' 50200, demo_quote ''alpha'' 50300]), demo_orch)"
    using run by (simp add: GetQuotes_flight in_flight_one demo_miss share_do_def joined_def)
  have "fit_env (demo_env, ?calls, share_do (in_flight ?calls))" by (rule demo_fit) (simp add: demo_usable)
  from GetQuotes_never_fails [OF demo_usable(1) this get] get show ?thesis
    by (intro exI conjI) (assumption, simp, blast)
qed

text \<open>
  A fan-out always has a complete run: whatever the environment, some schedule of its
  goroutines makes \<^verbatim>\<open>fanOut\<close> return a sorted list without duplicates.
\<close>
theorem fanOut_can_return:
  assumes "orch_ok s"
  shows "\<exists>ls rs s'. fanOut (E\<lparr>ce_labels := ls\<rparr>) cancel req s = Some (Returned (Inr rs), s') \<and> good_quotes rs"
proof -
  let ?C = "fan_cfg_of E cancel req s"
  have wired: "wired ?C (o_world s)" using assms all_wired_wired by (simp add: orch_ok_def fan_cfg_of_def)
  obtain ls f where f: "fan_run ?C ls (fan_init ?C (o_world s)) = Some f" "finished f"
    using fan_completes_from [OF fan_inv_init [OF wired]] by (auto simp: fan_cfg_of_def)
  have C: "fan_cfg_of (E\<lparr>ce_labels := ls\<rparr>) cancel req s = ?C" by (simp add: fan_cfg_of_def)
  have "fanOut (E\<lparr>ce_labels := ls\<rparr>) cancel req s \<noteq> None"
    using f healthy_not_panicked [OF run_inv(1) [OF assms refl f(1)]]
    by (auto simp: fanOut_def Let_def C)
  then obtain out s' where "fanOut (E\<lparr>ce_labels := ls\<rparr>) cancel req s = Some (out, s')" by auto
  with fanOut_result [OF assms this] show ?thesis by blast
qed

theorem fanOut_can_return_witness:
  "\<exists>ls rs s'. fanOut (demo_env\<lparr>ce_labels := ls\<rparr>) True demo_request demo_orch = Some (Returned (Inr rs), s')"
  using fanOut_can_return [OF demo_usable(2)] by blast

text \<open>
  C9: a repeated request is answered from the cache. If the quotes of a fan-out were saved
  without an error, and the table had no row under their key when they were saved, a call with
  the same request, made while none of the quotes has expired and with a lookup that does not
  fail, returns the cached forms of exactly these quotes sorted by premium, without running a
  fan-out: the orchestrator's state is unchanged. During the fan-out concurrent calls may save
  under other keys and purge; between the two calls other keys may be saved and the past
  purged.
\<close>
theorem repeated_request_hits_cache:
  assumes "orch_ok s" and "fanOut E False req s = Some (Returned (Inr rs), s')"
    and "o_repo s = Some t" "\<forall>r \<in> set (meanwhile E t). rw_request_id r \<noteq> scopedKey req"
    and "q_RequestID req \<noteq> ''''" "rs \<noteq> []"
    and "fst (Save (ce_save E) (ce_ts E) (scopedKey req) rs (meanwhile E t)) = None"
    and "o_repo s2 = map_option (fold (pg.run_op ts) ops) (o_repo s')"
    and "list_all (spares (scopedKey req) (ce_now E')) ops"
    and "ce_find E' = no_find_errors" "\<And>t. mset (ce_scan E' t) = mset t"
    and "\<forall>r \<in> set rs. ce_now E' < ce_ts E (r_ExpiresAt r)"
  shows "\<exists>cached. GetQuotes Do E' req s2 = Some (Returned (Inr cached), s2)
    \<and> mset cached = mset (map (cached_form (ce_ts E) (scopedKey req)) rs)
    \<and> sorted (map (\<lambda>r. m_Amount (r_Premium r)) cached)"
  using assms by (intro cache_hit_after_save) simp_all

theorem repeated_request_hits_cache_witness:
  "\<exists>s' cached. GetQuotes (share_do []) demo_env demo_request s' = Some (Returned (Inr cached), s') \<and> length cached = 2"
proof -
  let ?rs = "[demo_quote ''gamma'' 50200, demo_quote ''alpha'' 50300]"
  obtain s' where run: "fanOut demo_env False demo_request demo_orch = Some (Returned (Inr ?rs), s')" by (rule demo_fanOut)
  have "fst (Save (ce_save demo_env) (ce_ts demo_env) (scopedKey demo_request) ?rs []) = None"
    using save_rows_ok [of no_save_errors] by (simp add: demo_env_def Save_def no_save_errors_def)
  moreover have "q_RequestID demo_request \<noteq> ''''" "ce_find demo_env = no_find_errors" "ce_scan demo_env = rev"
      "\<forall>r \<in> set ?rs. ce_now demo_env < ce_ts demo_env (r_ExpiresAt r)"
    by (simp_all add: demo_request_def demo_env_def demo_quote_def duration_consts)
  ultimately obtain cached where c: "GetQuotes (share_do []) demo_env demo_request s' = Some (Returned (Inr cached), s')"
      "mset cached = mset (map (cached_form (ce_ts demo_env) (scopedKey demo_request)) ?rs)"
    using repeated_request_hits_cache [OF demo_usable(2) run, of "[]" s' id "[]" demo_env "share_do []"]
    by (auto simp: demo_no_meanwhile option.map_id)
  have "length cached = 2" using mset_eq_length [OF c(2)] by simp
  with c(1) show ?thesis by blast
qed

text \<open>
  C10: clients do not see each other's quotes. Let a fan-out for a request of one client run, and
  then other saves and purges that spare the second client's key. A call of the second client,
  whose ID has the same length (those of parsed keys do), is answered in one of three ways: from
  the cache, with what the table held under its own key before the first client's fan-out; by its
  own fan-out; or by the fan-out of a call in flight that was made by the same client with the
  same request ID. This holds for every \<^verbatim>\<open>Do\<close> that behaves as documented, whatever calls of
  clients with IDs of that length are in flight.
\<close>
theorem clients_isolated:
  assumes a: "orch_ok s" "fanOut E cancel req s = Some (out, s')" "o_repo s = Some t"
    and ids: "length (q_ClientID req) = length (q_ClientID req')" "q_ClientID req \<noteq> q_ClientID req'"
      "list_all (\<lambda>(E0, req0, s0). length (q_ClientID req0) = length (q_ClientID req')) calls"
    and between: "list_all (spares (scopedKey req') (ce_now E')) (ce_meanwhile E)"
      "o_repo s1 = map_option (fold (pg.run_op ts) ops) (o_repo s')"
      "list_all (spares (scopedKey req') (ce_now E')) ops"
    and b: "sf_law Do (in_flight calls)" "\<And>t. mset (ce_scan E' t) = mset t"
      "GetQuotes Do E' req' s1 = Some (out', s1')"
  shows "(\<exists>cached. out' = Returned (Inr cached) \<and> s1' = s1
        \<and> mset cached = mset (table_contents (ce_now E') (scopedKey req') t))
    \<or> (\<exists>cancel'. fanOut E' cancel' req' s1 = Some (out', s1'))
    \<or> (\<exists>E0 req0 s0 s2. (E0, req0, s0) \<in> set calls \<and> q_ClientID req0 = q_ClientID req'
        \<and> q_RequestID req0 = q_RequestID req' \<and> fanOut E0 False req0 s0 = Some (out', s2) \<and> s1' = s1)"
  using b(1,3)
proof (cases rule: GetQuotes_cases)
  case (hit cached)
  have "scopedKey req' \<noteq> scopedKey req" using scopedKey_inj [of req req'] ids(1,2) by auto
  from fanOut_other_key [OF a this between(1)] obtain t' where t': "o_repo s' = Some t'"
    "table_contents (ce_now E') (scopedKey req') t' = table_contents (ce_now E') (scopedKey req') t" by blast
  have "mset cached = mset (table_contents (ce_now E') (scopedKey req') (fold (pg.run_op ts) ops t'))"
    using cache_lookup_contents [OF hit(1) _ b(2)] between(2) t'(1) by simp
  with hit t'(2) spared_contents [OF between(3), of ts t'] show ?thesis by auto
next
  case (own cancel')
  then show ?thesis by blast
next
  case (other E0 req0 s0 s2)
  have "length (q_ClientID req0) = length (q_ClientID req')" using ids(3) other(1) by (auto simp: list_all_iff)
  from scopedKey_inj [OF other(2) this] other show ?thesis by blast
qed

text \<open>
  Both clients use the request ID \<^verbatim>\<open>r1\<close>; the second one's quote is in the table when the first
  one's fan-out saves its two, while another call of the first client is in flight.
\<close>
theorem clients_isolated_witness:
  "\<exists>q s' cached. q = row_of id ''12345678...:r1'' (demo_quote ''alpha'' 90000)
     \<and> fanOut demo_env False demo_request (demo_orch\<lparr>o_repo := Some [q]\<rparr>)
         = Some (Returned (Inr [demo_quote ''gamma'' 50200, demo_quote ''alpha'' 50300]), s')
     \<and> GetQuotes (share_do (in_flight [(demo_env, demo_request, demo_orch)])) demo_env
         (demo_request\<lparr>q_ClientID := ''12345678...''\<rparr>) s' = Some (Returned (Inr cached), s')
     \<and> (mset cached = mset [cached_form id ''12345678...:r1'' (demo_quote ''alpha'' 90000)]
        \<or> (\<exists>cancel. fanOut demo_env cancel (demo_request\<lparr>q_ClientID := ''12345678...''\<rparr>) s' = Some (Returned (Inr cached), s')))"
proof -
  let ?k' = "''12345678...:r1''" and ?calls = "[(demo_env, demo_request, demo_orch)]"
  let ?q = "row_of id ?k' (demo_quote ''alpha'' 90000)" and ?req' = "demo_request\<lparr>q_ClientID := ''12345678...''\<rparr>"
  let ?s = "demo_orch\<lparr>o_repo := Some [?q]\<rparr>"
  have k': "scopedKey ?req' = ?k'" "scopedKey demo_request \<noteq> ?k'" "q_RequestID ?req' \<noteq> ''''"
    by (simp_all add: scopedKey_def demo_request_def)
  have ok: "orch_ok ?s" "o_repo ?s = Some [?q]" using demo_usable(2) by (simp_all add: orch_ok_def)
  have c: "table_contents (ce_now demo_env) ?k' [?q] = [cached_form id ?k' (demo_quote ''alpha'' 90000)]"
    by (simp add: table_contents_def live_rows_def stored_and_read) (simp add: demo_env_def demo_quote_def duration_consts)
  have scan: "\<And>t. mset (ce_scan demo_env t) = mset t" "ce_find demo_env = no_find_errors" by (simp_all add: demo_env_def)
  obtain s' where run: "fanOut demo_env False demo_request ?s
      = Some (Returned (Inr [demo_quote ''gamma'' 50200, demo_quote ''alpha'' 50300]), s')" by (rule demo_fanOut_over)
  obtain t' where t': "o_repo s' = Some t'" "table_contents (ce_now demo_env) ?k' t' = table_contents (ce_now demo_env) ?k' [?q]"
    using fanOut_other_key [OF ok(1) run ok(2) k'(2) [symmetric], of "ce_now demo_env"] by auto
  obtain cached where get: "GetQuotes (share_do (in_flight ?calls)) demo_env ?req' s' = Some (Returned (Inr cached), s')"
    using cache_hit [OF t'(1) _ _ k'(3) scan(2,1), of "table_contents (ce_now demo_env) ?k' [?q]" "share_do (in_flight ?calls)"]
      t'(2) k'(1) c by auto
  have ids: "length (q_ClientID demo_request) = length (q_ClientID ?req')" "q_ClientID demo_request \<noteq> q_ClientID ?req'"
    "list_all (\<lambda>(E0, req0, s0). length (q_ClientID req0) = length (q_ClientID ?req')) ?calls"
    "list_all (spares (scopedKey ?req') (ce_now demo_env)) (ce_meanwhile demo_env)"
    "list_all (spares (scopedKey ?req') (ce_now demo_env)) []"
    by (simp_all add: demo_request_def)
  have r: "o_repo s' = map_option (fold (pg.run_op id) []) (o_repo s')" by (simp add: option.map_id)
  from clients_isolated [OF ok(1) run ok(2) ids(1-4) r ids(5) share_do_law(1) scan(1) get] ids(2)
  have "mset cached = mset [cached_form id ?k' (demo_quote ''alpha'' 90000)]
      \<or> (\<exists>cancel. fanOut demo_env cancel ?req' s' = Some (Returned (Inr cached), s'))"
    unfolding k'(1) c by auto
  with run get show ?thesis by blast
qed

end
