(* ===== verification/Http.thy ===== *)
theory Http
  imports Orchestrator
begin

text \<open>
  The vocabulary of the HTTP layer: what the handlers of \<^verbatim>\<open>internal/handler\<close> and
  \<^verbatim>\<open>internal/middleware\<close> use of \<^verbatim>\<open>net/http\<close> (requests, the response writer with its
  one-shot status line), of \<^verbatim>\<open>net.SplitHostPort\<close> and of the language (ranging over a string
  decodes UTF-8), and the JSON response types. A handler is a function of request, writer and
  application state; \<open>None\<close> stands for a call whose schedule is not complete, as in
  theory \<open>Orchestrator\<close>. Response bodies are kept as values; their JSON text is not modelled.
\<close>

section \<open>Requests and responses\<close>

text \<open>\<open>rq_client\<close> is the context value under \<^verbatim>\<open>clientIDKey\<close>.\<close>
record http_request =
  rq_method :: string
  rq_path :: string
  rq_remote :: string
  rq_header :: "string \<Rightarrow> string"
  rq_body :: string
  rq_client :: "string option"

record quoteItem =
  qi_CarrierID :: string
  qi_CarrierRef :: string
  qi_PremiumCents :: int
  qi_Currency :: string
  qi_IsHedged :: bool
  qi_LatencyMs :: int

record quoteResponse =
  qr_RequestID :: string
  qr_Quotes :: "quoteItem list"
  qr_DurationMs :: int

datatype body = ErrorJson string | QuotesJson quoteResponse | Text string

datatype level = LevelInfo | LevelWarn | LevelError

text \<open>The log lines the model keeps: request errors and the audit line.\<close>
datatype log_entry =
    RequestError level string int string
  | Audit string string int string

text \<open>
  The response writer. \<open>wr_sent\<close> is the status line with the headers it was sent with;
  \<open>wr_recorder\<close> is the status field of a \<^verbatim>\<open>statusRecorder\<close> around the writer, if any.
\<close>
record writer =
  wr_header :: "string \<rightharpoonup> string"
  wr_sent :: "(int \<times> (string \<rightharpoonup> string)) option"
  wr_body :: "body list"
  wr_recorder :: "int option"
  wr_log :: "log_entry list"

definition new_writer :: writer where
  "new_writer = \<lparr>wr_header = Map.empty, wr_sent = None, wr_body = [], wr_recorder = None, wr_log = []\<rparr>"

definition set_header :: "string \<Rightarrow> string \<Rightarrow> writer \<Rightarrow> writer" where
  "set_header k v w = w\<lparr>wr_header := (wr_header w)(k \<mapsto> v)\<rparr>"

text \<open>
  \<^verbatim>\<open>statusRecorder.WriteHeader\<close> around \<^verbatim>\<open>net/http\<close>'s: the first call sends the status line,
  later ones are ignored by the server but still recorded.
\<close>
definition WriteHeader :: "int \<Rightarrow> writer \<Rightarrow> writer" where
  "WriteHeader code w =
     (let w = (case wr_recorder w of None \<Rightarrow> w | Some st \<Rightarrow> w\<lparr>wr_recorder := Some code\<rparr>)
      in case wr_sent w of None \<Rightarrow> w\<lparr>wr_sent := Some (code, wr_header w)\<rparr> | Some _ \<Rightarrow> w)"

text \<open>A write before any status line sends status 200 (past the recorder).\<close>
definition write_body :: "body \<Rightarrow> writer \<Rightarrow> writer" where
  "write_body b w =
     (let w = (case wr_sent w of None \<Rightarrow> w\<lparr>wr_sent := Some (200, wr_header w)\<rparr> | Some _ \<Rightarrow> w)
      in w\<lparr>wr_body := wr_body w @ [b]\<rparr>)"

definition log_line :: "log_entry \<Rightarrow> writer \<Rightarrow> writer" where
  "log_line e w = w\<lparr>wr_log := wr_log w @ [e]\<rparr>"

type_synonym 's handler = "http_request \<Rightarrow> writer \<Rightarrow> 's \<Rightarrow> (writer outcome \<times> 's) option"

lemma writer_simps [simp]:
  "wr_header (set_header k v w) = (wr_header w)(k \<mapsto> v)" "wr_sent (set_header k v w) = wr_sent w"
  "wr_body (set_header k v w) = wr_body w" "wr_log (set_header k v w) = wr_log w"
  "wr_recorder (set_header k v w) = wr_recorder w"
  "wr_header (write_body b w) = wr_header w" "wr_body (write_body b w) = wr_body w @ [b]"
  "wr_log (write_body b w) = wr_log w" "wr_recorder (write_body b w) = wr_recorder w"
  "wr_header (log_line e w) = wr_header w" "wr_sent (log_line e w) = wr_sent w"
  "wr_body (log_line e w) = wr_body w" "wr_log (log_line e w) = wr_log w @ [e]"
  "wr_recorder (log_line e w) = wr_recorder w"
  "wr_header (WriteHeader c w) = wr_header w" "wr_body (WriteHeader c w) = wr_body w"
  "wr_log (WriteHeader c w) = wr_log w"
  "wr_recorder (WriteHeader c w) = map_option (\<lambda>_. c) (wr_recorder w)"
  "wr_sent (WriteHeader c w) = (case wr_sent w of None \<Rightarrow> Some (c, wr_header w) | Some x \<Rightarrow> Some x)"
  "wr_sent (write_body b w) = (case wr_sent w of None \<Rightarrow> Some (200, wr_header w) | Some x \<Rightarrow> Some x)"
  by (simp_all add: set_header_def write_body_def log_line_def WriteHeader_def Let_def split: option.splits)

section \<open>Ranging over a string\<close>

abbreviation byte :: "char \<Rightarrow> nat" where
  "byte c \<equiv> of_char c"

definition cont :: "nat \<Rightarrow> nat \<Rightarrow> char \<Rightarrow> bool" where
  "cont lo hi c \<longleftrightarrow> lo \<le> byte c \<and> byte c \<le> hi"

definition RuneError :: nat where "RuneError = 65533"

text \<open>
  The first rune of a non-empty string and how many bytes it takes: a well-formed UTF-8
  sequence (no overlong form, no surrogate, at most U+10FFFF), or \<^verbatim>\<open>RuneError\<close> for one byte.
\<close>
definition seq2 :: "nat \<Rightarrow> string \<Rightarrow> (nat \<times> nat) option" where
  "seq2 b0 s = (case s of
     c1 # _ \<Rightarrow> if 194 \<le> b0 \<and> b0 \<le> 223 \<and> cont 128 191 c1 then Some ((b0 - 192) * 64 + (byte c1 - 128), 2) else None
   | _ \<Rightarrow> None)"

definition seq3 :: "nat \<Rightarrow> string \<Rightarrow> (nat \<times> nat) option" where
  "seq3 b0 s = (case s of
     c1 # c2 # _ \<Rightarrow>
       if 224 \<le> b0 \<and> b0 \<le> 239 \<and> cont (if b0 = 224 then 160 else 128) (if b0 = 237 then 159 else 191) c1 \<and> cont 128 191 c2
       then Some ((b0 - 224) * 4096 + (byte c1 - 128) * 64 + (byte c2 - 128), 3) else None
   | _ \<Rightarrow> None)"

definition seq4 :: "nat \<Rightarrow> string \<Rightarrow> (nat \<times> nat) option" where
  "seq4 b0 s = (case s of
     c1 # c2 # c3 # _ \<Rightarrow>
       if 240 \<le> b0 \<and> b0 \<le> 244 \<and> cont (if b0 = 240 then 144 else 128) (if b0 = 244 then 143 else 191) c1
          \<and> cont 128 191 c2 \<and> cont 128 191 c3
       then Some ((b0 - 240) * 262144 + (byte c1 - 128) * 4096 + (byte c2 - 128) * 64 + (byte c3 - 128), 4) else None
   | _ \<Rightarrow> None)"

definition decode_rune :: "char \<Rightarrow> string \<Rightarrow> nat \<times> nat" where
  "decode_rune c s =
     (if byte c < 128 then (byte c, 1)
      else case seq2 (byte c) s of Some r \<Rightarrow> r
         | None \<Rightarrow> (case seq3 (byte c) s of Some r \<Rightarrow> r
            | None \<Rightarrow> (case seq4 (byte c) s of Some r \<Rightarrow> r | None \<Rightarrow> (RuneError, 1))))"

function runes :: "string \<Rightarrow> nat list" where
  "runes [] = []"
| "runes (c # s) = fst (decode_rune c s) # runes (drop (snd (decode_rune c s) - 1) s)"
  by pat_completeness auto
termination
  by (relation "measure length") auto

declare runes.simps(2) [simp del]

lemma seq_facts:
  "seq2 b s = Some (r, n) \<Longrightarrow> 128 \<le> r \<and> (\<exists>c1 s'. s = c1 # s' \<and> n = 2 \<and> 128 \<le> byte c1)"
  "seq3 b s = Some (r, n) \<Longrightarrow> 128 \<le> r \<and> (\<exists>c1 c2 s'. s = c1 # c2 # s' \<and> n = 3)"
  "seq4 b s = Some (r, n) \<Longrightarrow> 128 \<le> r \<and> (\<exists>c1 c2 c3 s'. s = c1 # c2 # c3 # s' \<and> n = 4)"
  by (auto simp: seq2_def seq3_def seq4_def cont_def split: list.splits if_splits)

text \<open>A rune is below 128 exactly when it is one such byte.\<close>
lemma decode_rune_ascii: "byte c < 128 \<Longrightarrow> decode_rune c s = (byte c, 1)"
  by (simp add: decode_rune_def)

lemma decode_rune_high: "128 \<le> byte c \<Longrightarrow> 128 \<le> fst (decode_rune c s)"
  by (auto simp: decode_rune_def RuneError_def split: option.splits dest: seq_facts)

lemma runes_printable:
  "(\<forall>r \<in> set (runes s). 32 \<le> r \<and> r \<le> 126) \<longleftrightarrow> (\<forall>c \<in> set s. 32 \<le> byte c \<and> byte c \<le> 126)"
proof (induction s rule: runes.induct)
  case (2 c s)
  show ?case
  proof (cases "byte c < 128")
    case True
    then show ?thesis using "2" by (simp add: runes.simps decode_rune_ascii)
  next
    case False
    then have "126 < fst (decode_rune c s)" using decode_rune_high [of c s] by linarith
    then show ?thesis using False by (auto simp: runes.simps)
  qed
qed simp

section \<open>Host and port\<close>

text \<open>\<^verbatim>\<open>strings.LastIndexByte\<close> and \<^verbatim>\<open>IndexByte\<close>.\<close>
fun index_byte :: "char \<Rightarrow> string \<Rightarrow> nat option" where
  "index_byte c [] = None"
| "index_byte c (x # xs) = (if x = c then Some 0 else map_option Suc (index_byte c xs))"

definition last_byte :: "char \<Rightarrow> string \<Rightarrow> nat option" where
  "last_byte c s = map_option (\<lambda>i. length s - Suc i) (index_byte c (rev s))"

text \<open>The host of \<^verbatim>\<open>net.SplitHostPort\<close>; every error returns the empty host.\<close>
definition split_host :: "string \<Rightarrow> string" where
  "split_host hp =
     (case last_byte CHR '':'' hp of
        None \<Rightarrow> ''''
      | Some i \<Rightarrow>
          if hd hp = CHR ''['' then
            (case index_byte CHR '']'' hp of
               None \<Rightarrow> ''''
             | Some e \<Rightarrow>
                 if Suc e \<noteq> i then ''''
                 else if CHR ''['' \<in> set (drop 1 hp) \<or> CHR '']'' \<in> set (drop (Suc e) hp) then ''''
                 else take (e - 1) (drop 1 hp))
          else
            let host = take i hp
            in if CHR '':'' \<in> set host \<or> CHR ''['' \<in> set hp \<or> CHR '']'' \<in> set hp then '''' else host)"

end
