(* ===== verification/Middleware.thy ===== *)
theory Middleware
  imports Http
begin

text \<open>
  \<^verbatim>\<open>internal/middleware\<close>: authentication with its per-address failure budget, the audit log, the
  concurrency limit and the security headers, each as a function from handler to handler.
  The token buckets are \<^verbatim>\<open>golang.org/x/time/rate\<close>, which is not part of the repository: its
  operations are the record \<open>rate_lib\<close>. Requests of the sequential model run one after the
  other; the concurrency limit is also modelled as a machine over the requests in flight
  (\<open>conc_step\<close>).
\<close>

section \<open>The failure budget\<close>

record 'b rate_lib =
  lib_Every :: "duration \<Rightarrow> float64"
  lib_New :: "float64 \<Rightarrow> int \<Rightarrow> 'b"
  lib_Tokens :: "'b \<Rightarrow> instant \<Rightarrow> float64"
  lib_Allow :: "'b \<Rightarrow> instant \<Rightarrow> bool \<times> 'b"

record 'b authFailureLimiter =
  af_ips :: "string \<rightharpoonup> 'b"
  af_rate :: float64
  af_burst :: int

definition newAuthFailureLimiter :: "'b rate_lib \<Rightarrow> 'b authFailureLimiter" where
  "newAuthFailureLimiter L = \<lparr>af_ips = Map.empty, af_rate = lib_Every L (6 * Second), af_burst = 10\<rparr>"

definition getOrCreate :: "'b rate_lib \<Rightarrow> string \<Rightarrow> 'b authFailureLimiter \<Rightarrow> 'b \<times> 'b authFailureLimiter" where
  "getOrCreate L ip l =
     (case af_ips l ip of
        Some b \<Rightarrow> (b, l)
      | None \<Rightarrow> (let b = lib_New L (af_rate l) (af_burst l) in (b, l\<lparr>af_ips := (af_ips l)(ip \<mapsto> b)\<rparr>)))"

definition check_budget :: "'b rate_lib \<Rightarrow> instant \<Rightarrow> string \<Rightarrow> 'b authFailureLimiter \<Rightarrow> bool \<times> 'b authFailureLimiter" where
  "check_budget L now ip l =
     (case getOrCreate L ip l of (b, l') \<Rightarrow> (f_le (Fin 1) (lib_Tokens L b now), l'))"

definition recordFailure :: "'b rate_lib \<Rightarrow> instant \<Rightarrow> string \<Rightarrow> 'b authFailureLimiter \<Rightarrow> 'b authFailureLimiter" where
  "recordFailure L now ip l =
     (case getOrCreate L ip l of (b, l') \<Rightarrow> l'\<lparr>af_ips := (af_ips l')(ip \<mapsto> snd (lib_Allow L b now))\<rparr>)"

section \<open>Authentication\<close>

definition ClientIDFromContext :: "http_request \<Rightarrow> string" where
  "ClientIDFromContext r = (case rq_client r of Some v \<Rightarrow> v | None \<Rightarrow> '''')"

text \<open>The identifier of a key: its first eight bytes and an ellipsis.\<close>
definition keyID :: "string \<Rightarrow> string" where
  "keyID k = (if 8 < length k then take 8 k @ ''...'' else k)"

definition unauthorizedBody :: body where
  "unauthorizedBody = ErrorJson ''UNAUTHORIZED: missing or invalid API key''"

definition tooManyRequestsBody :: body where
  "tooManyRequestsBody = ErrorJson ''TOO_MANY_REQUESTS: too many failed authentication attempts''"

definition writeUnauthorized :: "writer \<Rightarrow> writer" where
  "writeUnauthorized w =
     write_body unauthorizedBody (WriteHeader 401 (set_header ''Content-Type'' ''application/json'' w))"

definition writeTooManyRequests :: "writer \<Rightarrow> writer" where
  "writeTooManyRequests w =
     write_body tooManyRequestsBody (WriteHeader 429
       (set_header ''Retry-After'' ''60'' (set_header ''Content-Type'' ''application/json'' w)))"

text \<open>The loop over all keys: the last index that matches, or \<open>-1\<close>.\<close>
fun match_loop :: "string \<Rightarrow> nat \<Rightarrow> string list \<Rightarrow> int \<Rightarrow> int" where
  "match_loop token i [] matchIdx = matchIdx"
| "match_loop token i (kb # kbs) matchIdx =
     match_loop token (Suc i) kbs (if token = kb then int i else matchIdx)"

definition client_ip :: "http_request \<Rightarrow> string" where
  "client_ip r = (let ip = split_host (rq_remote r) in if ip = '''' then rq_remote r else ip)"

text \<open>\<open>now0\<close> and \<open>now1\<close> are the clock at the check and at the recording of a failure.\<close>
definition RequireAPIKey :: "'b rate_lib \<Rightarrow> instant \<Rightarrow> instant \<Rightarrow> 's handler \<Rightarrow> string list \<Rightarrow> string list
    \<Rightarrow> ('b authFailureLimiter \<times> 's) handler" where
  "RequireAPIKey L now0 now1 next keys skipPaths r w ls =
     (case ls of (l, s) \<Rightarrow>
        let pass = (\<lambda>r l. map_option (\<lambda>(out, s'). (out, (l, s'))) (next r w s))
        in if rq_path r \<in> set skipPaths then pass r l
           else
             let ip = client_ip r
             in case check_budget L now0 ip l of
                  (False, l) \<Rightarrow> Some (Returned (writeTooManyRequests w), (l, s))
                | (True, l) \<Rightarrow>
                    let raw = rq_header r ''Authorization''; token = TrimPrefix raw ''Bearer ''
                    in if token = '''' \<or> token = raw
                       then Some (Returned (writeUnauthorized w), (recordFailure L now1 ip l, s))
                       else
                         let matchIdx = match_loop token 0 keys (-1)
                         in if matchIdx < 0
                            then Some (Returned (writeUnauthorized w), (recordFailure L now1 ip l, s))
                            else pass (r\<lparr>rq_client := Some (map keyID keys ! nat matchIdx)\<rparr>) l)"

text \<open>The comparison with all keys; the result is the client identifier.\<close>
definition verify_key :: "string list \<Rightarrow> http_request \<Rightarrow> string option" where
  "verify_key keys r =
     (let raw = rq_header r ''Authorization''; token = TrimPrefix raw ''Bearer ''
      in if token = '''' \<or> token = raw then None
         else let matchIdx = match_loop token 0 keys (-1)
              in if matchIdx < 0 then None else Some (map keyID keys ! nat matchIdx))"

section \<open>Audit log and security headers\<close>

definition AuditLog :: "'s handler \<Rightarrow> 's handler" where
  "AuditLog next r w s =
     (case next r (w\<lparr>wr_recorder := Some 200\<rparr>) s of
        None \<Rightarrow> None
      | Some (Panicked, s') \<Rightarrow> Some (Panicked, s')
      | Some (Returned w', s') \<Rightarrow>
          Some (Returned (log_line (Audit (rq_method r) (rq_path r)
                  (case wr_recorder w' of Some st \<Rightarrow> st | None \<Rightarrow> 200) (ClientIDFromContext r))
                (w'\<lparr>wr_recorder := wr_recorder w\<rparr>)), s'))"

definition security_headers :: "(string \<times> string) list" where
  "security_headers =
     [(''X-Content-Type-Options'', ''nosniff''),
      (''Strict-Transport-Security'', ''max-age=63072000; includeSubDomains''),
      (''X-Frame-Options'', ''DENY''),
      (''Cache-Control'', ''no-store''),
      (''Content-Security-Policy'', ''default-src ''@ [CHR 0x27] @ ''none'' @ [CHR 0x27])]"

definition SecurityHeaders :: "'s handler \<Rightarrow> 's handler" where
  "SecurityHeaders next r w s = next r (fold (\<lambda>(k, v). set_header k v) security_headers w) s"

section \<open>The concurrency limit\<close>

definition concurrencyFullBody :: body where
  "concurrencyFullBody = ErrorJson ''SERVICE_UNAVAILABLE: too many concurrent requests''"

definition reject_full :: "writer \<Rightarrow> writer" where
  "reject_full w =
     write_body concurrencyFullBody (WriteHeader 503
       (set_header ''Retry-After'' ''1'' (set_header ''Content-Type'' ''application/json'' w)))"

text \<open>\<open>held\<close> is how many slots of the semaphore are taken when the request arrives.\<close>
definition LimitConcurrency :: "nat \<Rightarrow> nat \<Rightarrow> 's handler \<Rightarrow> 's handler" where
  "LimitConcurrency cap held next r w s =
     (if held < cap then next r w s else Some (Returned (reject_full w), s))"

text \<open>Requests in flight: at the \<^verbatim>\<open>select\<close>, inside the next handler, answered, or rejected.\<close>
datatype conc_pc = L_Select | L_Inside | L_Served | L_Rejected

record conc_sys =
  cn_sem :: nat
  cn_pcs :: "conc_pc list"

datatype conc_label = Arrive | Step nat

fun conc_pc_step :: "nat \<Rightarrow> conc_pc \<Rightarrow> nat \<Rightarrow> conc_pc \<times> nat" where
  "conc_pc_step cap L_Select sem = (if sem < cap then (L_Inside, Suc sem) else (L_Rejected, sem))"
| "conc_pc_step cap L_Inside sem = (L_Served, sem - 1)"
| "conc_pc_step cap L_Served sem = (L_Served, sem)"
| "conc_pc_step cap L_Rejected sem = (L_Rejected, sem)"

fun conc_step :: "nat \<Rightarrow> conc_label \<Rightarrow> conc_sys \<Rightarrow> conc_sys" where
  "conc_step cap Arrive c = c\<lparr>cn_pcs := cn_pcs c @ [L_Select]\<rparr>"
| "conc_step cap (Step k) c =
     (if k < length (cn_pcs c) then
        case conc_pc_step cap (cn_pcs c ! k) (cn_sem c) of
          (p, sem) \<Rightarrow> \<lparr>cn_sem = sem, cn_pcs = (cn_pcs c)[k := p]\<rparr>
      else c)"

inductive conc_reach :: "nat \<Rightarrow> conc_sys \<Rightarrow> bool" for cap where
  conc_start: "conc_reach cap \<lparr>cn_sem = 0, cn_pcs = []\<rparr>"
| conc_more: "conc_reach cap c \<Longrightarrow> conc_reach cap (conc_step cap l c)"

section \<open>Matching keys\<close>

lemma match_loop_none: "token \<notin> set keys \<Longrightarrow> match_loop token i keys m = m"
  by (induction keys arbitrary: i m) auto

lemma match_loop_some:
  "token \<in> set keys \<Longrightarrow> \<exists>j < length keys. match_loop token i keys m = int (i + j) \<and> keys ! j = token"
proof (induction keys arbitrary: i m)
  case (Cons k keys)
  show ?case
  proof (cases "token \<in> set keys")
    case True
    from Cons.IH [OF this, of "Suc i" "if token = k then int i else m"] obtain j where
      "j < length keys" "match_loop token (Suc i) keys (if token = k then int i else m) = int (Suc i + j)"
      "keys ! j = token" by blast
    then show ?thesis by (intro exI [of _ "Suc j"]) simp
  next
    case False
    with Cons.prems show ?thesis by (intro exI [of _ 0]) (simp add: match_loop_none)
  qed
qed simp

lemma match_keyID:
  assumes "token \<in> set keys"
  shows "0 \<le> match_loop token 0 keys (-1) \<and> map keyID keys ! nat (match_loop token 0 keys (-1)) = keyID token"
  using match_loop_some [OF assms, of 0 "-1"] by auto

text \<open>The header carries one of the keys.\<close>
definition bearer_key :: "string list \<Rightarrow> string \<Rightarrow> string option" where
  "bearer_key keys raw =
     (if prefix ''Bearer '' raw \<and> drop 7 raw \<noteq> '''' \<and> drop 7 raw \<in> set keys then Some (drop 7 raw) else None)"

lemma verify_key_bearer: "verify_key keys r = map_option keyID (bearer_key keys (rq_header r ''Authorization''))"
proof -
  let ?raw = "rq_header r ''Authorization''"
  show ?thesis
  proof (cases "prefix ''Bearer '' ?raw")
    case True
    then have t: "TrimPrefix ?raw ''Bearer '' = drop 7 ?raw" "drop 7 ?raw \<noteq> ?raw"
      by (auto simp: TrimPrefix_def prefix_def eval_nat_numeral)
    show ?thesis
      using True t match_loop_none [of "drop 7 ?raw" keys 0 "-1"] match_keyID [of "drop 7 ?raw" keys]
      by (cases "drop 7 ?raw \<in> set keys") (auto simp: verify_key_def bearer_key_def Let_def)
  qed (simp add: verify_key_def bearer_key_def TrimPrefix_def)
qed

lemma RequireAPIKey_verify:
  assumes "rq_path r \<notin> set skipPaths"
  shows "RequireAPIKey L now0 now1 next keys skipPaths r w (l, s) =
     (case check_budget L now0 (client_ip r) l of
        (False, l') \<Rightarrow> Some (Returned (writeTooManyRequests w), (l', s))
      | (True, l') \<Rightarrow>
          (case verify_key keys r of
             None \<Rightarrow> Some (Returned (writeUnauthorized w), (recordFailure L now1 (client_ip r) l', s))
           | Some i \<Rightarrow> map_option (\<lambda>(out, s'). (out, (l', s'))) (next (r\<lparr>rq_client := Some i\<rparr>) w s)))"
  using assms by (auto simp: RequireAPIKey_def verify_key_def Let_def split: prod.splits bool.splits)

lemma RequireAPIKey_spec:
  assumes "rq_path r \<notin> set skipPaths"
  shows "RequireAPIKey L now0 now1 next keys skipPaths r w (l, s) =
     (case check_budget L now0 (client_ip r) l of
        (False, l') \<Rightarrow> Some (Returned (writeTooManyRequests w), (l', s))
      | (True, l') \<Rightarrow>
          (case bearer_key keys (rq_header r ''Authorization'') of
             None \<Rightarrow> Some (Returned (writeUnauthorized w), (recordFailure L now1 (client_ip r) l', s))
           | Some k \<Rightarrow> map_option (\<lambda>(out, s'). (out, (l', s'))) (next (r\<lparr>rq_client := Some (keyID k)\<rparr>) w s)))"
  by (cases "bearer_key keys (rq_header r ''Authorization'')") (auto simp: RequireAPIKey_verify [OF assms] verify_key_bearer split: prod.splits bool.splits)

section \<open>Slots\<close>

definition conc_inv :: "nat \<Rightarrow> conc_sys \<Rightarrow> bool" where
  "conc_inv cap c \<longleftrightarrow> cn_sem c = count_pc (\<lambda>p. p = L_Inside) (cn_pcs c) \<and> cn_sem c \<le> cap"

lemma conc_inv_step:
  assumes "conc_inv cap c"
  shows "conc_inv cap (conc_step cap l c)"
proof (cases l)
  case (Step k)
  show ?thesis
  proof (cases "k < length (cn_pcs c)")
    case True
    note upd = count_pc_update [OF True, of "\<lambda>p. p = L_Inside"]
    show ?thesis using assms True Step
      by (cases "cn_pcs c ! k")
         (use upd [of L_Inside] upd [of L_Rejected] upd [of L_Served] in \<open>auto simp: conc_inv_def\<close>)
  qed (use assms Step in simp)
qed (use assms in \<open>simp add: conc_inv_def\<close>)

lemma conc_reach_inv: "conc_reach cap c \<Longrightarrow> conc_inv cap c"
  by (induction rule: conc_reach.induct) (simp add: conc_inv_def, rule conc_inv_step)

section \<open>The budget as a token bucket\<close>

text \<open>
  What \<^verbatim>\<open>rate.Limiter\<close> documents, for a bucket of size ten refilled with one token in six
  seconds: \<open>lev b t\<close> is its exact level at time \<open>t\<close>, a new bucket holds at most ten tokens,
  the level never falls by itself and grows no faster than the refill rate, and \<^verbatim>\<open>Allow\<close>
  takes a token if there is one and otherwise leaves the bucket as it is.
\<close>
definition bucket_law :: "'b rate_lib \<Rightarrow> ('b \<Rightarrow> instant \<Rightarrow> rat) \<Rightarrow> bool" where
  "bucket_law L lev \<longleftrightarrow>
     (\<forall>t. lev (lib_New L (lib_Every L (6 * Second)) 10) t \<le> 10)
   \<and> (\<forall>b t. f_le (Fin 1) (lib_Tokens L b t) \<longrightarrow> 1 \<le> lev b t)
   \<and> (\<forall>b t t'. t \<le> t' \<longrightarrow> lev b t' \<le> lev b t + of_int (t' - t) / of_int (6 * Second))
   \<and> (\<forall>b t t'. t \<le> t' \<longrightarrow> 1 \<le> lev b t
        \<longrightarrow> lev (snd (lib_Allow L b t)) t' \<le> lev b t - 1 + of_int (t' - t) / of_int (6 * Second))
   \<and> (\<forall>b t t'. t \<le> t' \<longrightarrow> lev b t < 1 \<longrightarrow> lev (snd (lib_Allow L b t)) t' \<le> lev b t')
   \<and> (\<forall>b t t'. t \<le> t' \<longrightarrow> lev b t \<le> lev b t')
   \<and> (\<forall>b t. 0 \<le> lev b t)"

text \<open>Requests of one address, one after the other, with their clock readings; the statuses.\<close>
fun auth_seq :: "'b rate_lib \<Rightarrow> 's handler \<Rightarrow> string list \<Rightarrow> string list \<Rightarrow> (instant \<times> http_request) list
    \<Rightarrow> 'b authFailureLimiter \<times> 's \<Rightarrow> int option list" where
  "auth_seq L next keys skipPaths [] ls = []"
| "auth_seq L next keys skipPaths ((t, r) # rs) ls =
     (case RequireAPIKey L t t next keys skipPaths r new_writer ls of
        Some (Returned w, ls') \<Rightarrow> map_option fst (wr_sent w) # auth_seq L next keys skipPaths rs ls'
      | _ \<Rightarrow> [])"

definition bucket_at :: "'b rate_lib \<Rightarrow> string \<Rightarrow> 'b authFailureLimiter \<Rightarrow> 'b" where
  "bucket_at L ip l = fst (getOrCreate L ip l)"

definition budget_std :: "'b rate_lib \<Rightarrow> 'b authFailureLimiter \<Rightarrow> bool" where
  "budget_std L l \<longleftrightarrow> af_rate l = lib_Every L (6 * Second) \<and> af_burst l = 10"

lemma write_status [simp]:
  "wr_sent w = None \<Longrightarrow> map_option fst (wr_sent (writeUnauthorized w)) = Some 401"
  "wr_sent w = None \<Longrightarrow> map_option fst (wr_sent (writeTooManyRequests w)) = Some 429"
  by (simp_all add: writeUnauthorized_def writeTooManyRequests_def)

lemma check_budget_bucket:
  assumes "check_budget L t ip l = (ok, l')"
  shows "ok \<longleftrightarrow> f_le (Fin 1) (lib_Tokens L (bucket_at L ip l) t)" "bucket_at L ip l' = bucket_at L ip l"
    "budget_std L l' \<longleftrightarrow> budget_std L l"
  using assms by (auto simp: check_budget_def bucket_at_def getOrCreate_def budget_std_def Let_def split: option.splits)

lemma recordFailure_bucket:
  "bucket_at L ip (recordFailure L t ip l) = snd (lib_Allow L (bucket_at L ip l) t)"
  "budget_std L (recordFailure L t ip l) \<longleftrightarrow> budget_std L l"
  by (auto simp: recordFailure_def bucket_at_def getOrCreate_def budget_std_def Let_def split: option.splits)

text \<open>A guess: a request on a protected path, from the given address, with no valid key.\<close>
definition is_guess :: "string list \<Rightarrow> string list \<Rightarrow> string \<Rightarrow> http_request \<Rightarrow> bool" where
  "is_guess keys skipPaths ip r \<longleftrightarrow> rq_path r \<notin> set skipPaths \<and> client_ip r = ip
     \<and> bearer_key keys (rq_header r ''Authorization'') = None"

lemma guess_step [consumes 2, case_names locked counted]:
  assumes "is_guess keys skipPaths ip r" "wr_sent w = None"
  obtains (locked) l' where "RequireAPIKey L t t nxt keys skipPaths r w (l, s) = Some (Returned (writeTooManyRequests w), (l', s))"
      "bucket_at L ip l' = bucket_at L ip l"
  | (counted) l' where "RequireAPIKey L t t nxt keys skipPaths r w (l, s) = Some (Returned (writeUnauthorized w), (l', s))"
      "f_le (Fin 1) (lib_Tokens L (bucket_at L ip l) t)"
      "bucket_at L ip l' = snd (lib_Allow L (bucket_at L ip l) t)"
proof -
  obtain ok l1 where c: "check_budget L t ip l = (ok, l1)" by (cases "check_budget L t ip l")
  note b = check_budget_bucket [OF c]
  show thesis
    using assms c b locked counted recordFailure_bucket(1) [of L ip t l1]
    by (cases ok) (auto simp: is_guess_def RequireAPIKey_spec)
qed

lemma guesses_level:
  assumes law: "bucket_law L lev" and guesses: "list_all (\<lambda>(t, r). is_guess keys skipPaths ip r) rs"
    and times: "sorted (map fst rs)" "\<forall>x \<in> set rs. t0 \<le> fst x \<and> fst x \<le> t1" "t0 \<le> t1"
  shows "of_nat (count_list (auth_seq L next keys skipPaths rs (l, s)) (Some 401))
    \<le> lev (bucket_at L ip l) t0 + of_int (t1 - t0) / of_int (6 * Second)"
  using guesses times
proof (induction rs arbitrary: l t0)
  case Nil
  have "0 \<le> lev (bucket_at L ip l) t0" using law by (simp add: bucket_law_def)
  moreover have "(0 :: rat) \<le> of_int (t1 - t0) / of_int (6 * Second)" using Nil by (simp add: Second_def)
  ultimately show ?case by simp
next
  case (Cons x rs)
  obtain t r where x: "x = (t, r)" by (cases x)
  have t: "t0 \<le> t" "t \<le> t1" using Cons.prems(3) by (auto simp: x)
  have rest: "sorted (map fst rs)" "\<forall>y \<in> set rs. t \<le> fst y \<and> fst y \<le> t1"
    using Cons.prems(2,3) by (auto simp: x)
  have g: "is_guess keys skipPaths ip r" using Cons.prems(1) by (simp add: x)
  have gs: "list_all (\<lambda>(t, r). is_guess keys skipPaths ip r) rs" using Cons.prems(1) by simp
  let ?b = "bucket_at L ip l"
  have grow: "lev ?b t \<le> lev ?b t0 + of_int (t - t0) / of_int (6 * Second)"
    using law t(1) by (simp add: bucket_law_def)
  have split: "of_int (t1 - t0) / of_int (6 * Second)
      = (of_int (t - t0) / of_int (6 * Second) + of_int (t1 - t) / of_int (6 * Second) :: rat)"
    by (simp flip: add_divide_distrib)
  from g have w: "wr_sent new_writer = None" by (simp add: new_writer_def)
  from g w show ?case
  proof (cases rule: guess_step [where L = L and t = t and nxt = "next" and l = l and s = s])
    case (locked l')
    have "of_nat (count_list (auth_seq L next keys skipPaths rs (l', s)) (Some 401))
        \<le> lev ?b t + of_int (t1 - t) / of_int (6 * Second)"
      using Cons.IH [OF gs rest t(2), where l = l'] locked(2) by simp
    with locked(1) grow split w show ?thesis by (simp add: x)
  next
    case (counted l')
    have one: "1 \<le> lev ?b t" using law counted(2) by (simp add: bucket_law_def)
    have "lev (bucket_at L ip l') t \<le> lev ?b t - 1"
      using law one counted(3) unfolding bucket_law_def by (metis add.right_neutral diff_self div_0 of_int_0 order_refl)
    with Cons.IH [OF gs rest t(2), where l = l'] counted(1) grow split w show ?thesis by (simp add: x)
  qed
qed

section \<open>Properties\<close>

text \<open>An exact token bucket: level and time of the last update.\<close>
definition exact_level :: "rat \<times> instant \<Rightarrow> instant \<Rightarrow> rat" where
  "exact_level b t = max 0 (min 10 (fst b + of_int (max 0 (t - snd b)) / of_int (6 * Second)))"

definition exact_lib :: "(rat \<times> instant) rate_lib" where
  "exact_lib = \<lparr>lib_Every = (\<lambda>d. Fin (1 / 6)), lib_New = (\<lambda>r burst. (of_int burst, 0)),
     lib_Tokens = (\<lambda>b t. Fin (exact_level b t)),
     lib_Allow = (\<lambda>b t. if 1 \<le> exact_level b t then (True, (exact_level b t - 1, t)) else (False, b))\<rparr>"

lemma exact_bucket: "bucket_law exact_lib exact_level"
proof -
  have grow: "exact_level b t' \<le> exact_level b t + of_int (t' - t) / of_int (6 * Second)" if "t \<le> t'" for b t t'
  proof -
    have "of_int (max 0 (t' - snd b)) / of_int (6 * Second)
        \<le> of_int (max 0 (t - snd b)) / of_int (6 * Second) + (of_int (t' - t) / of_int (6 * Second) :: rat)"
    proof -
      have "max 0 (t' - snd b) \<le> max 0 (t - snd b) + (t' - t)" using that by simp
      then have "(of_int (max 0 (t' - snd b)) :: rat) \<le> of_int (max 0 (t - snd b)) + of_int (t' - t)"
        by (simp only: of_int_le_iff flip: of_int_add)
      then have "of_int (max 0 (t' - snd b)) / of_int (6 * Second)
          \<le> (of_int (max 0 (t - snd b)) + of_int (t' - t)) / (of_int (6 * Second) :: rat)"
        by (rule divide_right_mono) (simp add: Second_def)
      then show ?thesis by (simp only: add_divide_distrib)
    qed
    moreover have "(0 :: rat) \<le> of_int (t' - t) / of_int (6 * Second)" using that by (simp add: Second_def)
    ultimately show ?thesis unfolding exact_level_def by linarith
  qed
  have take: "exact_level (exact_level b t - 1, t) t' \<le> exact_level b t - 1 + of_int (t' - t) / of_int (6 * Second)"
    if "t \<le> t'" "1 \<le> exact_level b t" for b t t'
  proof -
    have "(0 :: rat) \<le> of_int (t' - t) / of_int (6 * Second)" using that by (simp add: Second_def)
    moreover have "max 0 (t' - t) = t' - t" using that by simp
    ultimately show ?thesis using that(2) unfolding exact_level_def [of "(exact_level b t - 1, t)"] by simp
  qed
  have mono: "exact_level b t \<le> exact_level b t'" if "t \<le> t'" for b t t'
  proof -
    have "(of_int (max 0 (t - snd b)) :: rat) / of_int (6 * Second) \<le> of_int (max 0 (t' - snd b)) / of_int (6 * Second)"
      using that by (intro divide_right_mono) (simp_all add: Second_def)
    then show ?thesis unfolding exact_level_def by linarith
  qed
  have le10: "exact_level b t \<le> 10" "0 \<le> exact_level b t" for b t by (simp_all add: exact_level_def)
  show ?thesis unfolding bucket_law_def using grow take mono le10 by (auto simp: exact_lib_def f_le_def)
qed

text \<open>
  C11: only key holders pass. On a path that is not exempt, the next handler runs exactly when
  the address has budget left and the \<^verbatim>\<open>Authorization\<close> header is \<^verbatim>\<open>Bearer\<close> followed by one of
  the configured non-empty keys; it then sees that key's identifier. Otherwise the response is
  401 (and a failure is recorded) or 429, and the application is not touched.
\<close>
theorem only_key_holders_pass:
  assumes "rq_path r \<notin> set skipPaths" "check_budget L now0 (client_ip r) l = (ok, l1)"
  shows "(if ok \<and> (\<exists>k \<in> set keys. k \<noteq> '''' \<and> rq_header r ''Authorization'' = ''Bearer '' @ k)
     then RequireAPIKey L now0 now1 next keys skipPaths r w (l, s)
       = map_option (\<lambda>(out, s'). (out, (l1, s')))
           (next (r\<lparr>rq_client := Some (keyID (drop 7 (rq_header r ''Authorization'')))\<rparr>) w s)
     else RequireAPIKey L now0 now1 next keys skipPaths r w (l, s)
       = Some (Returned (if ok then writeUnauthorized w else writeTooManyRequests w),
               (if ok then recordFailure L now1 (client_ip r) l1 else l1, s)))"
proof -
  have "bearer_key keys (rq_header r ''Authorization'')
      = (if \<exists>k \<in> set keys. k \<noteq> '''' \<and> rq_header r ''Authorization'' = ''Bearer '' @ k
         then Some (drop 7 (rq_header r ''Authorization'')) else None)"
    by (auto simp: bearer_key_def prefix_def eval_nat_numeral)
  then show ?thesis using assms by (auto simp: RequireAPIKey_spec)
qed

text \<open>The example handler answers 200 and counts its calls.\<close>
definition count_handler :: "nat handler" where
  "count_handler r w s = Some (Returned (WriteHeader 200 w), Suc s)"

definition demo_http :: "string \<Rightarrow> http_request" where
  "demo_http auth = \<lparr>rq_method = ''POST'', rq_path = ''/quotes'', rq_remote = ''10.0.0.7:5123'',
     rq_header = (\<lambda>h. if h = ''Authorization'' then auth else ''''), rq_body = '''', rq_client = None\<rparr>"

theorem only_key_holders_pass_witness:
  "\<exists>w l. RequireAPIKey exact_lib 0 0 count_handler [''k1'', ''secret-key''] [''/healthz''] (demo_http ''Bearer secret-key'')
      new_writer (newAuthFailureLimiter exact_lib, 4) = Some (Returned w, (l, 5))"
proof -
  let ?r = "demo_http ''Bearer secret-key''"
  obtain ok l1 where c: "check_budget exact_lib 0 (client_ip ?r) (newAuthFailureLimiter exact_lib) = (ok, l1)"
    by (cases "check_budget exact_lib 0 (client_ip ?r) (newAuthFailureLimiter exact_lib)")
  have "exact_level (10, 0) 0 = 10" by (simp add: exact_level_def)
  then have ok using c
    by (simp add: check_budget_def getOrCreate_def newAuthFailureLimiter_def exact_lib_def f_le_def Let_def)
  have path: "rq_path ?r \<notin> set [''/healthz'']" by (simp add: demo_http_def)
  from only_key_holders_pass [OF path c, of "[''k1'', ''secret-key'']" 0 count_handler new_writer 4] \<open>ok\<close>
  show ?thesis by (auto simp: demo_http_def count_handler_def)
qed

text \<open>
  Guessing keys is slow. From one address whose budget is fresh, over any period, the
  number of wrong guesses that are answered 401 (and so tell the guesser anything) is at most
  ten plus one for every six seconds of the period; all others are answered 429.
\<close>
theorem guesses_bounded:
  assumes "bucket_law L lev" "list_all (\<lambda>(t, r). is_guess keys skipPaths ip r) rs"
    and "sorted (map fst rs)" "\<forall>x \<in> set rs. t0 \<le> fst x \<and> fst x \<le> t1" "t0 \<le> t1"
  shows "of_nat (count_list (auth_seq L next keys skipPaths rs (newAuthFailureLimiter L, s)) (Some 401))
    \<le> (10 :: rat) + of_int (t1 - t0) / of_int (6 * Second)"
proof -
  have "bucket_at L ip (newAuthFailureLimiter L) = lib_New L (lib_Every L (6 * Second)) 10"
    by (simp add: bucket_at_def getOrCreate_def newAuthFailureLimiter_def Let_def)
  then have "lev (bucket_at L ip (newAuthFailureLimiter L)) t0 \<le> 10" using assms(1) by (simp add: bucket_law_def)
  with guesses_level [OF assms, of "next" "newAuthFailureLimiter L" s] show ?thesis by linarith
qed

theorem guesses_bounded_witness:
  "count_list (auth_seq exact_lib count_handler [''secret-key''] []
     (replicate 100 (0, demo_http ''Bearer guess'')) (newAuthFailureLimiter exact_lib, 0)) (Some 401) \<le> 10"
proof -
  let ?rs = "replicate 100 (0, demo_http ''Bearer guess'')"
  have g: "list_all (\<lambda>(t, r). is_guess [''secret-key''] [] (client_ip (demo_http ''Bearer guess'')) r) ?rs"
    by (simp add: list_all_iff is_guess_def demo_http_def bearer_key_def)
  have "of_nat (count_list (auth_seq exact_lib count_handler [''secret-key''] [] ?rs (newAuthFailureLimiter exact_lib, 0)) (Some 401))
      \<le> (10 :: rat) + of_int (0 - 0) / of_int (6 * Second)"
    by (rule guesses_bounded [OF exact_bucket g]) auto
  then show ?thesis by simp
qed

text \<open>
  C34: the concurrency limit holds under every interleaving: at most \<open>cap\<close> requests are inside
  the next handler, the semaphore counts them exactly (no slot leaks), and a request that is
  rejected found every slot taken.
\<close>
theorem concurrency_limited:
  assumes "conc_reach cap c"
  shows "count_pc (\<lambda>p. p = L_Inside) (cn_pcs c) \<le> cap
    \<and> cn_sem c = count_pc (\<lambda>p. p = L_Inside) (cn_pcs c)
    \<and> (\<forall>k < length (cn_pcs c). cn_pcs c ! k = L_Select
        \<longrightarrow> (cn_pcs (conc_step cap (Step k) c) ! k = L_Rejected
             \<longleftrightarrow> count_pc (\<lambda>p. p = L_Inside) (cn_pcs c) = cap))"
proof -
  have "conc_inv cap c" by (rule conc_reach_inv [OF assms])
  then show ?thesis by (auto simp: conc_inv_def)
qed

theorem concurrency_limited_witness:
  "\<exists>c. conc_reach 1 c \<and> cn_pcs c = [L_Inside, L_Select] \<and> cn_pcs (conc_step 1 (Step 1) c) ! 1 = L_Rejected"
proof -
  let ?c = "conc_step 1 Arrive (conc_step 1 (Step 0) (conc_step 1 Arrive \<lparr>cn_sem = 0, cn_pcs = []\<rparr>))"
  have r: "conc_reach 1 ?c" by (intro conc_more conc_start)
  have pcs: "cn_pcs ?c = [L_Inside, L_Select]" by simp
  then have one: "1 < length (cn_pcs ?c)" "cn_pcs ?c ! 1 = L_Select" "count_pc (\<lambda>p. p = L_Inside) (cn_pcs ?c) = 1" by auto
  have "cn_pcs (conc_step 1 (Step 1) ?c) ! 1 = L_Rejected" using concurrency_limited [OF r] one by blast
  with r pcs show ?thesis by blast
qed

end
