(* ===== verification/Handler.thy ===== *)
theory Handler
  imports Middleware
begin

text \<open>
  \<^verbatim>\<open>internal/handler/http.go\<close>: validation, the conversion to a domain request, \<^verbatim>\<open>POST /quotes\<close>
  with its error responses, readiness, shutdown and the routes. The orchestrator is the
  argument \<open>get\<close>, the port of theory \<open>Orchestrator\<close>; the JSON decoder is the argument
  \<open>decode\<close>, which gives the outcome of decoding at most \<open>maxBodyBytes\<close> of the body;
  \<open>quoted\<close> is \<^verbatim>\<open>%q\<close>.
\<close>

section \<open>Constants and types\<close>

definition maxBodyBytes :: nat where "maxBodyBytes = 1048576"
definition defaultTimeoutMs :: int where "defaultTimeoutMs = 5000"
definition minTimeoutMs :: int where "minTimeoutMs = 100"
definition maxTimeoutMs :: int where "maxTimeoutMs = 30000"
definition maxRequestIDLen :: nat where "maxRequestIDLen = 256"
definition shutdownDrainWindow :: duration where "shutdownDrainWindow = 30 * Second"

lemmas handler_consts = defaultTimeoutMs_def minTimeoutMs_def maxTimeoutMs_def maxRequestIDLen_def

record quoteRequest =
  jq_RequestID :: string
  jq_CoverageLines :: "string list"
  jq_TimeoutMs :: int

datatype decoded = TooLarge | BadJson | Decoded quoteRequest

section \<open>Validation\<close>

definition isValidCoverageLine :: "string \<Rightarrow> bool" where
  "isValidCoverageLine line \<longleftrightarrow>
     line = CoverageLineAuto \<or> line = CoverageLineHomeowners \<or> line = CoverageLineUmbrella"

definition invalid :: "string \<Rightarrow> go_error" where
  "invalid msg = Wrapped (Error_text ErrInvalidRequest @ '': '' @ msg) ErrInvalidRequest"

definition validateQuoteRequest :: "(string \<Rightarrow> string) \<Rightarrow> quoteRequest \<Rightarrow> go_error option" where
  "validateQuoteRequest quoted req =
     (if jq_RequestID req = '''' then Some (invalid ''request_id is required'')
      else if maxRequestIDLen < length (jq_RequestID req)
      then Some (invalid (''request_id exceeds '' @ itoa (int maxRequestIDLen) @ '' characters''))
      else if list_ex (\<lambda>c. c < 32 \<or> 126 < c) (runes (jq_RequestID req))
      then Some (invalid ''request_id contains invalid characters'')
      else if jq_CoverageLines req = [] then Some (invalid ''coverage_lines must contain at least one entry'')
      else case List.find (\<lambda>line. \<not> isValidCoverageLine line) (jq_CoverageLines req) of
             Some line \<Rightarrow> Some (invalid (''unknown coverage_line '' @ quoted line
                            @ '': must be one of auto, homeowners, umbrella''))
           | None \<Rightarrow>
               if jq_TimeoutMs req < 0
               then Some (invalid (''timeout_ms must be non-negative, got '' @ itoa (jq_TimeoutMs req)))
               else if 0 < jq_TimeoutMs req \<and> jq_TimeoutMs req < minTimeoutMs
               then Some (invalid (''timeout_ms must be >= '' @ itoa minTimeoutMs @ '' ms, got '' @ itoa (jq_TimeoutMs req)))
               else if maxTimeoutMs < jq_TimeoutMs req
               then Some (invalid (''timeout_ms must be <= '' @ itoa maxTimeoutMs @ '' ms, got '' @ itoa (jq_TimeoutMs req)))
               else None)"

definition buildDomainRequest :: "quoteRequest \<Rightarrow> QuoteRequest" where
  "buildDomainRequest req =
     (let timeoutMs = (if jq_TimeoutMs req \<le> 0 then defaultTimeoutMs else jq_TimeoutMs req)
      in \<lparr>q_RequestID = jq_RequestID req, q_ClientID = '''', q_CoverageLines = jq_CoverageLines req,
          q_Timeout = wrap64 (timeoutMs * Millisecond)\<rparr>)"

section \<open>Responses\<close>

definition writeErrorBody :: "int \<Rightarrow> string \<Rightarrow> writer \<Rightarrow> writer" where
  "writeErrorBody status message w =
     write_body (ErrorJson message) (WriteHeader status (set_header ''Content-Type'' ''application/json'' w))"

definition error_level :: "int \<Rightarrow> level" where
  "error_level status = (if 500 \<le> status then LevelError else if status = 504 then LevelWarn else LevelInfo)"

definition writeError :: "int \<Rightarrow> string \<Rightarrow> string \<Rightarrow> string \<Rightarrow> writer \<Rightarrow> writer" where
  "writeError status requestID code message w =
     writeErrorBody status (code @ '': '' @ message)
       (log_line (RequestError (error_level status) requestID status code) w)"

definition handleOrchError :: "string \<Rightarrow> go_error \<Rightarrow> writer \<Rightarrow> writer" where
  "handleOrchError requestID err w =
     (if errors_Is err ErrCarrierTimeout
      then writeError 504 requestID ''TIMEOUT'' ''request timed out before carriers responded'' w
      else writeErrorBody 500 ''internal error'' w)"

definition item_of :: "QuoteResult \<Rightarrow> quoteItem" where
  "item_of r = \<lparr>qi_CarrierID = r_CarrierID r, qi_CarrierRef = r_CarrierRef r,
     qi_PremiumCents = m_Amount (r_Premium r), qi_Currency = m_Currency (r_Premium r),
     qi_IsHedged = r_IsHedged r, qi_LatencyMs = Milliseconds (r_Latency r)\<rparr>"

section \<open>Handlers\<close>

text \<open>\<open>elapsed\<close> is \<^verbatim>\<open>time.Since(start)\<close> when the response is built.\<close>
definition handlePostQuotes :: "(nat \<Rightarrow> string \<Rightarrow> decoded) \<Rightarrow> (string \<Rightarrow> string) \<Rightarrow> duration
    \<Rightarrow> 's OrchestratorPort \<Rightarrow> 's handler" where
  "handlePostQuotes decode quoted elapsed get r w s =
     (let headerID = rq_header r ''X-Request-ID''
      in case decode maxBodyBytes (rq_body r) of
           TooLarge \<Rightarrow> Some (Returned (writeError 400 headerID ''REQUEST_TOO_LARGE'' ''request body exceeds 1 MB limit'' w), s)
         | BadJson \<Rightarrow> Some (Returned (writeError 400 headerID ''INVALID_JSON'' ''malformed JSON body'' w), s)
         | Decoded req \<Rightarrow>
             let requestID = (if jq_RequestID req = '''' then headerID else jq_RequestID req)
             in case validateQuoteRequest quoted req of
                  Some err \<Rightarrow> Some (Returned (writeError 400 requestID ''INVALID_REQUEST'' (Error_text err) w), s)
                | None \<Rightarrow>
                    let domainReq = (buildDomainRequest req)\<lparr>q_ClientID := ClientIDFromContext r\<rparr>
                    in case get domainReq s of
                         None \<Rightarrow> None
                       | Some (Panicked, s') \<Rightarrow> Some (Panicked, s')
                       | Some (Returned (Inl err), s') \<Rightarrow> Some (Returned (handleOrchError requestID err w), s')
                       | Some (Returned (Inr results), s') \<Rightarrow>
                           if results = []
                           then Some (Returned (writeError 422 requestID ''NO_ELIGIBLE_CARRIERS''
                                  ''no carriers available for the requested coverage lines'' w), s')
                           else Some (Returned (write_body
                                  (QuotesJson \<lparr>qr_RequestID = q_RequestID domainReq, qr_Quotes = map item_of results,
                                     qr_DurationMs = Milliseconds elapsed\<rparr>)
                                  (WriteHeader 200 (set_header ''Content-Type'' ''application/json'' w))), s'))"

text \<open>\<open>ping\<close> is the result of \<^verbatim>\<open>PingContext\<close> when a database is configured.\<close>
definition handleReadyz :: "go_error option option \<Rightarrow> 's handler" where
  "handleReadyz ping r w s =
     (case ping of
        Some (Some err) \<Rightarrow> Some (Returned (write_body (Text ''db: unreachable'') (WriteHeader 503 w)), s)
      | _ \<Rightarrow> Some (Returned (write_body (Text ''ok'') (WriteHeader 200 w)), s))"

definition handleHealthz :: "'s handler" where
  "handleHealthz r w s = Some (Returned (write_body (Text ''ok'') (WriteHeader 200 w)), s)"

definition Shutdown :: "go_error option \<Rightarrow> go_error option" where
  "Shutdown drain =
     (case drain of Some err \<Rightarrow> Some (Wrapped (''http server shutdown: '' @ Error_text err) err) | None \<Rightarrow> None)"

text \<open>
  The registered patterns; a \<^verbatim>\<open>GET\<close> pattern also serves \<^verbatim>\<open>HEAD\<close>. Whatever no pattern
  matches is answered by the multiplexer itself (\<open>fallback\<close>).
\<close>
definition RegisterRoutes :: "'s handler \<Rightarrow> 's handler \<Rightarrow> 's handler \<Rightarrow> 's handler \<Rightarrow> 's handler" where
  "RegisterRoutes post metrics readyz fallback r =
     (if rq_method r = ''POST'' \<and> rq_path r = ''/quotes'' then post r
      else if rq_method r \<in> {''GET'', ''HEAD''} \<and> rq_path r = ''/metrics'' then metrics r
      else if rq_method r \<in> {''GET'', ''HEAD''} \<and> rq_path r = ''/healthz'' then handleHealthz r
      else if rq_method r \<in> {''GET'', ''HEAD''} \<and> rq_path r = ''/readyz'' then readyz r
      else fallback r)"

section \<open>Validation, characterised\<close>

lemma runes_check:
  "list_ex (\<lambda>c. c < 32 \<or> 126 < c) (runes s) \<longleftrightarrow> \<not> list_all (\<lambda>c. 32 \<le> byte c \<and> byte c \<le> 126) s"
proof -
  have "list_ex (\<lambda>c. c < 32 \<or> 126 < c) (runes s) \<longleftrightarrow> \<not> (\<forall>c \<in> set (runes s). 32 \<le> c \<and> c \<le> 126)"
    unfolding list_ex_iff by (meson not_less)
  then show ?thesis by (simp only: runes_printable list_all_iff)
qed

definition acceptable :: "quoteRequest \<Rightarrow> bool" where
  "acceptable req \<longleftrightarrow> jq_RequestID req \<noteq> '''' \<and> length (jq_RequestID req) \<le> 256
     \<and> list_all (\<lambda>c. 32 \<le> byte c \<and> byte c \<le> 126) (jq_RequestID req)
     \<and> jq_CoverageLines req \<noteq> [] \<and> list_all (\<lambda>l. l \<in> {''auto'', ''homeowners'', ''umbrella''}) (jq_CoverageLines req)
     \<and> (jq_TimeoutMs req = 0 \<or> 100 \<le> jq_TimeoutMs req \<and> jq_TimeoutMs req \<le> 30000)"

lemma valid_line: "isValidCoverageLine l \<longleftrightarrow> l \<in> {''auto'', ''homeowners'', ''umbrella''}"
  by (simp add: isValidCoverageLine_def coverage_lines)

lemma find_bad_line:
  "List.find (\<lambda>l. \<not> isValidCoverageLine l) ls = None
    \<longleftrightarrow> list_all (\<lambda>l. l \<in> {''auto'', ''homeowners'', ''umbrella''}) ls"
  by (auto simp: find_None_iff list_all_iff valid_line)

lemma validate_cases:
  "validateQuoteRequest quoted req = None \<longleftrightarrow> acceptable req"
  "validateQuoteRequest quoted req = Some err \<Longrightarrow> errors_Is err ErrInvalidRequest"
proof -
  show "validateQuoteRequest quoted req = None \<longleftrightarrow> acceptable req"
  proof (cases "List.find (\<lambda>l. \<not> isValidCoverageLine l) (jq_CoverageLines req)")
    case None
    note good = None [unfolded find_bad_line]
    show ?thesis unfolding validateQuoteRequest_def acceptable_def runes_check None
      using good by (auto simp: handler_consts)
  next
    case (Some l)
    then have "\<not> list_all (\<lambda>l. l \<in> {''auto'', ''homeowners'', ''umbrella''}) (jq_CoverageLines req)"
      using find_bad_line [of "jq_CoverageLines req"] by (metis option.distinct(1))
    then show ?thesis unfolding validateQuoteRequest_def acceptable_def Some by auto
  qed
  show "validateQuoteRequest quoted req = Some err \<Longrightarrow> errors_Is err ErrInvalidRequest"
    by (auto simp: validateQuoteRequest_def invalid_def split: if_splits option.splits)
qed

lemma acceptable_timeout:
  assumes "acceptable req"
  shows "q_Timeout (buildDomainRequest req)
     = (if jq_TimeoutMs req = 0 then 5 * Second else jq_TimeoutMs req * Millisecond)"
    and "100 * Millisecond \<le> q_Timeout (buildDomainRequest req) \<and> q_Timeout (buildDomainRequest req) \<le> 30 * Second"
  using assms
  by (auto simp: acceptable_def buildDomainRequest_def handler_consts duration_consts in_int64_def
      int64_min_def int64_max_def)

section \<open>Responses of the quote handler\<close>

definition status_of :: "writer \<Rightarrow> int option" where
  "status_of w = map_option fst (wr_sent w)"

lemma writeError_status [simp]:
  "wr_sent w = None \<Longrightarrow> status_of (writeError st i c m w) = Some st"
  "wr_sent w = None \<Longrightarrow> status_of (writeErrorBody st m w) = Some st"
  by (simp_all add: writeError_def writeErrorBody_def status_of_def)

lemma writeError_body: "wr_body (writeError st i c m w) = wr_body w @ [ErrorJson (c @ '': '' @ m)]"
  by (simp add: writeError_def writeErrorBody_def)

context quote_port
begin

text \<open>What a client of the port can be answered.\<close>
lemma post_responses:
  assumes s: "usable s" and e: "fit e" and w: "wr_sent w = None" "wr_body w = []"
    and run: "handlePostQuotes decode quoted elapsed (get e) r w s = Some (out, s')"
  shows "usable s' \<and> (\<exists>w'. out = Returned w' \<and>
     (case decode maxBodyBytes (rq_body r) of
        Decoded req \<Rightarrow>
          if acceptable req
          then (status_of w' = Some 422 \<and> (\<exists>m. wr_body w' = [ErrorJson m]))
             \<or> (status_of w' = Some 200 \<and> (\<exists>q. wr_body w' = [QuotesJson q] \<and> qr_RequestID q = jq_RequestID req
                  \<and> qr_Quotes q \<noteq> [] \<and> sorted (map qi_PremiumCents (qr_Quotes q))
                  \<and> distinct (map qi_CarrierID (qr_Quotes q))))
          else status_of w' = Some 400 \<and> s' = s
      | _ \<Rightarrow> status_of w' = Some 400 \<and> s' = s))"
proof (cases "decode maxBodyBytes (rq_body r)")
  case (Decoded req)
  show ?thesis
  proof (cases "acceptable req")
    case False
    then obtain err where "validateQuoteRequest quoted req = Some err"
      using validate_cases(1) [of quoted req] by (cases "validateQuoteRequest quoted req") auto
    with run Decoded s False w show ?thesis by (auto simp: handlePostQuotes_def Let_def)
  next
    case True
    then have v: "validateQuoteRequest quoted req = None" by (simp add: validate_cases)
    let ?q = "(buildDomainRequest req)\<lparr>q_ClientID := ClientIDFromContext r\<rparr>"
    obtain o1 s1 where g: "get e ?q s = Some (o1, s1)"
      using run by (auto simp: handlePostQuotes_def Let_def Decoded v split: option.splits)
    obtain rs where o1: "o1 = Returned (Inr rs)" and us: "usable s1"
      and rs: "sorted (map (\<lambda>r. m_Amount (r_Premium r)) rs)" "distinct (map r_CarrierID rs)"
      using get_quotes [OF s e g] by blast
    have id: "q_RequestID (buildDomainRequest req) = jq_RequestID req" by (simp add: buildDomainRequest_def Let_def)
    show ?thesis
    proof (cases "rs = []")
      case empty: True
      with run g o1 us w True show ?thesis
        by (auto simp: handlePostQuotes_def Let_def Decoded v writeError_body)
    next
      case False
      with run g o1 us w True rs id show ?thesis
        by (auto simp: handlePostQuotes_def Let_def Decoded v status_of_def item_of_def comp_def)
    qed
  qed
qed (use run s w in \<open>auto simp: handlePostQuotes_def Let_def\<close>)

end

section \<open>Properties\<close>

text \<open>
  C33: what validation accepts. Although the code walks over the runes of the request ID, a
  request passes if and only if its ID is 1 to 256 bytes of
  printable ASCII, there is at least one coverage line and all are known, and the timeout is 0
  or between 100 and 30000 ms; every rejection is an \<^verbatim>\<open>ErrInvalidRequest\<close>.
\<close>
theorem validation_exact:
  "case validateQuoteRequest quoted req of None \<Rightarrow> acceptable req
   | Some err \<Rightarrow> \<not> acceptable req \<and> errors_Is err ErrInvalidRequest"
  using validate_cases(1) [of quoted req] validate_cases(2) [of quoted req] by (auto split: option.splits)

text \<open>
  An accepted request keeps its timeout. It reaches the orchestrator with its own request
  ID and coverage lines and a timeout of 5 s if none was given and of exactly the requested
  milliseconds otherwise, within 100 ms and 30 s, so the conversion does not overflow and the
  orchestrator's own default is never used.
\<close>
theorem accepted_request_timeout:
  assumes "validateQuoteRequest quoted req = None"
  shows "q_RequestID (buildDomainRequest req) = jq_RequestID req
    \<and> q_CoverageLines (buildDomainRequest req) = jq_CoverageLines req
    \<and> q_Timeout (buildDomainRequest req)
        = (if jq_TimeoutMs req = 0 then 5 * Second else jq_TimeoutMs req * Millisecond)
    \<and> 100 * Millisecond \<le> q_Timeout (buildDomainRequest req) \<and> q_Timeout (buildDomainRequest req) \<le> 30 * Second
    \<and> request_timeout (buildDomainRequest req) = q_Timeout (buildDomainRequest req)"
proof -
  have a: "acceptable req" using assms validate_cases(1) by blast
  have "0 < q_Timeout (buildDomainRequest req)" using acceptable_timeout(2) [OF a] by (simp add: Millisecond_def)
  with acceptable_timeout [OF a] show ?thesis
    by (simp add: request_timeout_def) (simp add: buildDomainRequest_def Let_def)
qed

definition demo_json :: quoteRequest where
  "demo_json = \<lparr>jq_RequestID = ''r1'', jq_CoverageLines = [''auto''], jq_TimeoutMs = 5000\<rparr>"

lemma demo_json_ok: "acceptable demo_json"
  by (simp add: acceptable_def demo_json_def)

theorem accepted_request_timeout_witness:
  "q_Timeout (buildDomainRequest demo_json) = 5 * Second"
  using accepted_request_timeout [of id demo_json] validate_cases(1) [of id demo_json] demo_json_ok
  by (simp add: demo_json_def duration_consts)

text \<open>
  C8: how \<^verbatim>\<open>POST /quotes\<close> answers, over the orchestrator. Each completed call sends exactly one
  status: 400 for a body that is too large, malformed or not acceptable, without calling the
  orchestrator; otherwise 422 if there is no quote, or 200 with the request's own ID and a
  non-empty list of quotes sorted by premium with one quote per carrier. The handler never
  panics, and its 500 and 504 answers are never sent: when all carriers time out, fail or are
  excluded the list is empty and the answer is 422. This holds for every \<^verbatim>\<open>singleflight.Do\<close>
  that behaves as documented.
\<close>
theorem post_quotes_responses:
  assumes "usable_orch s" "fit_env (E, calls, Do)" "wr_sent w = None" "wr_body w = []"
    and "handlePostQuotes decode quoted elapsed (GetQuotes Do E) r w s = Some (out, s')"
  shows "usable_orch s' \<and> (\<exists>w'. out = Returned w' \<and>
     (case decode maxBodyBytes (rq_body r) of
        Decoded req \<Rightarrow>
          if acceptable req
          then (status_of w' = Some 422 \<and> (\<exists>m. wr_body w' = [ErrorJson m]))
             \<or> (status_of w' = Some 200 \<and> (\<exists>q. wr_body w' = [QuotesJson q] \<and> qr_RequestID q = jq_RequestID req
                  \<and> qr_Quotes q \<noteq> [] \<and> sorted (map qi_PremiumCents (qr_Quotes q))
                  \<and> distinct (map qi_CarrierID (qr_Quotes q))))
          else status_of w' = Some 400 \<and> s' = s
      | _ \<Rightarrow> status_of w' = Some 400 \<and> s' = s))"
  using gateway.post_responses [OF assms(1-4), of decode quoted elapsed r out s'] assms(5) by simp

theorem post_quotes_responses_witness:
  "\<exists>w' s'. handlePostQuotes (\<lambda>n b. Decoded demo_json) id Second
       (GetQuotes (share_do []) demo_env)
       ((demo_http '''')\<lparr>rq_client := Some ''abcdefgh...''\<rparr>) new_writer demo_orch = Some (Returned w', s')
     \<and> status_of w' = Some 200 \<and> usable_orch s'"
proof -
  let ?r = "(demo_http '''')\<lparr>rq_client := Some ''abcdefgh...''\<rparr>"
  let ?get = "GetQuotes (share_do []) demo_env"
  have req: "(buildDomainRequest demo_json)\<lparr>q_ClientID := ClientIDFromContext ?r\<rparr> = demo_request"
    by (simp add: buildDomainRequest_def demo_json_def ClientIDFromContext_def demo_request_def Let_def wrap64_def duration_consts)
  have v: "validateQuoteRequest id demo_json = None" using demo_json_ok by (simp add: validate_cases)
  obtain s' where g: "GetQuotes (share_do []) demo_env demo_request demo_orch
    = Some (Returned (Inr [demo_quote ''gamma'' 50200, demo_quote ''alpha'' 50300]), s')" by (rule demo_get)
  obtain w' where run: "handlePostQuotes (\<lambda>n b. Decoded demo_json) id Second ?get ?r new_writer demo_orch = Some (Returned w', s')"
    and body: "\<exists>q. wr_body w' = [QuotesJson q]"
    using g by (simp add: handlePostQuotes_def Let_def v req) (simp add: new_writer_def)
  have w0: "wr_sent new_writer = None" "wr_body new_writer = []" by (simp_all add: new_writer_def)
  have "status_of w' = Some 200" "usable_orch s'"
    using post_quotes_responses [OF demo_usable(1) demo_fit_alone w0 run] demo_json_ok body by auto
  with run show ?thesis by auto
qed

text \<open>
  The warning level for timeouts is unreachable: whatever the status, \<^verbatim>\<open>writeError\<close> logs at
  error level from 500 on and at info level below, so a 504 is logged as an error, and the
  case meant for it never applies.
\<close>
theorem timeouts_logged_as_errors:
  "wr_log (writeError status requestID code message w)
     = wr_log w @ [RequestError (if 500 \<le> status then LevelError else LevelInfo) requestID status code]"
  by (simp add: writeError_def writeErrorBody_def error_level_def)

text \<open>
  Readiness follows the database: 503 exactly when a database is configured and does not
  answer the ping, 200 otherwise.
\<close>
theorem readyz_status:
  "wr_sent w = None \<Longrightarrow>
   map_option (\<lambda>(out, s'). (case out of Returned w' \<Rightarrow> status_of w' | Panicked \<Rightarrow> None, s')) (handleReadyz ping r w s)
     = Some (Some (if \<exists>err. ping = Some (Some err) then 503 else 200), s)"
  by (auto simp: handleReadyz_def status_of_def split: option.splits)

theorem readyz_status_witness:
  "map_option (\<lambda>(out, s'). (case out of Returned w' \<Rightarrow> status_of w' | Panicked \<Rightarrow> None, s'))
     (handleReadyz (Some (Some CtxDeadlineExceeded)) (demo_http '''') new_writer ()) = Some (Some 503, ())"
  using readyz_status [of new_writer "Some (Some CtxDeadlineExceeded)" "demo_http ''''" "()"]
  by (simp add: new_writer_def)

end
