(* ===== verification/Cleanup.thy ===== *)
theory Cleanup
  imports Repository
begin

text \<open>
  \<^verbatim>\<open>internal/cleanup/cleanup.go\<close>: the background ticker that purges expired quotes, with the
  goroutine that runs \<^verbatim>\<open>Start\<close> and any number of goroutines that call \<^verbatim>\<open>Stop\<close>, as a machine
  over the two channels (closed or not) and the repository's table. A label is one move; a
  blocked move is \<open>None\<close>.
\<close>

section \<open>The machine\<close>

datatype start_pc = NotStarted | Looping | Exited | StartPanic
datatype stop_pc = S_Close | S_Wait | S_Returned | S_Panic

record cleanup_sys =
  k_interval :: duration
  k_loop :: start_pc
  k_stops :: "stop_pc list"
  k_stop :: bool
  k_done :: bool
  k_ctx :: bool
  k_table :: table
  k_purged :: "instant list"

text \<open>\<open>k_purged\<close> is history only: the clock of each successful sweep.\<close>
definition New_Ticker :: "table \<Rightarrow> duration \<Rightarrow> cleanup_sys" where
  "New_Ticker repo interval =
     \<lparr>k_interval = interval, k_loop = NotStarted, k_stops = [], k_stop = False, k_done = False, k_ctx = False,
      k_table = repo, k_purged = []\<rparr>"

text \<open>One pass; \<open>err\<close> is the error of the statement, if it fails.\<close>
definition sweep :: "go_error option \<Rightarrow> instant \<Rightarrow> cleanup_sys \<Rightarrow> cleanup_sys" where
  "sweep err now k =
     (case DeleteExpired err now (k_table k) of
        (Inl e, t) \<Rightarrow> k\<lparr>k_table := t\<rparr>
      | (Inr n, t) \<Rightarrow> k\<lparr>k_table := t, k_purged := k_purged k @ [now]\<rparr>)"

datatype cleanup_label =
    Start
  | Fire "go_error option" instant
  | SeeStop
  | SeeDone
  | CallStop
  | StopStep nat
  | CtxDone
  | Saved "instant \<Rightarrow> instant" string "QuoteResult list"

text \<open>
  \<^verbatim>\<open>Start\<close> panics in \<^verbatim>\<open>time.NewTicker\<close> when the interval is not positive (the deferred close of
  \<^verbatim>\<open>done\<close> still runs); \<^verbatim>\<open>Stop\<close> panics when \<^verbatim>\<open>stop\<close> is already closed.
\<close>
fun cleanup_step :: "cleanup_label \<Rightarrow> cleanup_sys \<Rightarrow> cleanup_sys option" where
  "cleanup_step Start k =
     (if k_loop k = NotStarted then
        if k_interval k \<le> 0 then Some (k\<lparr>k_loop := StartPanic, k_done := True\<rparr>) else Some (k\<lparr>k_loop := Looping\<rparr>)
      else None)"
| "cleanup_step (Fire err now) k = (if k_loop k = Looping then Some (sweep err now k) else None)"
| "cleanup_step SeeStop k =
     (if k_loop k = Looping \<and> k_stop k then Some (k\<lparr>k_loop := Exited, k_done := True\<rparr>) else None)"
| "cleanup_step SeeDone k =
     (if k_loop k = Looping \<and> k_ctx k then Some (k\<lparr>k_loop := Exited, k_done := True\<rparr>) else None)"
| "cleanup_step CallStop k = Some (k\<lparr>k_stops := k_stops k @ [S_Close]\<rparr>)"
| "cleanup_step (StopStep i) k =
     (if i < length (k_stops k) then
        case k_stops k ! i of
          S_Close \<Rightarrow>
            if k_stop k then Some (k\<lparr>k_stops := (k_stops k)[i := S_Panic]\<rparr>)
            else Some (k\<lparr>k_stops := (k_stops k)[i := S_Wait], k_stop := True\<rparr>)
        | S_Wait \<Rightarrow> if k_done k then Some (k\<lparr>k_stops := (k_stops k)[i := S_Returned]\<rparr>) else None
        | _ \<Rightarrow> None
      else None)"
| "cleanup_step CtxDone k = Some (k\<lparr>k_ctx := True\<rparr>)"
| "cleanup_step (Saved ts key rs) k = Some (k\<lparr>k_table := table_save ts key rs (k_table k)\<rparr>)"

inductive cleanup_reach :: "table \<Rightarrow> duration \<Rightarrow> cleanup_sys \<Rightarrow> bool" for repo interval where
  cleanup_start: "cleanup_reach repo interval (New_Ticker repo interval)"
| cleanup_more: "cleanup_reach repo interval k \<Longrightarrow> cleanup_step l k = Some k' \<Longrightarrow> cleanup_reach repo interval k'"

fun cleanup_run :: "cleanup_label list \<Rightarrow> cleanup_sys \<Rightarrow> cleanup_sys option" where
  "cleanup_run [] k = Some k"
| "cleanup_run (l # ls) k = (case cleanup_step l k of None \<Rightarrow> None | Some k' \<Rightarrow> cleanup_run ls k')"

section \<open>Invariant\<close>

text \<open>A \<^verbatim>\<open>Stop\<close> that got past its close.\<close>
fun past_close :: "stop_pc \<Rightarrow> bool" where
  "past_close S_Wait = True"
| "past_close S_Returned = True"
| "past_close _ = False"

definition cleanup_inv :: "duration \<Rightarrow> cleanup_sys \<Rightarrow> bool" where
  "cleanup_inv interval k \<longleftrightarrow> k_interval k = interval
     \<and> (k_done k \<longleftrightarrow> k_loop k \<in> {Exited, StartPanic})
     \<and> (k_loop k = StartPanic \<longrightarrow> interval \<le> 0) \<and> (k_loop k \<in> {Looping, Exited} \<longrightarrow> 0 < interval)
     \<and> count_pc past_close (k_stops k) = of_bool (k_stop k)
     \<and> (S_Panic \<in> set (k_stops k) \<longrightarrow> k_stop k)
     \<and> (S_Returned \<in> set (k_stops k) \<longrightarrow> k_done k)"

lemma sweep_frame [simp]:
  "k_interval (sweep err now k) = k_interval k" "k_loop (sweep err now k) = k_loop k"
  "k_stops (sweep err now k) = k_stops k" "k_stop (sweep err now k) = k_stop k" "k_done (sweep err now k) = k_done k"
  by (simp_all add: sweep_def split: prod.splits sum.splits)

lemma cleanup_inv_stop:
  assumes inv: "cleanup_inv interval k" and st: "cleanup_step (StopStep i) k = Some k'"
  shows "cleanup_inv interval k'"
proof -
  have i: "i < length (k_stops k)" using st by (auto split: if_splits)
  note upd = count_pc_update [OF i, of past_close]
  have sub: "set ((k_stops k)[i := p]) \<subseteq> insert p (set (k_stops k))" for p by (rule set_update_subset_insert)
  have new: "p \<in> set ((k_stops k)[i := p])" for p using i by (simp add: set_update_memI)
  show ?thesis
  proof (cases "k_stops k ! i")
    case S_Close
    show ?thesis
    proof (cases "k_stop k")
      case True
      with st i S_Close have k': "k' = k\<lparr>k_stops := (k_stops k)[i := S_Panic]\<rparr>" by simp
      show ?thesis using inv True upd [of S_Panic] sub [of S_Panic] S_Close
        unfolding cleanup_inv_def k' by auto
    next
      case False
      with st i S_Close have k': "k' = k\<lparr>k_stops := (k_stops k)[i := S_Wait], k_stop := True\<rparr>" by simp
      show ?thesis using inv False upd [of S_Wait] sub [of S_Wait] S_Close
        unfolding cleanup_inv_def k' by auto
    qed
  next
    case S_Wait
    with st i have k': "k' = k\<lparr>k_stops := (k_stops k)[i := S_Returned]\<rparr>" "k_done k" by (auto split: if_splits)
    show ?thesis using inv k'(2) upd [of S_Returned] sub [of S_Returned] S_Wait
      unfolding cleanup_inv_def k'(1) by auto
  qed (use st i in auto)
qed

lemma cleanup_inv_step:
  assumes inv: "cleanup_inv interval k" and st: "cleanup_step l k = Some k'"
  shows "cleanup_inv interval k'"
proof (cases l)
  case (StopStep i)
  with st cleanup_inv_stop [OF inv] show ?thesis by blast
next
  case Start
  with st have "k_loop k = NotStarted"
    "k' = (if k_interval k \<le> 0 then k\<lparr>k_loop := StartPanic, k_done := True\<rparr> else k\<lparr>k_loop := Looping\<rparr>)"
    by (auto split: if_splits)
  with inv show ?thesis by (cases "k_interval k \<le> 0") (auto simp: cleanup_inv_def)
next
  case (Fire err now)
  with st have "k' = sweep err now k" by (simp split: if_splits)
  with inv show ?thesis by (auto simp: cleanup_inv_def)
next
  case SeeStop
  with st have "k_loop k = Looping" "k' = k\<lparr>k_loop := Exited, k_done := True\<rparr>" by (auto split: if_splits)
  with inv show ?thesis by (auto simp: cleanup_inv_def)
next
  case SeeDone
  with st have "k_loop k = Looping" "k' = k\<lparr>k_loop := Exited, k_done := True\<rparr>" by (auto split: if_splits)
  with inv show ?thesis by (auto simp: cleanup_inv_def)
next
  case CallStop
  with st have "k' = k\<lparr>k_stops := k_stops k @ [S_Close]\<rparr>" by simp
  with inv show ?thesis by (auto simp: cleanup_inv_def)
next
  case CtxDone
  with st have "k' = k\<lparr>k_ctx := True\<rparr>" by simp
  with inv show ?thesis by (auto simp: cleanup_inv_def)
next
  case (Saved ts key rs)
  with st have "k' = k\<lparr>k_table := table_save ts key rs (k_table k)\<rparr>" by simp
  with inv show ?thesis by (auto simp: cleanup_inv_def)
qed

lemma cleanup_reach_inv: "cleanup_reach repo interval k \<Longrightarrow> cleanup_inv interval k"
  by (induction rule: cleanup_reach.induct) (simp add: cleanup_inv_def New_Ticker_def, rule cleanup_inv_step)

section \<open>What sweeps change\<close>

lemma sweep_table:
  "k_table (sweep err now k) = (case err of None \<Rightarrow> purge_rows now (k_table k) | Some _ \<Rightarrow> k_table k)"
  "k_purged (sweep err now k) = (case err of None \<Rightarrow> k_purged k @ [now] | Some _ \<Rightarrow> k_purged k)"
  by (simp_all add: sweep_def DeleteExpired_def split: option.splits)

text \<open>The table operation of a label, in the vocabulary of the store's contract.\<close>
fun table_op :: "cleanup_label \<Rightarrow> ((string \<times> QuoteResult list) + instant) option" where
  "table_op (Fire None now) = Some (Inr now)"
| "table_op (Saved ts key rs) = Some (Inl (key, rs))"
| "table_op _ = None"

definition harmless :: "instant \<Rightarrow> string \<Rightarrow> cleanup_label \<Rightarrow> bool" where
  "harmless now key l \<longleftrightarrow> (case table_op l of None \<Rightarrow> True | Some (Inr past) \<Rightarrow> past \<le> now
     | Some (Inl (key', rs)) \<Rightarrow> key' \<noteq> key)"

lemma cleanup_step_contents:
  assumes "cleanup_step l k = Some k'" "harmless now key l"
  shows "table_contents now key (k_table k') = table_contents now key (k_table k)"
proof (cases l)
  case (Fire err t)
  then have "k' = sweep err t k" using assms(1) by (simp split: if_splits)
  with Fire assms(2) pg.purged_later [of t now key "k_table k"] show ?thesis
    by (cases err) (auto simp: harmless_def sweep_table)
next
  case (Saved ts key' rs)
  with assms pg.saved_other [of key key' now ts rs "k_table k"] show ?thesis by (auto simp: harmless_def)
next
  case (StopStep i)
  with assms(1) show ?thesis by (auto split: if_splits stop_pc.splits)
qed (use assms(1) in \<open>auto split: if_splits\<close>)

section \<open>Properties\<close>

text \<open>
  Once a \<^verbatim>\<open>Stop\<close> has returned, the background loop is over: no sweep can run any more and
  the loop never starts again.
\<close>
theorem no_sweep_after_stop:
  assumes "cleanup_reach repo interval k" "S_Returned \<in> set (k_stops k)"
  shows "k_loop k \<in> {Exited, StartPanic} \<and> cleanup_step (Fire err now) k = None \<and> cleanup_step Start k = None"
  using cleanup_reach_inv [OF assms(1)] assms(2) by (auto simp: cleanup_inv_def)

definition stop_demo :: "cleanup_label list" where
  "stop_demo = [Start, Fire None 5, CallStop, StopStep 0, SeeStop, StopStep 0]"

lemma cleanup_run_reach: "cleanup_run ls k = Some k' \<Longrightarrow> cleanup_reach repo i k \<Longrightarrow> cleanup_reach repo i k'"
  by (induction ls arbitrary: k) (auto split: option.splits intro: cleanup_more)

theorem no_sweep_after_stop_witness:
  "\<exists>k. cleanup_run stop_demo (New_Ticker [] Minute) = Some k \<and> S_Returned \<in> set (k_stops k)
     \<and> cleanup_step (Fire None 9) k = None"
proof -
  have "map_option k_stops (cleanup_run stop_demo (New_Ticker [] Minute)) = Some [S_Returned]"
    by (simp add: stop_demo_def New_Ticker_def Minute_def)
  then obtain k where k: "cleanup_run stop_demo (New_Ticker [] Minute) = Some k" "k_stops k = [S_Returned]"
    by (auto simp: map_option_eq_Some)
  from no_sweep_after_stop [OF cleanup_run_reach [OF k(1) cleanup_start]] k show ?thesis by auto
qed

text \<open>
  Stopping cannot get stuck. With a positive interval, whenever a \<^verbatim>\<open>Stop\<close> waits for the
  loop, moves of the ticker's own goroutine alone lead to its return.
\<close>
theorem stop_returns:
  assumes "cleanup_reach repo interval k" "0 < interval" "i < length (k_stops k)" "k_stops k ! i = S_Wait"
  shows "\<exists>ls k'. list_all (\<lambda>l. l \<in> {Start, SeeStop, StopStep i}) ls
    \<and> cleanup_run ls k = Some k' \<and> k_stops k' ! i = S_Returned"
proof -
  have inv: "cleanup_inv interval k" by (rule cleanup_reach_inv [OF assms(1)])
  have "0 < count_pc past_close (k_stops k)" using count_pc_pos [OF assms(3), of past_close] assms(4) by simp
  moreover have "count_pc past_close (k_stops k) = of_bool (k_stop k)" using inv by (simp add: cleanup_inv_def)
  ultimately have stop: "k_stop k" by (cases "k_stop k") simp_all
  have int: "0 < k_interval k" using inv assms(2) by (simp add: cleanup_inv_def)
  show ?thesis
  proof (cases "k_loop k")
    case NotStarted
    then have "map_option (\<lambda>k'. k_stops k' ! i) (cleanup_run [Start, SeeStop, StopStep i] k) = Some S_Returned"
      using stop int assms(3,4) by simp
    then show ?thesis by (intro exI [of _ "[Start, SeeStop, StopStep i]"]) (auto simp: map_option_eq_Some)
  next
    case Looping
    then have "map_option (\<lambda>k'. k_stops k' ! i) (cleanup_run [SeeStop, StopStep i] k) = Some S_Returned"
      using stop assms(3,4) by simp
    then show ?thesis by (intro exI [of _ "[SeeStop, StopStep i]"]) (auto simp: map_option_eq_Some)
  next
    case Exited
    then have "k_done k" using inv by (simp add: cleanup_inv_def)
    then have "map_option (\<lambda>k'. k_stops k' ! i) (cleanup_run [StopStep i] k) = Some S_Returned"
      using assms(3,4) by simp
    then show ?thesis by (intro exI [of _ "[StopStep i]"]) (auto simp: map_option_eq_Some)
  next
    case StartPanic
    then show ?thesis using inv assms(2) by (simp add: cleanup_inv_def)
  qed
qed

theorem stop_returns_witness:
  "\<exists>k ls k'. cleanup_run [Start, CallStop, StopStep 0] (New_Ticker [] Minute) = Some k
     \<and> cleanup_run ls k = Some k' \<and> k_stops k' ! 0 = S_Returned"
proof -
  have "map_option k_stops (cleanup_run [Start, CallStop, StopStep 0] (New_Ticker [] Minute)) = Some [S_Wait]"
    by (simp add: New_Ticker_def Minute_def)
  then obtain k where k: "cleanup_run [Start, CallStop, StopStep 0] (New_Ticker [] Minute) = Some k" "k_stops k = [S_Wait]"
    by (auto simp: map_option_eq_Some)
  from stop_returns [OF cleanup_run_reach [OF k(1) cleanup_start], of 0] k show ?thesis by (auto simp: Minute_def)
qed

text \<open>
  \<^verbatim>\<open>Stop\<close> is not idempotent: of any number of calls at most one gets past closing the
  channel, and each further call, once it runs, panics.
\<close>
theorem second_stop_panics:
  assumes "cleanup_reach repo interval k" "k_stop k" "i < length (k_stops k)" "k_stops k ! i = S_Close"
  shows "count_pc past_close (k_stops k) = 1
    \<and> map_option (\<lambda>k'. k_stops k' ! i) (cleanup_step (StopStep i) k) = Some S_Panic"
  using cleanup_reach_inv [OF assms(1)] assms(2-4) by (simp add: cleanup_inv_def)

theorem second_stop_panics_witness:
  "\<exists>k. cleanup_run (stop_demo @ [CallStop]) (New_Ticker [] Minute) = Some k
     \<and> map_option (\<lambda>k'. k_stops k' ! 1) (cleanup_step (StopStep 1) k) = Some S_Panic"
proof -
  have "map_option (\<lambda>k. (k_stops k, k_stop k)) (cleanup_run (stop_demo @ [CallStop]) (New_Ticker [] Minute))
      = Some ([S_Returned, S_Close], True)"
    by (simp add: stop_demo_def New_Ticker_def Minute_def)
  then obtain k where k: "cleanup_run (stop_demo @ [CallStop]) (New_Ticker [] Minute) = Some k"
      "k_stops k = [S_Returned, S_Close]" "k_stop k"
    by (auto simp: map_option_eq_Some)
  from second_stop_panics [OF cleanup_run_reach [OF k(1) cleanup_start] k(3), of 1] k show ?thesis by auto
qed

text \<open>
  Cleaning up is invisible. However sweeps (failed or not), stops and saves under other
  keys are interleaved, what a lookup of a key can return at a time no earlier than the sweeps
  does not change.
\<close>
theorem cleanup_invisible:
  assumes "cleanup_run ls k = Some k'" "list_all (harmless now key) ls"
  shows "table_contents now key (k_table k') = table_contents now key (k_table k)"
  using assms
proof (induction ls arbitrary: k)
  case (Cons l ls)
  then obtain k1 where "cleanup_step l k = Some k1" "cleanup_run ls k1 = Some k'" by (auto split: option.splits)
  with Cons cleanup_step_contents [of l k k1 now key] show ?case by auto
qed simp

theorem cleanup_invisible_witness:
  "\<exists>k'. cleanup_run stop_demo (New_Ticker [row_of id ''k'' (demo_result ''alpha'' 200)] Minute) = Some k'
     \<and> table_contents 7 ''k'' (k_table k') = [cached_form id ''k'' (demo_result ''alpha'' 200)]"
proof -
  let ?k = "New_Ticker [row_of id ''k'' (demo_result ''alpha'' 200)] Minute"
  obtain k' where k': "cleanup_run stop_demo ?k = Some k'" by (simp add: stop_demo_def New_Ticker_def Minute_def)
  have "list_all (harmless 7 ''k'') stop_demo" by (simp add: stop_demo_def harmless_def)
  from cleanup_invisible [OF k' this] k' show ?thesis
    by (simp add: New_Ticker_def table_contents_def live_rows_def stored_and_read) (simp add: demo_result_def)
qed

text \<open>
  An interval that is not positive crashes the program: the only thing \<^verbatim>\<open>Start\<close> can do is
  panic, and no sweep ever runs.
\<close>
theorem nonpositive_interval_crashes:
  assumes "cleanup_reach repo interval k" "interval \<le> 0"
  shows "k_loop k \<in> {NotStarted, StartPanic} \<and> k_purged k = []
    \<and> (k_loop k = NotStarted \<longrightarrow> map_option k_loop (cleanup_step Start k) = Some StartPanic)"
proof -
  have inv: "cleanup_inv interval k" by (rule cleanup_reach_inv [OF assms(1)])
  then have loop: "k_loop k \<in> {NotStarted, StartPanic}" using assms(2) by (cases "k_loop k") (auto simp: cleanup_inv_def)
  have "k_purged k = []" using assms(1)
  proof induction
    case (cleanup_more k l k')
    have "k_loop k \<noteq> Looping"
      using cleanup_reach_inv [OF cleanup_more(1)] assms(2) by (auto simp: cleanup_inv_def)
    with cleanup_more(2,3) show ?case
      by (cases l) (auto split: if_splits stop_pc.splits)
  qed (simp add: New_Ticker_def)
  with loop inv assms(2) show ?thesis by (auto simp: cleanup_inv_def)
qed

theorem nonpositive_interval_crashes_witness:
  "map_option k_loop (cleanup_step Start (New_Ticker [] 0)) = Some StartPanic"
  using nonpositive_interval_crashes [OF cleanup_start, of 0 "[]"] by (simp add: New_Ticker_def)

end
