(* ===== verification/Http_Carrier.thy ===== *)
theory Http_Carrier
  imports Adapters
begin

text \<open>
  \<^verbatim>\<open>internal/adapter/http_carrier.go\<close> and \<^verbatim>\<open>internal/adapter/delta_carrier.go\<close>: the
  retrying JSON client and the Delta adapter on top of it. The network and the JSON library
  are the environment of each attempt (\<open>attempt_env\<close>); decoding works on the value the
  previous attempts left in the output, because all attempts decode into the same variable.
  \<open>post_loop\<close> also returns the log of what was done (back-off waits and attempts).
\<close>

section \<open>The client\<close>

definition maxResponseBytes :: nat where
  "maxResponseBytes = 10 * 2 ^ 20"

record HTTPCarrierConfig =
  hc_BaseURL :: string
  hc_APIKey :: string
  hc_MaxRetries :: int
  hc_RetryDelay :: duration
  hc_Timeout :: duration

definition withDefaults :: "HTTPCarrierConfig \<Rightarrow> HTTPCarrierConfig" where
  "withDefaults c =
     (let out = (if hc_MaxRetries c \<le> 0 then c\<lparr>hc_MaxRetries := 3\<rparr> else c);
          out = (if hc_RetryDelay out \<le> 0 then out\<lparr>hc_RetryDelay := 100 * Millisecond\<rparr> else out)
      in if hc_Timeout out \<le> 0 then out\<lparr>hc_Timeout := 5 * Second\<rparr> else out)"

record HTTPCarrier =
  hp_id :: string
  hp_cfg :: HTTPCarrierConfig

definition NewHTTPCarrier :: "string \<Rightarrow> HTTPCarrierConfig \<Rightarrow> HTTPCarrier" where
  "NewHTTPCarrier i cfg = \<lparr>hp_id = i, hp_cfg = withDefaults cfg\<rparr>"

text \<open>
  What one attempt meets: building the request fails, the transport fails, or a response
  arrives with a status, a body and the effect of decoding (at most \<open>maxResponseBytes\<close> of)
  it into the current output.
\<close>
datatype 'o net_outcome =
    BuildFails go_error
  | DoFails go_error
  | Response int string "string \<Rightarrow> 'o \<Rightarrow> go_error option \<times> 'o"

record out_request =
  or_url :: string
  or_headers :: "(string \<times> string) list"
  or_payload :: string

definition build_request :: "HTTPCarrier \<Rightarrow> string \<Rightarrow> string \<Rightarrow> out_request" where
  "build_request h url payload =
     \<lparr>or_url = url,
      or_headers = (''Content-Type'', ''application/json'')
        # (if hc_APIKey (hp_cfg h) \<noteq> '''' then [(''X-API-Key'', hc_APIKey (hp_cfg h))] else []),
      or_payload = payload\<rparr>"

definition doOnce :: "'o net_outcome \<Rightarrow> 'o \<Rightarrow> int \<times> go_error option \<times> 'o" where
  "doOnce net out =
     (case net of
        BuildFails err \<Rightarrow> (0, Some (Wrapped (''build request: '' @ Error_text err) err), out)
      | DoFails err \<Rightarrow> (0, Some (Wrapped (''do request: '' @ Error_text err) err), out)
      | Response status body decode \<Rightarrow>
          if status \<ge> 400
          then (status, Some (OtherError (''status '' @ itoa status @ '': '' @ TrimSpace (take 512 body))), out)
          else (case decode (take maxResponseBytes body) out of
                  (Some err, out) \<Rightarrow> (status, Some (Wrapped (''decode response: '' @ Error_text err) err), out)
                | (None, out) \<Rightarrow> (status, None, out)))"

record 'o attempt_env =
  at_ctx :: "go_error option"
  at_net :: "'o net_outcome"

datatype http_action = Backoff duration | Attempt nat out_request

text \<open>
  The retry loop with \<open>left\<close> attempts to go. \<open>at_ctx\<close> is the context's error if the
  context ends during the wait before that attempt.
\<close>
fun post_loop :: "HTTPCarrier \<Rightarrow> out_request \<Rightarrow> (nat \<Rightarrow> 'o attempt_env) \<Rightarrow> nat \<Rightarrow> nat \<Rightarrow> duration
    \<Rightarrow> go_error option \<Rightarrow> 'o \<Rightarrow> go_error option \<times> 'o \<times> http_action list" where
  "post_loop h rq env 0 attempt delay lastErr out =
     (Some (let msg = ''http_carrier '' @ hp_id h @ '': all '' @ itoa (hc_MaxRetries (hp_cfg h) + 1)
                      @ '' attempts failed: ''
            in case lastErr of
                 Some err \<Rightarrow> Wrapped (msg @ Error_text err) err
               | None \<Rightarrow> OtherError (msg @ ''%!w(<nil>)'')), out, [])"
| "post_loop h rq env (Suc left) attempt delay lastErr out =
     (let wait = (if 0 < attempt then [Backoff delay] else []);
          delay' = (if 0 < attempt then wrap64 (delay * 2) else delay)
      in case (if 0 < attempt then at_ctx (env attempt) else None) of
           Some err \<Rightarrow>
             (Some (Wrapped (''http_carrier '' @ hp_id h @ '': context cancelled before retry ''
                 @ itoa (int attempt) @ '': '' @ Error_text err) err), out, wait)
         | None \<Rightarrow>
             (case doOnce (at_net (env attempt)) out of
                (statusCode, None, out) \<Rightarrow> (None, out, wait @ [Attempt attempt rq])
              | (statusCode, Some err, out) \<Rightarrow>
                  if 400 \<le> statusCode \<and> statusCode < 500
                  then (Some (Wrapped (''http_carrier '' @ hp_id h @ '': non-retryable status ''
                          @ itoa statusCode @ '': '' @ Error_text err) err), out, wait @ [Attempt attempt rq])
                  else (case post_loop h rq env left (Suc attempt) delay' (Some err) out of
                          (res, out, acts) \<Rightarrow> (res, out, wait @ [Attempt attempt rq] @ acts))))"

definition post_url :: "string \<Rightarrow> string \<Rightarrow> string" where
  "post_url base path = TrimRight base (CHR ''/'') @ ''/'' @ TrimLeft path (CHR ''/'')"

text \<open>\<open>marshal\<close> is what \<^verbatim>\<open>json.Marshal\<close> returned for the body.\<close>
definition Post :: "HTTPCarrier \<Rightarrow> string \<Rightarrow> go_error + string \<Rightarrow> (nat \<Rightarrow> 'o attempt_env) \<Rightarrow> 'o
    \<Rightarrow> go_error option \<times> 'o \<times> http_action list" where
  "Post h path marshal env out =
     (case marshal of
        Inl err \<Rightarrow>
          (Some (Wrapped (''http_carrier '' @ hp_id h @ '': marshal request: '' @ Error_text err) err), out, [])
      | Inr payload \<Rightarrow>
          post_loop h (build_request h (post_url (hc_BaseURL (hp_cfg h)) path) payload) env
            (nat (hc_MaxRetries (hp_cfg h) + 1)) 0 (hc_RetryDelay (hp_cfg h)) None out)"

section \<open>Delta\<close>

record DeltaRequest =
  dq_RequestID :: string
  dq_Lines :: "string list"

record DeltaResponse =
  dr_QuoteID :: string
  dr_PremiumCents :: int
  dr_ValidForSeconds :: int

text \<open>The zero value of \<^verbatim>\<open>DeltaResponse\<close>.\<close>
definition empty_DeltaResponse :: DeltaResponse where
  "empty_DeltaResponse = \<lparr>dr_QuoteID = '''', dr_PremiumCents = 0, dr_ValidForSeconds = 0\<rparr>"

text \<open>The environment of one Delta call: the JSON encoder, the attempts and the clock.\<close>
record delta_env =
  de_marshal :: "DeltaRequest \<Rightarrow> go_error + string"
  de_attempts :: "nat \<Rightarrow> DeltaResponse attempt_env"
  de_now :: instant

definition Delta_Call :: "HTTPCarrier \<Rightarrow> delta_env \<Rightarrow> DeltaRequest \<Rightarrow> go_error + DeltaResponse" where
  "Delta_Call h env req =
     (case Post h ''/v1/quotes'' (de_marshal env req) (de_attempts env) empty_DeltaResponse of
        (Some err, _, _) \<Rightarrow> Inl err
      | (None, resp, _) \<Rightarrow> Inr resp)"

definition deltaAdapter :: "(delta_env, DeltaRequest, DeltaResponse) Adapter" where
  "deltaAdapter =
     \<lparr>ToCarrierRequest = (\<lambda>env q. Inr \<lparr>dq_RequestID = q_RequestID q, dq_Lines = q_CoverageLines q\<rparr>),
      FromCarrierResponse = (\<lambda>env r carrierID.
        let validFor = wrap64 (dr_ValidForSeconds r * Second);
            validFor = (if validFor \<le> 0 then 5 * Minute else validFor)
        in Inr \<lparr>r_RequestID = '''', r_CarrierID = carrierID,
                r_Premium = \<lparr>m_Amount = dr_PremiumCents r, m_Currency = ''USD''\<rparr>,
                r_ExpiresAt = de_now env + validFor, r_CarrierRef = dr_QuoteID r,
                r_Latency = 0, r_IsHedged = False\<rparr>)\<rparr>"

definition NewDeltaCarrier :: "HTTPCarrierConfig \<Rightarrow> HTTPCarrier" where
  "NewDeltaCarrier cfg = NewHTTPCarrier ''delta'' cfg"

definition RegisterDeltaCarrier :: "HTTPCarrier \<Rightarrow> delta_env AdapterFunc" where
  "RegisterDeltaCarrier carrier = Register deltaAdapter (Delta_Call carrier) ''delta''"

section \<open>The retry loop\<close>

fun is_attempt :: "http_action \<Rightarrow> bool" where
  "is_attempt (Attempt _ _) = True"
| "is_attempt (Backoff _) = False"

text \<open>The log of \<open>k\<close> attempts from number \<open>a\<close> on: one back-off before each but the first.\<close>
fun retry_log :: "out_request \<Rightarrow> nat \<Rightarrow> nat \<Rightarrow> duration \<Rightarrow> http_action list" where
  "retry_log rq a 0 delay = []"
| "retry_log rq a (Suc k) delay =
     (if 0 < a then [Backoff delay] else []) @ [Attempt a rq]
     @ retry_log rq (Suc a) k (if 0 < a then wrap64 (delay * 2) else delay)"

text \<open>An attempt after which the loop goes on: it failed, and not with a 4xx status.\<close>
definition retryable :: "'o net_outcome \<Rightarrow> 'o \<Rightarrow> bool" where
  "retryable net out \<longleftrightarrow> (case doOnce net out of
     (statusCode, err, out) \<Rightarrow> err \<noteq> None \<and> \<not> (400 \<le> statusCode \<and> statusCode < 500))"

text \<open>
  The log of the loop is a prefix of the log of all attempts: attempts are numbered
  consecutively, there are at most \<open>left\<close> of them, and the delays double.
\<close>
lemma post_loop_log:
  "post_loop h rq env left attempt delay lastErr out = (res, out', acts)
    \<Longrightarrow> prefix acts (retry_log rq attempt left delay)"
proof (induction h rq env left attempt delay lastErr out arbitrary: res out' acts rule: post_loop.induct)
  case (2 h rq env left attempt delay lastErr out)
  show ?case
  proof (cases "if 0 < attempt then at_ctx (env attempt) else None")
    case (Some err)
    with "2.prems" show ?thesis by (auto simp: Let_def split: if_splits)
  next
    case None
    obtain st e out1 where once: "doOnce (at_net (env attempt)) out = (st, e, out1)"
      by (cases "doOnce (at_net (env attempt)) out") auto
    show ?thesis
    proof (cases "e = None \<or> 400 \<le> st \<and> st < 500")
      case True
      with "2.prems" None once show ?thesis by (auto simp: Let_def split: option.splits if_splits)
    next
      case False
      then obtain err where e: "e = Some err" by auto
      obtain res2 out2 acts2 where rest: "post_loop h rq env left (Suc attempt)
          (if 0 < attempt then wrap64 (delay * 2) else delay) (Some err) out1 = (res2, out2, acts2)"
        by (cases "post_loop h rq env left (Suc attempt)
          (if 0 < attempt then wrap64 (delay * 2) else delay) (Some err) out1") auto
      have "prefix acts2 (retry_log rq (Suc attempt) left (if 0 < attempt then wrap64 (delay * 2) else delay))"
        using "2.IH" [OF refl refl None once [symmetric] refl e _ rest] False e by auto
      moreover have "acts = (if 0 < attempt then [Backoff delay] else []) @ [Attempt attempt rq] @ acts2"
        using "2.prems" None once e False rest by (auto simp: Let_def)
      ultimately show ?thesis by simp
    qed
  qed
qed simp

lemma retry_log_attempts: "length (filter is_attempt (retry_log rq a k delay)) = k"
  by (induction k arbitrary: a delay) auto

lemma post_loop_retry:
  assumes "0 < attempt \<longrightarrow> at_ctx (env attempt) = None"
    and "doOnce (at_net (env attempt)) out = (st, Some err, out1)" "\<not> (400 \<le> st \<and> st < 500)"
    and "post_loop h rq env left (Suc attempt) (if 0 < attempt then wrap64 (delay * 2) else delay)
      (Some err) out1 = (res, out', acts)"
  shows "post_loop h rq env (Suc left) attempt delay lastErr out
    = (res, out', (if 0 < attempt then [Backoff delay] else []) @ [Attempt attempt rq] @ acts)"
  using assms by (auto simp: Let_def split: if_splits)

text \<open>When every attempt fails retryably and the context stays alive, all are made.\<close>

definition failed_with :: "'o net_outcome \<Rightarrow> go_error \<Rightarrow> bool" where
  "failed_with net err \<longleftrightarrow> (\<exists>out st out'. doOnce net out = (st, Some err, out'))"

lemma post_loop_exhausted:
  assumes "\<forall>i x. attempt \<le> i \<longrightarrow> i < attempt + left \<longrightarrow> at_ctx (env i) = None \<and> retryable (at_net (env i)) x"
    and "post_loop h rq env left attempt delay lastErr out = (res, out', acts)"
    and "0 < left \<or> lastErr \<noteq> None"
  shows "acts = retry_log rq attempt left delay \<and> (\<exists>msg err. res = Some (Wrapped msg err)
    \<and> (if left = 0 then lastErr = Some err else failed_with (at_net (env (attempt + left - 1))) err))"
  using assms
proof (induction left arbitrary: attempt delay lastErr out res out' acts)
  case 0
  then show ?case by (auto simp: Let_def split: option.splits)
next
  case (Suc left)
  obtain st err out1 where once: "doOnce (at_net (env attempt)) out = (st, Some err, out1)"
    and st: "\<not> (400 \<le> st \<and> st < 500)" and ctx: "at_ctx (env attempt) = None"
    using Suc.prems(1) [rule_format, of attempt out] by (auto simp: retryable_def split: prod.splits)
  let ?d = "if 0 < attempt then wrap64 (delay * 2) else delay"
  obtain res2 out2 acts2 where rest:
    "post_loop h rq env left (Suc attempt) ?d (Some err) out1 = (res2, out2, acts2)"
    by (cases "post_loop h rq env left (Suc attempt) ?d (Some err) out1") auto
  obtain msg err2 where acts2: "acts2 = retry_log rq (Suc attempt) left ?d" and res2: "res2 = Some (Wrapped msg err2)"
    "if left = 0 then Some err = Some err2 else failed_with (at_net (env (Suc attempt + left - 1))) err2"
    using Suc.IH [OF _ rest] Suc.prems(1) by auto
  from once have "failed_with (at_net (env attempt)) err" unfolding failed_with_def by blast
  with res2(2) have "failed_with (at_net (env (attempt + Suc left - 1))) err2" by (cases left) auto
  moreover have "res = res2" "acts = (if 0 < attempt then [Backoff delay] else []) @ [Attempt attempt rq] @ acts2"
    using Suc.prems(2) post_loop_retry [OF _ once st rest] ctx by (simp_all del: post_loop.simps)
  ultimately show ?case using acts2 res2(1) by simp
qed

text \<open>The loop ends with the first attempt that succeeds or meets a 4xx status.\<close>

lemma post_loop_stops:
  assumes "\<forall>i x. attempt \<le> i \<longrightarrow> i < attempt + k \<longrightarrow> retryable (at_net (env i)) x"
    and "\<forall>i. attempt \<le> i \<longrightarrow> i \<le> attempt + k \<longrightarrow> at_ctx (env i) = None"
    and "\<forall>x. \<not> retryable (at_net (env (attempt + k))) x
      \<and> (fst (snd (doOnce (at_net (env (attempt + k))) x)) = None) = success"
    and "post_loop h rq env (Suc k + m) attempt delay lastErr out = (res, out', acts)"
  shows "acts = retry_log rq attempt (Suc k) delay \<and> (res = None) = success"
  using assms
proof (induction k arbitrary: attempt delay lastErr out res out' acts)
  case 0
  obtain st e out1 where once: "doOnce (at_net (env attempt)) out = (st, e, out1)"
    by (cases "doOnce (at_net (env attempt)) out") auto
  then have stop: "e = None \<or> 400 \<le> st \<and> st < 500"
    using 0(3) [rule_format, of out] by (auto simp: retryable_def)
  have "at_ctx (env attempt) = None" using 0(2) by simp
  then have "acts = retry_log rq attempt 1 delay" "(res = None) = (e = None)"
    using 0(4) once stop by (auto simp: Let_def split: option.splits if_splits)
  moreover have "(e = None) = success" using 0(3) [rule_format, of out] once by simp
  ultimately show ?case by simp
next
  case (Suc k)
  obtain st err out1 where once: "doOnce (at_net (env attempt)) out = (st, Some err, out1)"
    and st: "\<not> (400 \<le> st \<and> st < 500)"
    using Suc.prems(1) [rule_format, of attempt out] by (auto simp: retryable_def split: prod.splits)
  have ctx: "at_ctx (env attempt) = None" using Suc.prems(2) by simp
  let ?d = "if 0 < attempt then wrap64 (delay * 2) else delay"
  obtain res2 out2 acts2 where rest:
    "post_loop h rq env (Suc k + m) (Suc attempt) ?d (Some err) out1 = (res2, out2, acts2)"
    by (cases "post_loop h rq env (Suc k + m) (Suc attempt) ?d (Some err) out1") auto
  have "acts2 = retry_log rq (Suc attempt) (Suc k) ?d \<and> (res2 = None) = success"
    using Suc.IH [OF _ _ _ rest] Suc.prems(1-3) by simp
  moreover have "res = res2" "acts = (if 0 < attempt then [Backoff delay] else []) @ [Attempt attempt rq] @ acts2"
    using Suc.prems(4) post_loop_retry [OF _ once st rest] ctx by (simp_all del: post_loop.simps)
  ultimately show ?case by simp
qed

text \<open>All attempts decode into one variable.\<close>

definition decode_into :: "(nat \<Rightarrow> 'o attempt_env) \<Rightarrow> nat \<Rightarrow> 'o \<Rightarrow> 'o" where
  "decode_into env i x = snd (snd (doOnce (at_net (env i)) x))"

lemma post_loop_output:
  "post_loop h rq env left attempt delay lastErr out = (res, out', acts)
    \<Longrightarrow> out' = fold (decode_into env) [attempt ..< attempt + length (filter is_attempt acts)] out"
proof (induction h rq env left attempt delay lastErr out arbitrary: res out' acts rule: post_loop.induct)
  case (2 h rq env left attempt delay lastErr out)
  show ?case
  proof (cases "if 0 < attempt then at_ctx (env attempt) else None")
    case (Some err)
    with "2.prems" show ?thesis by (auto simp: Let_def split: if_splits)
  next
    case None
    obtain st e out1 where once: "doOnce (at_net (env attempt)) out = (st, e, out1)"
      by (cases "doOnce (at_net (env attempt)) out") auto
    then have out1: "decode_into env attempt out = out1" by (simp add: decode_into_def)
    show ?thesis
    proof (cases "e = None \<or> 400 \<le> st \<and> st < 500")
      case True
      with "2.prems" None once out1 show ?thesis by (auto simp: Let_def split: option.splits if_splits)
    next
      case False
      then obtain err where e: "e = Some err" by auto
      let ?d = "if 0 < attempt then wrap64 (delay * 2) else delay"
      obtain res2 out2 acts2 where rest: "post_loop h rq env left (Suc attempt) ?d (Some err) out1 = (res2, out2, acts2)"
        by (cases "post_loop h rq env left (Suc attempt) ?d (Some err) out1") auto
      have "out2 = fold (decode_into env) [Suc attempt ..< Suc attempt + length (filter is_attempt acts2)] out1"
        using "2.IH" [OF refl refl None once [symmetric] refl e _ rest] False e by auto
      moreover have "out' = out2" "acts = (if 0 < attempt then [Backoff delay] else []) @ [Attempt attempt rq] @ acts2"
        using "2.prems" None once e False rest by (auto simp: Let_def)
      moreover have "[attempt ..< attempt + Suc (length (filter is_attempt acts2))]
          = attempt # [Suc attempt ..< Suc attempt + length (filter is_attempt acts2)]"
        by (subst upt_conv_Cons) (simp_all del: upt_Suc)
      ultimately show ?thesis using out1 by (simp del: upt_Suc)
    qed
  qed
qed simp

section \<open>Properties\<close>

text \<open>
  Whatever the network does, a \<^verbatim>\<open>Post\<close> of a constructed client makes at most
  \<^verbatim>\<open>MaxRetries+1\<close> attempts, numbered from zero, all with the same request, and waits before
  each retry; the waits start at \<^verbatim>\<open>RetryDelay\<close> and double.
\<close>
theorem Post_attempts_bounded:
  assumes "Post (NewHTTPCarrier i cfg) path (Inr payload) env out = (res, out', acts)"
    and "rq = build_request (NewHTTPCarrier i cfg) (post_url (hc_BaseURL cfg) path) payload"
  shows "prefix acts (retry_log rq 0 (nat (hc_MaxRetries (withDefaults cfg) + 1))
      (hc_RetryDelay (withDefaults cfg)))
    \<and> length (filter is_attempt acts) \<le> nat (hc_MaxRetries (withDefaults cfg) + 1)"
proof -
  have url: "hc_BaseURL (withDefaults cfg) = hc_BaseURL cfg" by (simp add: withDefaults_def Let_def)
  have p: "prefix acts (retry_log rq 0 (nat (hc_MaxRetries (withDefaults cfg) + 1))
      (hc_RetryDelay (withDefaults cfg)))"
    using post_loop_log assms url by (fastforce simp: Post_def NewHTTPCarrier_def)
  then obtain zs where "retry_log rq 0 (nat (hc_MaxRetries (withDefaults cfg) + 1))
      (hc_RetryDelay (withDefaults cfg)) = acts @ zs" by (auto simp: prefix_def)
  then have "length (filter is_attempt acts) \<le> nat (hc_MaxRetries (withDefaults cfg) + 1)"
    by (metis filter_append le_add1 length_append retry_log_attempts)
  with p show ?thesis by simp
qed

definition demo_http_cfg :: HTTPCarrierConfig where
  "demo_http_cfg = \<lparr>hc_BaseURL = ''https://delta/'', hc_APIKey = ''k'', hc_MaxRetries = 0,
     hc_RetryDelay = 0, hc_Timeout = 0\<rparr>"

theorem Post_attempts_bounded_witness:
  "length (filter is_attempt (snd (snd (Post (NewHTTPCarrier ''delta'' demo_http_cfg) ''/v1/quotes'' (Inr ''{}'')
     (\<lambda>i. \<lparr>at_ctx = None, at_net = DoFails (OtherError ''refused'')\<rparr>) ())))) \<le> 4"
proof -
  let ?p = "Post (NewHTTPCarrier ''delta'' demo_http_cfg) ''/v1/quotes'' (Inr ''{}'')
     (\<lambda>i. \<lparr>at_ctx = None, at_net = DoFails (OtherError ''refused'')\<rparr>) ()"
  obtain res out' acts where "?p = (res, out', acts)" by (cases ?p) auto
  from Post_attempts_bounded [OF this refl] this show ?thesis
    by (simp add: withDefaults_def demo_http_cfg_def)
qed

text \<open>
  C32: \<^verbatim>\<open>Post\<close> stops at the first attempt that succeeds or meets a 4xx status and returns
  success exactly in the former case: earlier attempts were retried, later ones never made.
\<close>
theorem Post_stops_at_first_conclusive:
  assumes "Post (NewHTTPCarrier i cfg) path (Inr payload) env out = (res, out', acts)"
    and "int k \<le> hc_MaxRetries (withDefaults cfg)"
    and "\<forall>i < k. \<forall>x. retryable (at_net (env i)) x" and "\<forall>i \<le> k. at_ctx (env i) = None"
    and "\<forall>x. \<not> retryable (at_net (env k)) x \<and> (fst (snd (doOnce (at_net (env k)) x)) = None) = success"
  shows "length (filter is_attempt acts) = Suc k \<and> (res = None) = success"
proof -
  define m where "m = nat (hc_MaxRetries (withDefaults cfg)) - k"
  have n: "nat (hc_MaxRetries (withDefaults cfg) + 1) = Suc k + m"
    using assms(2) by (simp add: m_def)
  let ?h = "NewHTTPCarrier i cfg"
  have "post_loop ?h (build_request ?h (post_url (hc_BaseURL (hp_cfg ?h)) path) payload) env (Suc k + m) 0
      (hc_RetryDelay (hp_cfg ?h)) None out = (res, out', acts)"
    using assms(1) n by (simp add: Post_def NewHTTPCarrier_def)
  from post_loop_stops [where attempt = 0, OF _ _ _ this] assms(3-5) show ?thesis
    by (metis add_0 retry_log_attempts)
qed

theorem Post_stops_at_first_conclusive_witness:
  "length (filter is_attempt (snd (snd (Post (NewHTTPCarrier ''delta'' demo_http_cfg) ''/v1/quotes'' (Inr ''{}'')
     (\<lambda>i. \<lparr>at_ctx = None, at_net = (if i = 0 then DoFails (OtherError ''refused'')
            else Response 404 ''gone'' (\<lambda>b x. (None, x)))\<rparr>) ())))) = 2"
proof -
  let ?env = "\<lambda>i. \<lparr>at_ctx = None, at_net = (if i = (0 :: nat) then DoFails (OtherError ''refused'')
            else Response 404 ''gone'' (\<lambda>b x. (None, x)))\<rparr>"
  let ?p = "Post (NewHTTPCarrier ''delta'' demo_http_cfg) ''/v1/quotes'' (Inr ''{}'') ?env ()"
  obtain res out' acts where p: "?p = (res, out', acts)" by (cases ?p) auto
  have "length (filter is_attempt acts) = Suc 1"
    using Post_stops_at_first_conclusive [OF p, of 1 False]
    by (simp add: withDefaults_def demo_http_cfg_def retryable_def doOnce_def)
  with p show ?thesis by simp
qed

text \<open>
  C31: if every attempt fails retryably and the context lives on, all
  \<^verbatim>\<open>MaxRetries+1\<close> attempts are made with every back-off between them, and the error returned
  wraps the last failure. A configured \<^verbatim>\<open>MaxRetries\<close> of zero therefore means four attempts.
\<close>
theorem Post_exhausts_retries:
  assumes "Post (NewHTTPCarrier i cfg) path (Inr payload) env out = (res, out', acts)"
    and "\<forall>i. at_ctx (env i) = None" and "\<forall>i x. retryable (at_net (env i)) x"
    and "rq = build_request (NewHTTPCarrier i cfg) (post_url (hc_BaseURL cfg) path) payload"
  shows "acts = retry_log rq 0 (if hc_MaxRetries cfg \<le> 0 then 4 else nat (hc_MaxRetries cfg + 1))
      (if hc_RetryDelay cfg \<le> 0 then 100 * Millisecond else hc_RetryDelay cfg)
    \<and> (\<exists>msg err. res = Some (Wrapped msg err)
         \<and> failed_with (at_net (env (if hc_MaxRetries cfg \<le> 0 then 3 else nat (hc_MaxRetries cfg)))) err)"
proof -
  let ?h = "NewHTTPCarrier i cfg"
  have cfg: "hc_BaseURL (hp_cfg ?h) = hc_BaseURL cfg"
    "nat (hc_MaxRetries (hp_cfg ?h) + 1) = (if hc_MaxRetries cfg \<le> 0 then 4 else nat (hc_MaxRetries cfg + 1))"
    "hc_RetryDelay (hp_cfg ?h) = (if hc_RetryDelay cfg \<le> 0 then 100 * Millisecond else hc_RetryDelay cfg)"
    "0 < nat (hc_MaxRetries (hp_cfg ?h) + 1)"
    by (simp_all add: NewHTTPCarrier_def withDefaults_def Let_def)
  from assms(1) cfg(1) have "post_loop ?h rq env (nat (hc_MaxRetries (hp_cfg ?h) + 1)) 0
      (hc_RetryDelay (hp_cfg ?h)) None out = (res, out', acts)"
    by (simp add: Post_def assms(4))
  from post_loop_exhausted [OF _ this] assms(2,3) cfg show ?thesis by (auto simp: nat_add_distrib split: if_splits)
qed

theorem Post_exhausts_retries_witness:
  "length (filter is_attempt (snd (snd (Post (NewHTTPCarrier ''delta'' demo_http_cfg) ''/v1/quotes'' (Inr ''{}'')
     (\<lambda>i. \<lparr>at_ctx = None, at_net = DoFails (OtherError ''refused'')\<rparr>) ())))) = 4"
proof -
  let ?p = "Post (NewHTTPCarrier ''delta'' demo_http_cfg) ''/v1/quotes'' (Inr ''{}'')
     (\<lambda>i. \<lparr>at_ctx = None, at_net = DoFails (OtherError ''refused'')\<rparr>) ()"
  obtain res out' acts where p: "?p = (res, out', acts)" by (cases ?p) auto
  from Post_exhausts_retries [OF p _ _ refl] p retry_log_attempts show ?thesis
    by (simp add: demo_http_cfg_def retryable_def doOnce_def)
qed

text \<open>
  Attempts are not independent. What \<^verbatim>\<open>Post\<close> leaves in the output is the composition of
  the decodings of all attempts it made, each into what the previous one left; in particular a
  value that a failed attempt wrote survives in the result of a later successful one that does
  not overwrite it.
\<close>
theorem attempts_share_output:
  assumes "Post h path (Inr payload) env out = (res, out', acts)"
  shows "out' = fold (decode_into env) [0 ..< length (filter is_attempt acts)] out"
  using post_loop_output [where attempt = 0] assms by (fastforce simp: Post_def)

text \<open>A first answer that is cut off after the quote ID, a second one without a quote ID.\<close>
definition stale_env :: "nat \<Rightarrow> DeltaResponse attempt_env" where
  "stale_env i = \<lparr>at_ctx = None, at_net = Response 200 ''...''
     (\<lambda>b x. if i = 0 then (Some (OtherError ''unexpected EOF''), x\<lparr>dr_QuoteID := ''first''\<rparr>)
            else (None, x\<lparr>dr_PremiumCents := 12500\<rparr>))\<rparr>"

theorem attempts_share_output_witness:
  "\<exists>out' acts. Post (NewHTTPCarrier ''delta'' demo_http_cfg) ''/v1/quotes'' (Inr ''{}'') stale_env empty_DeltaResponse
     = (None, out', acts) \<and> dr_QuoteID out' = ''first'' \<and> dr_PremiumCents out' = 12500"
proof -
  let ?p = "Post (NewHTTPCarrier ''delta'' demo_http_cfg) ''/v1/quotes'' (Inr ''{}'') stale_env empty_DeltaResponse"
  obtain res out' acts where p: "?p = (res, out', acts)" by (cases ?p) auto
  have n: "nat (hc_MaxRetries (hp_cfg (NewHTTPCarrier ''delta'' demo_http_cfg)) + 1) = Suc (Suc (Suc (Suc 0)))"
    by (simp add: NewHTTPCarrier_def withDefaults_def demo_http_cfg_def)
  have "res = None" "length (filter is_attempt acts) = 2"
    using p by (auto simp: Post_def n stale_env_def doOnce_def Let_def)
  with attempts_share_output [OF p] have "out' = fold (decode_into stale_env) [0, 1] empty_DeltaResponse"
    by (simp add: numeral_2_eq_2)
  then have "dr_QuoteID out' = ''first'' \<and> dr_PremiumCents out' = 12500"
    by (simp add: decode_into_def stale_env_def doOnce_def)
  with p \<open>res = None\<close> show ?thesis by simp
qed

text \<open>
  A quote accepted from Delta carries the carrier ID \<^verbatim>\<open>delta\<close>, Delta's own reference and
  premium, and never arrives expired, whatever validity Delta reports.
\<close>
theorem delta_quote_not_expired:
  assumes "RegisterDeltaCarrier h env req = Inr r"
  shows "r_CarrierID r = ''delta'' \<and> de_now env < r_ExpiresAt r
    \<and> (\<exists>resp. Delta_Call h env \<lparr>dq_RequestID = q_RequestID req, dq_Lines = q_CoverageLines req\<rparr> = Inr resp
        \<and> r_CarrierRef r = dr_QuoteID resp \<and> m_Amount (r_Premium r) = dr_PremiumCents resp)"
  using assms
  by (auto simp: RegisterDeltaCarrier_def Register_def deltaAdapter_def Let_def Minute_def
      split: sum.splits if_splits)

theorem delta_quote_not_expired_witness:
  "\<exists>r. RegisterDeltaCarrier (NewDeltaCarrier demo_http_cfg)
     \<lparr>de_marshal = (\<lambda>q. Inr ''{}''), de_attempts = (\<lambda>i. \<lparr>at_ctx = None, at_net = Response 200 ''{}''
        (\<lambda>b x. (None, \<lparr>dr_QuoteID = ''Q7'', dr_PremiumCents = 12500, dr_ValidForSeconds = - 1\<rparr>))\<rparr>), de_now = 50\<rparr>
     \<lparr>q_RequestID = ''r1'', q_ClientID = '''', q_CoverageLines = [''auto''], q_Timeout = 0\<rparr> = Inr r
     \<and> 50 < r_ExpiresAt r"
proof -
  let ?env = "\<lparr>de_marshal = (\<lambda>q. Inr ''{}''), de_attempts = (\<lambda>i. \<lparr>at_ctx = None, at_net = Response 200 ''{}''
        (\<lambda>b x. (None, \<lparr>dr_QuoteID = ''Q7'', dr_PremiumCents = 12500, dr_ValidForSeconds = - 1\<rparr>))\<rparr>), de_now = 50\<rparr>"
  let ?h = "NewDeltaCarrier demo_http_cfg"
  let ?req = "\<lparr>q_RequestID = ''r1'', q_ClientID = '''', q_CoverageLines = [''auto''], q_Timeout = 0\<rparr>"
  have "nat (hc_MaxRetries (hp_cfg ?h) + 1) = Suc (Suc (Suc (Suc 0)))"
    by (simp add: NewDeltaCarrier_def NewHTTPCarrier_def withDefaults_def demo_http_cfg_def)
  then have "Delta_Call ?h ?env q = Inr \<lparr>dr_QuoteID = ''Q7'', dr_PremiumCents = 12500, dr_ValidForSeconds = - 1\<rparr>"
    for q by (simp add: Delta_Call_def Post_def doOnce_def Let_def)
  then have "\<exists>r. RegisterDeltaCarrier ?h ?env ?req = Inr r"
    by (simp add: RegisterDeltaCarrier_def Register_def deltaAdapter_def Let_def)
  then show ?thesis using delta_quote_not_expired [of ?h ?env ?req] by auto
qed

end
