(* ===== verification/Wiring.thy ===== *)
theory Wiring
  imports Handler Cleanup Http_Carrier
begin

text \<open>
  \<^verbatim>\<open>cmd/carrier-gateway/main.go\<close>: the carriers and their tuning, the registry, the per-carrier
  infrastructure, the optional repository, the API keys, the limits and the chain of
  middleware; the running process is theory \<open>Lifecycle\<close>. Environment variables are arguments. An adapter's environment is a pair:
  what a mock call and what a Delta call depends on.
\<close>

section \<open>Configuration\<close>

definition minAPIKeyLength :: nat where "minAPIKeyLength = 32"

text \<open>\<open>Inl\<close> is the exit code when a key is too short.\<close>
fun parse_keys :: "string list \<Rightarrow> string list \<Rightarrow> int + string list" where
  "parse_keys [] keys = Inr keys"
| "parse_keys (k # ks) keys =
     (let k = TrimSpace k
      in if k = '''' then parse_keys ks keys
         else if length k < minAPIKeyLength then Inl 1
         else parse_keys ks (keys @ [k]))"

definition parseAPIKeys :: "string \<Rightarrow> int + string list" where
  "parseAPIKeys raw = parse_keys (Split raw (CHR '','')) []"

definition tuned :: "duration \<Rightarrow> int \<Rightarrow> rat \<Rightarrow> int \<Rightarrow> CarrierConfig" where
  "tuned hint prio rate burst =
     \<lparr>cc_TimeoutHint = hint, cc_OpenTimeout = 30 * Second, cc_FailureThreshold = 5, cc_SuccessThreshold = 2,
      cc_HedgeMultiplier = Fin (3 / 2), cc_EMAAlpha = to_float64 (1 / 10), cc_EMAWindowSize = 19,
      cc_EMAWarmupObservations = 10, cc_RateLimit = \<lparr>rl_TokensPerSecond = Fin rate, rl_Burst = burst\<rparr>,
      cc_Priority = prio\<rparr>"

definition buildCarriers :: "Carrier list" where
  "buildCarriers =
     [\<lparr>c_ID = ''alpha'', c_Name = ''Alpha Insurance'', c_Capabilities = [CoverageLineAuto, CoverageLineHomeowners],
       c_Config = tuned (100 * Millisecond) 1 100 10\<rparr>,
      \<lparr>c_ID = ''beta'', c_Name = ''Beta Insurance'', c_Capabilities = [CoverageLineAuto, CoverageLineUmbrella],
       c_Config = tuned (400 * Millisecond) 2 50 5\<rparr>,
      \<lparr>c_ID = ''gamma'', c_Name = ''Gamma Insurance'',
       c_Capabilities = [CoverageLineAuto, CoverageLineHomeowners, CoverageLineUmbrella],
       c_Config = tuned (1600 * Millisecond) 3 20 2\<rparr>]"

definition delta_carrier :: Carrier where
  "delta_carrier = \<lparr>c_ID = ''delta'', c_Name = ''Delta Insurance'',
     c_Capabilities = [CoverageLineAuto, CoverageLineHomeowners], c_Config = tuned (300 * Millisecond) 4 50 5\<rparr>"

definition main_carriers :: "string \<Rightarrow> Carrier list" where
  "main_carriers baseURL = buildCarriers @ (if baseURL \<noteq> '''' then [delta_carrier] else [])"

definition delta_config :: "string \<Rightarrow> string \<Rightarrow> HTTPCarrierConfig" where
  "delta_config baseURL apiKey = \<lparr>hc_BaseURL = baseURL, hc_APIKey = apiKey, hc_MaxRetries = 3,
     hc_RetryDelay = 100 * Millisecond, hc_Timeout = 2 * Second\<rparr>"

type_synonym main_env = "mock_env \<times> delta_env"

definition mock_adapter :: "MockCarrier \<Rightarrow> main_env AdapterFunc" where
  "mock_adapter m env = RegisterMockCarrier m (fst env)"

definition delta_adapter :: "string \<Rightarrow> string \<Rightarrow> main_env AdapterFunc" where
  "delta_adapter baseURL apiKey env = RegisterDeltaCarrier (NewDeltaCarrier (delta_config baseURL apiKey)) (snd env)"

definition main_registry :: "string \<Rightarrow> string \<Rightarrow> main_env Registry" where
  "main_registry baseURL apiKey =
     (let reg = Registry_Register ''gamma'' (mock_adapter NewGamma)
                  (Registry_Register ''beta'' (mock_adapter NewBeta)
                    (Registry_Register ''alpha'' (mock_adapter NewAlpha) NewRegistry))
      in if baseURL \<noteq> '''' then Registry_Register ''delta'' (delta_adapter baseURL apiKey) reg else reg)"

text \<open>One round of the loop that builds breaker, limiter and tracker.\<close>
definition wire_carrier :: "(float64 \<Rightarrow> int \<Rightarrow> 'l) \<Rightarrow> Carrier \<Rightarrow> 'l world \<Rightarrow> 'l world" where
  "wire_carrier NewLimiter c w =
     (let cfg = c_Config c;
          (b, evs) = New_Breaker (c_ID c) \<lparr>cb_FailureThreshold = cc_FailureThreshold cfg,
                       cb_SuccessThreshold = cc_SuccessThreshold cfg, cb_OpenTimeout = cc_OpenTimeout cfg\<rparr>
      in emit evs
           (set_tracker (c_ID c) (NewEMATracker (c_ID c) (cc_TimeoutHint cfg) cfg)
             (set_limiter (c_ID c) (New_Limiter NewLimiter (c_ID c) (cc_RateLimit cfg))
               (set_breaker (c_ID c) b w))))"

definition empty_world :: "'l world" where
  "empty_world = \<lparr>w_breakers = Map.empty, w_limiters = Map.empty, w_trackers = Map.empty, w_trace = []\<rparr>"

definition main_world :: "(float64 \<Rightarrow> int \<Rightarrow> 'l) \<Rightarrow> string \<Rightarrow> 'l world" where
  "main_world NewLimiter baseURL = fold (wire_carrier NewLimiter) (main_carriers baseURL) empty_world"

text \<open>The repository and whether a database handle is kept: a failed migration keeps only the latter.\<close>
definition main_repo :: "string \<Rightarrow> go_error option \<Rightarrow> go_error option \<Rightarrow> go_error option \<Rightarrow> table option
    \<Rightarrow> table option \<times> bool" where
  "main_repo dsn open_err ping_err migrate_err server =
     (if dsn = '''' then (None, False)
      else case Open open_err ping_err of
             Some err \<Rightarrow> (None, False)
           | None \<Rightarrow>
               (case Migrate migrate_err server of
                  (Some err, db) \<Rightarrow> (None, True)
                | (None, db) \<Rightarrow> (db, True)))"

definition main_orch :: "(float64 \<Rightarrow> int \<Rightarrow> 'l) \<Rightarrow> string \<Rightarrow> string \<Rightarrow> table option \<Rightarrow> ('l, main_env) Orchestrator" where
  "main_orch NewLimiter baseURL apiKey repo =
     New_Orchestrator (main_carriers baseURL) (main_registry baseURL apiKey) (main_world NewLimiter baseURL)
       \<lparr>oc_HedgePollInterval = 5 * Millisecond\<rparr> repo"

definition defaultCleanupInterval :: duration where "defaultCleanupInterval = 5 * Minute"

text \<open>\<open>ParseDuration\<close> is \<^verbatim>\<open>time.ParseDuration\<close>; an unparsable value is ignored.\<close>
definition cleanup_interval :: "(string \<Rightarrow> duration option) \<Rightarrow> string \<Rightarrow> duration" where
  "cleanup_interval ParseDuration raw =
     (if raw = '''' then defaultCleanupInterval
      else case ParseDuration raw of None \<Rightarrow> defaultCleanupInterval | Some d \<Rightarrow> d)"

section \<open>Limits and the chain\<close>

definition is_digit :: "char \<Rightarrow> bool" where
  "is_digit c \<longleftrightarrow> 48 \<le> byte c \<and> byte c \<le> 57"

text \<open>\<^verbatim>\<open>strconv.Atoi\<close>: an optional sign, at least one digit, and a value that fits.\<close>
definition Atoi :: "string \<Rightarrow> int option" where
  "Atoi s =
     (let digits = (if s \<noteq> '''' \<and> hd s \<in> {CHR ''+'', CHR ''-''} then tl s else s);
          v = foldl (\<lambda>n c. 10 * n + int (byte c - 48)) 0 digits;
          v = (if s \<noteq> '''' \<and> hd s = CHR ''-'' then - v else v)
      in if digits = '''' \<or> \<not> list_all is_digit digits \<or> \<not> in_int64 v then None else Some v)"

definition defaultMaxConcurrent :: int where "defaultMaxConcurrent = 100"

definition max_concurrent :: "string \<Rightarrow> int" where
  "max_concurrent raw =
     (if raw = '''' then defaultMaxConcurrent
      else case Atoi raw of Some n \<Rightarrow> if 0 < n then n else defaultMaxConcurrent | None \<Rightarrow> defaultMaxConcurrent)"

definition skipAuth :: "string list" where
  "skipAuth = [''/healthz'', ''/metrics'', ''/readyz'']"

text \<open>\<open>held\<close> is the number of requests inside the concurrency limit when the request arrives.\<close>
definition finalHandler :: "'b rate_lib \<Rightarrow> instant \<Rightarrow> instant \<Rightarrow> nat \<Rightarrow> int \<Rightarrow> string list \<Rightarrow> 's handler
    \<Rightarrow> ('b authFailureLimiter \<times> 's) handler" where
  "finalHandler L now0 now1 held maxConcurrent apiKeys mux =
     AuditLog (SecurityHeaders (RequireAPIKey L now0 now1
       (LimitConcurrency (nat maxConcurrent) held mux) apiKeys skipAuth))"

definition exitCodeSuccess :: int where "exitCodeSuccess = 0"
definition exitCodeDrainTimeout :: int where "exitCodeDrainTimeout = 1"

section \<open>The started gateway\<close>

lemma wire_carrier_maps:
  "w_breakers (wire_carrier NL c w) = (w_breakers w)(c_ID c \<mapsto> fst (New_Breaker (c_ID c)
     \<lparr>cb_FailureThreshold = cc_FailureThreshold (c_Config c), cb_SuccessThreshold = cc_SuccessThreshold (c_Config c),
      cb_OpenTimeout = cc_OpenTimeout (c_Config c)\<rparr>))"
  "w_limiters (wire_carrier NL c w) = (w_limiters w)(c_ID c \<mapsto> New_Limiter NL (c_ID c) (cc_RateLimit (c_Config c)))"
  "w_trackers (wire_carrier NL c w)
     = (w_trackers w)(c_ID c \<mapsto> NewEMATracker (c_ID c) (cc_TimeoutHint (c_Config c)) (c_Config c))"
  by (simp_all add: wire_carrier_def Let_def split_beta)

lemma wire_all_doms:
  "set (map c_ID cs) \<union> dom (w_breakers w) = dom (w_breakers (fold (wire_carrier NL) cs w))"
  "set (map c_ID cs) \<union> dom (w_limiters w) = dom (w_limiters (fold (wire_carrier NL) cs w))"
  "set (map c_ID cs) \<union> dom (w_trackers w) = dom (w_trackers (fold (wire_carrier NL) cs w))"
proof (induction cs arbitrary: w)
  case (Cons c cs)
  { case 1 show ?case using Cons.IH(1) [of "wire_carrier NL c w"] by (auto simp: wire_carrier_maps) }
  { case 2 show ?case using Cons.IH(2) [of "wire_carrier NL c w"] by (auto simp: wire_carrier_maps) }
  { case 3 show ?case using Cons.IH(3) [of "wire_carrier NL c w"] by (auto simp: wire_carrier_maps) }
qed simp_all

lemma main_wired: "all_wired (main_carriers baseURL) (main_world NL baseURL)"
proof -
  have "\<forall>i \<in> set (map c_ID (main_carriers baseURL)). w_breakers (main_world NL baseURL) i \<noteq> None
      \<and> w_limiters (main_world NL baseURL) i \<noteq> None \<and> w_trackers (main_world NL baseURL) i \<noteq> None"
    unfolding main_world_def using wire_all_doms [of "main_carriers baseURL" empty_world NL] by blast
  then show ?thesis by (auto simp: all_wired_def list_all_iff)
qed

lemma main_orch_simps [simp]:
  "o_carriers (main_orch NL baseURL apiKey repo) = main_carriers baseURL"
  "o_registry (main_orch NL baseURL apiKey repo) = main_registry baseURL apiKey"
  "o_world (main_orch NL baseURL apiKey repo) = main_world NL baseURL"
  "o_repo (main_orch NL baseURL apiKey repo) = repo"
  by (simp_all add: main_orch_def New_Orchestrator_def Let_def)

text \<open>Every adapter answers under the ID it is registered with.\<close>
definition honest :: "'env Registry \<Rightarrow> bool" where
  "honest reg \<longleftrightarrow> (\<forall>i fn env req r. Get reg i = Some fn \<longrightarrow> fn env req = Inr r \<longrightarrow> r_CarrierID r = i)"

lemma mock_adapter_id: "mock_adapter m env req = Inr r \<Longrightarrow> r_CarrierID r = mk_id m"
  by (auto simp: mock_adapter_def RegisterMockCarrier_def Register_def mockAdapter_def split: sum.splits)

lemma delta_adapter_id: "delta_adapter u k env req = Inr r \<Longrightarrow> r_CarrierID r = ''delta''"
  by (auto simp: delta_adapter_def RegisterDeltaCarrier_def Register_def deltaAdapter_def Let_def split: sum.splits)

lemma main_registry_Get:
  "Get (main_registry baseURL apiKey) i =
     (if i = ''delta'' \<and> baseURL \<noteq> '''' then Some (delta_adapter baseURL apiKey)
      else if i = ''gamma'' then Some (mock_adapter NewGamma) else if i = ''beta'' then Some (mock_adapter NewBeta)
      else if i = ''alpha'' then Some (mock_adapter NewAlpha) else None)"
  by (auto simp: main_registry_def Let_def registry.lookup_register registry.lookup_empty)

lemma main_honest: "honest (main_registry baseURL apiKey)"
  unfolding honest_def main_registry_Get
  by (auto split: if_splits dest!: mock_adapter_id delta_adapter_id
      simp: NewAlpha_def NewBeta_def NewGamma_def NewMockCarrier_def)

text \<open>
  A quote names a configured carrier that offers one of the requested coverage lines and whose
  breaker was not open when the fan-out looked at it.
\<close>
definition asked :: "('l, 'env, 'ctx) call_env \<Rightarrow> QuoteRequest \<Rightarrow> ('l, 'env) Orchestrator \<Rightarrow> QuoteResult \<Rightarrow> bool" where
  "asked E req s r \<longleftrightarrow> (\<exists>c \<in> set (o_carriers s). c_ID c = r_CarrierID r
     \<and> set (c_Capabilities c) \<inter> set (q_CoverageLines req) \<noteq> {}
     \<and> \<not> breaker_open (seen_by (v_filter (ce_gaps E)) (o_world s) (c_ID c)) (c_ID c))"

text \<open>With honest adapters, every quote of a fan-out names a carrier that was eligible.\<close>
lemma fanOut_eligible:
  assumes ok: "orch_ok s" and run: "fanOut E cancel req s = Some (Returned (Inr rs), s')" and reg: "honest (o_registry s)"
  shows "list_all (asked E req s) rs"
proof -
  have "set (map r_CarrierID rs) \<subseteq> set (map c_ID (eligible_for E req s))" using ok run
  proof (cases rule: fanOut_cases)
    case nobody
    then show ?thesis by simp
  next
    case (ran C f)
    note inv = run_inv(1) [OF ok ran(1,2)]
    have col: "f_collected f = fold collect (f_sent f) []" and
      prod: "list_all (\<lambda>r. \<exists>i \<in> ids C. \<exists>hedged. produced C i hedged r) (f_sent f)"
      using inv ran(3) by (auto simp: fan_inv_def data_inv_def finished_def)
    have "set rs = set (f_collected f)" using ran(4) sort_quotes_facts(1) by (metis mset_eq_setD outcome.inject sum.inject(2))
    then have "set rs \<subseteq> set (f_sent f)" using collect_subset [of "f_sent f" "[]"] by (simp add: col)
    moreover have "r_CarrierID r = i" if "produced C i hedged r" for r i hedged
      using that reg by (auto simp: produced_def honest_def ran(1) fan_cfg_of_def split: if_splits)
    ultimately have "\<forall>r \<in> set rs. r_CarrierID r \<in> ids C" using prod by (fastforce simp: list_all_iff)
    then show ?thesis by (auto simp: ids_def ran(1) fan_cfg_of_def eligible_for_def)
  qed
  then show ?thesis
    unfolding list_all_iff asked_def eligible_for_def filterEligibleCarriers_def list_ex_iff by fastforce
qed

section \<open>Carriers in the cache\<close>

text \<open>
  The orchestrator with its carriers, an honest registry and a table whose rows name carriers
  that are configured; a store operation that keeps it so.
\<close>
definition stocked :: "Carrier list \<Rightarrow> ('l, 'env) Orchestrator \<Rightarrow> bool" where
  "stocked cs s \<longleftrightarrow> orch_ok s \<and> o_carriers s = cs \<and> honest (o_registry s)
     \<and> (case o_repo s of None \<Rightarrow> True | Some t \<Rightarrow> list_all (\<lambda>row. rw_carrier_id row \<in> c_ID ` set cs) t)"

definition stocks :: "Carrier list \<Rightarrow> store_op \<Rightarrow> bool" where
  "stocks cs a = (case a of Inl (k, rs) \<Rightarrow> list_all (\<lambda>r. r_CarrierID r \<in> c_ID ` set cs) rs | Inr past \<Rightarrow> True)"

lemma asked_configured: "list_all (asked E req s) rs \<Longrightarrow> list_all (\<lambda>r. r_CarrierID r \<in> c_ID ` set (o_carriers s)) rs"
  by (force simp: list_all_iff asked_def)

lemma table_save_stocked:
  "list_all (\<lambda>r. r_CarrierID r \<in> I) rs \<Longrightarrow> list_all (\<lambda>row. rw_carrier_id row \<in> I) t
    \<Longrightarrow> list_all (\<lambda>row. rw_carrier_id row \<in> I) (table_save ts k rs t)"
  unfolding table_save_def by (induction rs arbitrary: t) (simp_all add: insert_row_def)

lemma meanwhile_stocked:
  assumes "list_all (stocks cs) (ce_meanwhile E)" "list_all (\<lambda>row. rw_carrier_id row \<in> c_ID ` set cs) t"
  shows "list_all (\<lambda>row. rw_carrier_id row \<in> c_ID ` set cs) (meanwhile E t)"
proof -
  have "list_all (\<lambda>row. rw_carrier_id row \<in> c_ID ` set cs) (fold (pg.run_op ts) ops t)"
    if "list_all (stocks cs) ops" "list_all (\<lambda>row. rw_carrier_id row \<in> c_ID ` set cs) t" for ts ops t
    using that
  proof (induction ops arbitrary: t)
    case (Cons a ops)
    have "list_all (\<lambda>row. rw_carrier_id row \<in> c_ID ` set cs) (pg.run_op ts a t)"
    proof (cases a)
      case (Inl kr)
      obtain k rs where kr: "kr = (k, rs)" by (cases kr)
      have "list_all (\<lambda>r. r_CarrierID r \<in> c_ID ` set cs) rs" using Cons.prems(1) by (simp add: stocks_def Inl kr)
      from table_save_stocked [OF this Cons.prems(2)] show ?thesis by (simp add: Inl kr)
    next
      case (Inr past)
      with Cons.prems(2) show ?thesis by (simp add: purge_rows_def list_all_iff)
    qed
    with Cons.IH Cons.prems(1) show ?case by simp
  qed simp
  with assms show ?thesis by (simp add: meanwhile_def)
qed

lemma fanOut_stocked:
  assumes s: "stocked cs s" and run: "fanOut E cancel req s = Some (Returned (Inr rs), s')"
    and mw: "list_all (stocks cs) (ce_meanwhile E)"
  shows "stocked cs s' \<and> list_all (asked E req s) rs"
proof -
  have ok: "orch_ok s" "honest (o_registry s)" "o_carriers s = cs" using s by (simp_all add: stocked_def)
  have asked: "list_all (asked E req s) rs" by (rule fanOut_eligible [OF ok(1) run ok(2)])
  then have named: "list_all (\<lambda>r. r_CarrierID r \<in> c_ID ` set cs) rs" using asked_configured ok(3) by blast
  note res = fanOut_result [OF ok(1) run]
  have "stocked cs s'"
  proof (cases "o_repo s")
    case None
    with res ok show ?thesis by (auto simp: stocked_def save_quotes_def)
  next
    case (Some t)
    have t: "list_all (\<lambda>row. rw_carrier_id row \<in> c_ID ` set cs) t" using s Some by (simp add: stocked_def)
    let ?m = "meanwhile E t"
    have m: "list_all (\<lambda>row. rw_carrier_id row \<in> c_ID ` set cs) ?m" by (rule meanwhile_stocked [OF mw t])
    obtain err t' where sv: "Save (ce_save E) (ce_ts E) (scopedKey req) rs ?m = (err, t')"
      by (cases "Save (ce_save E) (ce_ts E) (scopedKey req) rs ?m")
    have "list_all (\<lambda>row. rw_carrier_id row \<in> c_ID ` set cs) t'"
      using Save_cases(1) [OF sv] m table_save_stocked [OF named m] by metis
    with res Some ok t m sv show ?thesis by (auto simp: stocked_def save_quotes_def split: if_splits)
  qed
  with asked show ?thesis by simp
qed

section \<open>Keys\<close>

lemma parse_keys_Inr:
  "parse_keys ps keys = Inr out \<Longrightarrow> out = keys @ filter (\<lambda>k. k \<noteq> '''') (map TrimSpace ps)
    \<and> list_all (\<lambda>k. k = '''' \<or> 32 \<le> length k) (map TrimSpace ps)"
proof (induction ps arbitrary: keys)
  case (Cons p ps)
  from Cons.prems Cons.IH [of keys] Cons.IH [of "keys @ [TrimSpace p]"] show ?case
    by (auto simp: Let_def minAPIKeyLength_def split: if_splits)
qed simp

lemma parse_keys_Inl:
  "parse_keys ps keys = Inl code \<Longrightarrow> code = 1 \<and> \<not> list_all (\<lambda>k. k = '''' \<or> 32 \<le> length k) (map TrimSpace ps)"
  by (induction ps arbitrary: keys) (auto simp: Let_def minAPIKeyLength_def split: if_splits)

lemma keyID_length: "32 \<le> length k \<Longrightarrow> length (keyID k) = 11"
  by (simp add: keyID_def)

section \<open>The chain\<close>

text \<open>
  A handler that does not disturb the outer layers: it sends a status line, reports every
  status it sends to the recorder, keeps headers it does not know, and writes no audit line.
\<close>
definition keeps_headers :: "(string \<rightharpoonup> string) \<Rightarrow> (string \<rightharpoonup> string) \<Rightarrow> bool" where
  "keeps_headers h h' \<longleftrightarrow> (\<forall>(k, v) \<in> set security_headers. h k = Some v \<longrightarrow> h' k = Some v)"

lemma keeps_headers_set:
  assumes "k \<notin> fst ` set security_headers"
  shows "keeps_headers h (h(k \<mapsto> v))"
  using assms by (force simp: keeps_headers_def)

lemma known_headers: "''Content-Type'' \<notin> fst ` set security_headers" "''Retry-After'' \<notin> fst ` set security_headers"
  by (simp_all add: security_headers_def)

lemma keeps_headers_refl [simp]: "keeps_headers h h"
  by (auto simp: keeps_headers_def)

lemma keeps_headers_trans: "keeps_headers a b \<Longrightarrow> keeps_headers b c \<Longrightarrow> keeps_headers a c"
  by (force simp: keeps_headers_def)

lemma keeps_json [simp]:
  "keeps_headers h (h(''Content-Type'' \<mapsto> v))" "keeps_headers h (h(''Content-Type'' \<mapsto> v, ''Retry-After'' \<mapsto> u))"
  using keeps_headers_set [OF known_headers(1)] keeps_headers_set [OF known_headers(2)] keeps_headers_trans by blast+

text \<open>The shape of a response, as the outer layers see it.\<close>
definition good_response :: "writer \<Rightarrow> writer \<Rightarrow> bool" where
  "good_response w w' \<longleftrightarrow> (\<exists>code hs. wr_sent w' = Some (code, hs) \<and> wr_recorder w' = Some code
     \<and> keeps_headers (wr_header w) hs
     \<and> (\<exists>ls. wr_log w' = wr_log w @ ls \<and> list_all (\<lambda>e. \<nexists>m p c i. e = Audit m p c i) ls))"

definition well_behaved :: "'s handler \<Rightarrow> bool" where
  "well_behaved h \<longleftrightarrow> (\<forall>r w s w' s'. h r w s = Some (Returned w', s') \<longrightarrow> wr_sent w = None
     \<longrightarrow> wr_recorder w = Some 200 \<longrightarrow> good_response w w')"

lemma well_behavedI:
  assumes "\<And>r w s w' s'. h r w s = Some (Returned w', s') \<Longrightarrow> wr_sent w = None \<Longrightarrow> wr_recorder w = Some 200
    \<Longrightarrow> good_response w w'"
  shows "well_behaved h"
  unfolding well_behaved_def using assms by blast

lemma well_behavedD:
  assumes "well_behaved h" "h r w s = Some (Returned w', s')" "wr_sent w = None" "wr_recorder w = Some 200"
  shows "good_response w w'"
  using assms unfolding well_behaved_def by blast

lemma fresh_json [simp]:
  assumes "wr_sent w = None" "wr_recorder w = Some 200"
  shows "good_response w (write_body b (WriteHeader c (set_header ''Content-Type'' v w)))"
    "good_response w (write_body b (WriteHeader c w))"
    "good_response w (writeErrorBody c m w)" "good_response w (writeError c i k m w)"
    "good_response w (handleOrchError i err w)" "good_response w (writeUnauthorized w)"
    "good_response w (writeTooManyRequests w)" "good_response w (reject_full w)"
  using assms
  by (simp_all add: good_response_def writeErrorBody_def writeError_def handleOrchError_def writeUnauthorized_def
      writeTooManyRequests_def reject_full_def)

lemma post_well_behaved: "well_behaved (handlePostQuotes decode quoted elapsed get)"
  by (rule well_behavedI)
     (auto simp: handlePostQuotes_def Let_def split: decoded.splits option.splits prod.splits outcome.splits
       sum.splits if_splits)

lemma small_well_behaved: "well_behaved (handleReadyz ping)" "well_behaved handleHealthz"
  by (rule well_behavedI, auto simp: handleReadyz_def handleHealthz_def split: option.splits)+

lemma routes_well_behaved:
  assumes "well_behaved post" "well_behaved metrics" "well_behaved readyz" "well_behaved fallback"
  shows "well_behaved (RegisterRoutes post metrics readyz fallback)"
proof (rule well_behavedI)
  fix r w s w' s'
  assume "RegisterRoutes post metrics readyz fallback r w s = Some (Returned w', s')" "wr_sent w = None" "wr_recorder w = Some 200"
  then show "good_response w w'" using assms [THEN well_behavedD] small_well_behaved(2) [THEN well_behavedD]
    unfolding RegisterRoutes_def by (auto split: if_splits)
qed

lemma limit_well_behaved: "well_behaved h \<Longrightarrow> well_behaved (LimitConcurrency cap held h)"
  by (rule well_behavedI) (auto simp: LimitConcurrency_def split: if_splits dest: well_behavedD)

lemma auth_well_behaved:
  assumes "well_behaved h"
  shows "well_behaved (RequireAPIKey L now0 now1 h keys skip)"
proof (rule well_behavedI)
  fix r w ls w' ls'
  assume run: "RequireAPIKey L now0 now1 h keys skip r w ls = Some (Returned w', ls')"
    and w: "wr_sent w = None" "wr_recorder w = Some 200"
  obtain l s where ls: "ls = (l, s)" by (cases ls)
  show "good_response w w'"
  proof (cases "rq_path r \<in> set skip")
    case True
    with run ls w well_behavedD [OF assms] show ?thesis by (auto simp: RequireAPIKey_def)
  next
    case False
    obtain ok l' where "check_budget L now0 (client_ip r) l = (ok, l')" by (cases "check_budget L now0 (client_ip r) l")
    with run ls w well_behavedD [OF assms] show ?thesis
      by (cases ok) (auto simp: RequireAPIKey_spec [OF False] split: option.splits)
  qed
qed

lemma security_set: "map_of security_headers k = Some v \<Longrightarrow>
    wr_header (fold (\<lambda>(k, v). set_header k v) security_headers w) k = Some v"
  by (auto simp: security_headers_def split: if_splits)

section \<open>Properties\<close>

text \<open>
  C37: the gateway starts in a usable state. Whatever the environment variables, every
  configured carrier has a breaker in its initial, well-formed state, a limiter, a tracker and
  an adapter, no two carriers share an ID, every adapter answers under its own ID, and the
  orchestrator satisfies the precondition of its contract.
\<close>
theorem gateway_starts_usable:
  assumes "repo_ok repo"
  shows "usable_orch (main_orch NL baseURL apiKey repo)
    \<and> distinct (map c_ID (main_carriers baseURL))
    \<and> list_all (\<lambda>c. Get (main_registry baseURL apiKey) (c_ID c) \<noteq> None
         \<and> (\<exists>b. w_breakers (main_world NL baseURL) (c_ID c) = Some b \<and> cb_wf b \<and> cb_abs b = SClosed 0))
       (main_carriers baseURL)
    \<and> honest (main_registry baseURL apiKey)"
proof -
  have b: "cb_wf (fst (New_Breaker i \<lparr>cb_FailureThreshold = 5, cb_SuccessThreshold = 2, cb_OpenTimeout = 30 * Second\<rparr>))
      \<and> cb_abs (fst (New_Breaker i \<lparr>cb_FailureThreshold = 5, cb_SuccessThreshold = 2, cb_OpenTimeout = 30 * Second\<rparr>)) = SClosed 0" for i
    by (simp add: New_Breaker_def Let_def cb_wf_def cfg_ok_def cb_abs_def breaker_states Second_def int64_max_def)
  have "usable_orch (main_orch NL baseURL apiKey repo)"
    using assms main_wired by (simp add: usable_orch_def orch_ok_def)
  moreover have "distinct (map c_ID (main_carriers baseURL))"
    by (simp add: main_carriers_def buildCarriers_def delta_carrier_def)
  moreover have "list_all (\<lambda>c. Get (main_registry baseURL apiKey) (c_ID c) \<noteq> None
      \<and> (\<exists>b. w_breakers (main_world NL baseURL) (c_ID c) = Some b \<and> cb_wf b \<and> cb_abs b = SClosed 0)) (main_carriers baseURL)"
    by (simp add: main_carriers_def main_world_def buildCarriers_def delta_carrier_def main_registry_Get
        wire_carrier_maps tuned_def b)
  ultimately show ?thesis using main_honest by blast
qed

theorem gateway_starts_usable_witness:
  "usable_orch (main_orch (\<lambda>r b. ()) ''https://delta'' ''key'' (Some []))"
  using gateway_starts_usable [of "Some []" "\<lambda>r b. ()" "''https://delta''" "''key''"]
  by (simp add: repo_ok_def table_ok_def)

text \<open>
  C36: quotes name configured carriers, and the quotes of a fan-out come from carriers that were
  asked. With an honest registry (the started gateway's is) and a table whose rows name
  configured carriers, every quote \<^verbatim>\<open>GetQuotes\<close> returns names a configured carrier; either they
  are the quotes cached under the request's key, or they are those of one fan-out, its own or
  that of a call in flight under the same key, and each names a carrier that offers one of the
  coverage lines that fan-out's request asked for and whose breaker was not open when the
  fan-out looked at it. The call leaves the table naming configured carriers, provided the saves
  of concurrent calls do.
\<close>
theorem quotes_from_configured_carriers:
  assumes "stocked cs s" "list_all (\<lambda>(E0, req0, s0). stocked cs s0) calls" "sf_law Do (in_flight calls)"
    and "list_all (\<lambda>(E0, req0, s0). list_all (stocks cs) (ce_meanwhile E0)) ((E, req, s) # calls)"
    and "\<And>t. mset (ce_scan E t) = mset t"
    and "GetQuotes Do E req s = Some (Returned (Inr rs), s')"
  shows "stocked cs s' \<and> list_all (\<lambda>r. r_CarrierID r \<in> c_ID ` set cs) rs
    \<and> (cache_lookup E req (o_repo s) = Some rs
       \<or> (\<exists>(E0, req0, s0) \<in> set ((E, req, s) # calls). scopedKey req0 = scopedKey req \<and> list_all (asked E0 req0 s0) rs))"
  using assms(3,6)
proof (cases rule: GetQuotes_cases)
  case (hit cached)
  then obtain t where t: "o_repo s = Some t" by (auto simp: cache_lookup_def split: option.splits)
  have "set rs = set (table_contents (ce_now E) (scopedKey req) t)"
    using cache_lookup_contents [OF hit(1) t assms(5)] hit(2) by (metis mset_eq_setD outcome.inject sum.inject(2))
  then have "list_all (\<lambda>r. r_CarrierID r \<in> c_ID ` set cs) rs"
    using assms(1) t by (auto simp: stocked_def table_contents_def live_rows_def list_all_iff)
  with hit assms(1) show ?thesis by simp
next
  case (own cancel)
  from fanOut_stocked [OF assms(1) own(2)] assms(1,4) asked_configured [of E req s rs] show ?thesis
    by (auto simp: stocked_def)
next
  case (other E0 req0 s0 s1)
  have "stocked cs s0" "list_all (stocks cs) (ce_meanwhile E0)" using assms(2,4) other(1) by (auto simp: list_all_iff)
  with fanOut_stocked [OF _ other(6)] have "list_all (asked E0 req0 s0) rs" "o_carriers s0 = cs"
    by (auto simp: stocked_def)
  with asked_configured [of E0 req0 s0 rs] other assms(1) show ?thesis by auto
qed

lemma demo_honest: "honest demo_registry"
  by (auto simp: honest_def demo_registry_def registry.lookup_register registry.lookup_empty RegisterMockCarrier_def
      Register_def mockAdapter_def NewAlpha_def NewGamma_def NewMockCarrier_def split: sum.splits if_splits)

theorem quotes_from_configured_carriers_witness:
  "\<exists>rs s'. GetQuotes (share_do []) demo_env demo_request demo_orch = Some (Returned (Inr rs), s') \<and> length rs = 2
     \<and> stocked demo_carriers s' \<and> list_all (asked demo_env demo_request demo_orch) rs"
proof -
  obtain s' where get: "GetQuotes (share_do []) demo_env demo_request demo_orch
    = Some (Returned (Inr [demo_quote ''gamma'' 50200, demo_quote ''alpha'' 50300]), s')" by (rule demo_get)
  have s: "stocked demo_carriers demo_orch" using demo_honest demo_usable(2) by (simp add: stocked_def)
  have sf: "sf_law (share_do []) (in_flight ([] :: (unit, mock_env, unit) call list))"
    using demo_fit_alone by (simp add: fit_env_def)
  have scan: "\<And>t. mset (ce_scan demo_env t) = mset t" by (simp add: demo_env_def)
  from quotes_from_configured_carriers [OF s _ sf _ scan get] get show ?thesis by (auto simp: demo_miss)
qed

text \<open>
  C38: parsing the keys. The parsed keys are exactly the non-empty trimmed fields of the
  comma-separated list, each at least 32 bytes long and without surrounding white space added
  (so every client identifier has the same length, 11); the program exits with code 1 if and
  only if some non-empty field is shorter.
\<close>
theorem parseAPIKeys_exact:
  "case parseAPIKeys raw of
     Inr keys \<Rightarrow> keys = filter (\<lambda>k. k \<noteq> '''') (map TrimSpace (Split raw (CHR '','')))
       \<and> list_all (\<lambda>k. 32 \<le> length k \<and> length (keyID k) = 11) keys
   | Inl code \<Rightarrow> code = 1 \<and> list_ex (\<lambda>k. k \<noteq> '''' \<and> length k < 32) (map TrimSpace (Split raw (CHR '','')))"
proof (cases "parseAPIKeys raw")
  case (Inl code)
  with parse_keys_Inl [of "Split raw (CHR '','')" "[]" code] show ?thesis
    by (auto simp: parseAPIKeys_def list_all_iff list_ex_iff not_le)
next
  case (Inr keys)
  with parse_keys_Inr [of "Split raw (CHR '','')" "[]" keys] show ?thesis
    by (auto simp: parseAPIKeys_def list_all_iff keyID_length)
qed

text \<open>
  C39: keys that begin with the same eight bytes are one client. When a fan-out for the holder of
  one key has been saved, \<^verbatim>\<open>GetQuotes\<close> answers the holder of the other, asking with the same
  request ID (for whatever coverage lines), with the first one's quotes from the cache; and
  while the first call is in flight, a call of the other whose lookup misses joins it and
  receives its result, for every \<^verbatim>\<open>singleflight.Do\<close> that joins as documented.
\<close>
theorem shared_prefix_serves_others_quotes:
  assumes keys: "8 < length k" "8 < length k'" "take 8 k = take 8 k'"
    and reqs: "q_ClientID req = keyID k" "q_ClientID req' = keyID k'" "q_RequestID req' = q_RequestID req"
      "q_RequestID req \<noteq> ''''"
    and run: "orch_ok s" "fanOut E False req s = Some (Returned (Inr rs), s')" "rs \<noteq> []"
    and repo: "o_repo s = Some t" "\<forall>r \<in> set (meanwhile E t). rw_request_id r \<noteq> scopedKey req"
      "fst (Save (ce_save E) (ce_ts E) (scopedKey req) rs (meanwhile E t)) = None"
    and later: "ce_find E' = no_find_errors" "\<And>t. mset (ce_scan E' t) = mset t"
      "\<forall>r \<in> set rs. ce_now E' < ce_ts E (r_ExpiresAt r)"
    and flight: "cache_lookup E req (o_repo s) = None" "sf_joins Do' (in_flight [(E, req, s)])"
      "cache_lookup E'' req' (o_repo s1) = None"
  shows "(\<exists>cached. GetQuotes Do E' req' s' = Some (Returned (Inr cached), s')
      \<and> mset cached = mset (map (cached_form (ce_ts E) (scopedKey req)) rs))
    \<and> GetQuotes Do' E'' req' s1 = Some (Returned (Inr rs), s1)"
proof -
  have same: "scopedKey req' = scopedKey req" using keys reqs by (simp add: scopedKey_def keyID_def)
  have "o_repo s' = map_option (fold (pg.run_op id) []) (o_repo s')" by (simp add: option.map_id)
  from cache_hit_after_save [OF run(1,2) repo(1,2) reqs(4) run(3) repo(3) this _ later same] reqs(3,4)
  have "\<exists>cached. GetQuotes Do E' req' s' = Some (Returned (Inr cached), s')
      \<and> mset cached = mset (map (cached_form (ce_ts E) (scopedKey req)) rs)" by auto
  moreover have "Do' (scopedKey req) fn s1 = Some (Returned (Inr rs), s1)" for fn
    using flight(1,2) reqs(4) run(2) by (simp add: in_flight_one sf_joins_def joined_def)
  then have "GetQuotes Do' E'' req' s1 = Some (Returned (Inr rs), s1)"
    using flight(3) reqs(3,4) same by (simp add: GetQuotes_flight)
  ultimately show ?thesis by blast
qed

theorem shared_prefix_serves_others_quotes_witness:
  "\<exists>s' cached req'. req' = demo_request\<lparr>q_ClientID := keyID (''abcdefgh'' @ replicate 24 CHR ''b'')\<rparr>
     \<and> GetQuotes (share_do []) demo_env req' s' = Some (Returned (Inr cached), s') \<and> length cached = 2
     \<and> GetQuotes (share_do (in_flight [(demo_env, demo_request, demo_orch)])) demo_env req' demo_orch
         = Some (Returned (Inr [demo_quote ''gamma'' 50200, demo_quote ''alpha'' 50300]), demo_orch)"
proof -
  let ?rs = "[demo_quote ''gamma'' 50200, demo_quote ''alpha'' 50300]"
  let ?k = "''abcdefgh'' @ replicate 24 CHR ''a''" and ?k' = "''abcdefgh'' @ replicate 24 CHR ''b''"
  let ?req' = "demo_request\<lparr>q_ClientID := keyID ?k'\<rparr>"
  obtain s' where run: "fanOut demo_env False demo_request demo_orch = Some (Returned (Inr ?rs), s')" by (rule demo_fanOut)
  have k: "8 < length ?k" "8 < length ?k'" "take 8 ?k = take 8 ?k'" "q_ClientID demo_request = keyID ?k"
    by (simp_all add: keyID_def demo_request_def)
  have save: "fst (Save (ce_save demo_env) (ce_ts demo_env) (scopedKey demo_request) ?rs (meanwhile demo_env [])) = None"
    using save_rows_ok [of no_save_errors] by (simp add: demo_env_def Save_def no_save_errors_def meanwhile_def)
  have rest: "q_RequestID demo_request \<noteq> ''''" "ce_find demo_env = no_find_errors" "\<And>t. mset (ce_scan demo_env t) = mset t"
      "\<forall>r \<in> set ?rs. ce_now demo_env < ce_ts demo_env (r_ExpiresAt r)"
    by (simp_all add: demo_request_def demo_env_def demo_quote_def duration_consts)
  have "scopedKey ?req' = scopedKey demo_request" by (simp add: scopedKey_def keyID_def demo_request_def)
  then have miss: "cache_lookup demo_env demo_request (o_repo demo_orch) = None" "cache_lookup demo_env ?req' (o_repo demo_orch) = None"
    using demo_miss by (simp_all add: cache_lookup_def split: sum.splits if_splits)
  have both: "(\<exists>cached. GetQuotes (share_do []) demo_env ?req' s' = Some (Returned (Inr cached), s')
      \<and> mset cached = mset (map (cached_form (ce_ts demo_env) (scopedKey demo_request)) ?rs))
    \<and> GetQuotes (share_do (in_flight [(demo_env, demo_request, demo_orch)])) demo_env ?req' demo_orch
        = Some (Returned (Inr ?rs), demo_orch)"
    by (rule shared_prefix_serves_others_quotes [OF k(1-4) _ _ rest(1) demo_usable(2) run _ demo_orch_simps(4) _ save
          rest(2-4) miss(1) share_do_law(2) miss(2)]) simp_all
  from both obtain cached where c: "GetQuotes (share_do []) demo_env ?req' s' = Some (Returned (Inr cached), s')"
      "mset cached = mset (map (cached_form (ce_ts demo_env) (scopedKey demo_request)) ?rs)" by blast
  have "length cached = 2" using mset_eq_length [OF c(2)] by simp
  with c(1) conjunct2 [OF both] show ?thesis by blast
qed

text \<open>
  C35: every response of the chain is protected and audited. If the metrics handler and the
  multiplexer's own answers behave (they send a status line through the writer and leave the
  security headers alone), each response that is sent carries all five security headers and
  leaves exactly one audit line, with the status that was sent. The client in that line is
  always empty for a request that arrives without a client in its context, even when it was
  authenticated, because the authenticated context is only visible inside the chain.
\<close>
theorem responses_protected_and_audited:
  assumes "well_behaved metrics" "well_behaved fallback"
    and "finalHandler L now0 now1 held maxConcurrent keys
           (RegisterRoutes (handlePostQuotes decode quoted elapsed get) metrics (handleReadyz ping) fallback)
           r new_writer ls = Some (Returned w', ls')"
    and "rq_client r = None"
  shows "\<exists>code hs. wr_sent w' = Some (code, hs) \<and> list_all (\<lambda>(k, v). hs k = Some v) security_headers
    \<and> filter (\<lambda>e. \<exists>m p c i. e = Audit m p c i) (wr_log w') = [Audit (rq_method r) (rq_path r) code '''']"
proof -
  let ?mux = "RegisterRoutes (handlePostQuotes decode quoted elapsed get) metrics (handleReadyz ping) fallback"
  let ?auth = "RequireAPIKey L now0 now1 (LimitConcurrency (nat maxConcurrent) held ?mux) keys skipAuth"
  let ?w = "fold (\<lambda>(k, v). set_header k v) security_headers (new_writer\<lparr>wr_recorder := Some 200\<rparr>)"
  have wb: "well_behaved ?auth"
    by (intro auth_well_behaved limit_well_behaved routes_well_behaved post_well_behaved small_well_behaved assms(1,2))
  obtain w1 where run: "?auth r ?w ls = Some (Returned w1, ls')"
    and w': "w' = log_line (Audit (rq_method r) (rq_path r) (case wr_recorder w1 of Some st \<Rightarrow> st | None \<Rightarrow> 200) '''')
                (w1\<lparr>wr_recorder := None\<rparr>)"
    using assms(3,4)
    by (auto simp: finalHandler_def AuditLog_def SecurityHeaders_def ClientIDFromContext_def new_writer_def
        split: option.splits prod.splits outcome.splits)
  have w: "wr_sent ?w = None" "wr_recorder ?w = Some 200" "wr_log ?w = []"
    by (simp_all add: security_headers_def new_writer_def)
  obtain code hs logs where g: "wr_sent w1 = Some (code, hs)" "wr_recorder w1 = Some code"
    "keeps_headers (wr_header ?w) hs" "wr_log w1 = logs" "list_all (\<lambda>e. \<nexists>m p c i. e = Audit m p c i) logs"
    using well_behavedD [OF wb run w(1,2)] w(3) by (auto simp: good_response_def)
  have "wr_header ?w k = Some v" if "(k, v) \<in> set security_headers" for k v
    using that security_set [of k v] by (auto simp: security_headers_def)
  then have "list_all (\<lambda>(k, v). hs k = Some v) security_headers"
    using g(3) by (auto simp: keeps_headers_def list_all_iff)
  moreover have "filter (\<lambda>e. \<exists>m p c i. e = Audit m p c i) logs = []"
    using g(5) by (simp add: filter_empty_conv list_all_iff)
  ultimately show ?thesis using g w' by auto
qed

theorem responses_protected_and_audited_witness:
  "\<exists>w' ls' hs. finalHandler exact_lib 0 0 0 100 [''secret-key'']
       (RegisterRoutes (handlePostQuotes (\<lambda>n b. BadJson) id 0 (\<lambda>q s. None)) handleHealthz (handleReadyz None) handleHealthz)
       (demo_http ''Bearer wrong'') new_writer (newAuthFailureLimiter exact_lib, ()) = Some (Returned w', ls')
     \<and> wr_sent w' = Some (401, hs) \<and> hs ''X-Frame-Options'' = Some ''DENY''
     \<and> filter (\<lambda>e. \<exists>m p c i. e = Audit m p c i) (wr_log w') = [Audit ''POST'' ''/quotes'' 401 '''']"
proof -
  let ?mux = "RegisterRoutes (handlePostQuotes (\<lambda>n b. BadJson) id 0 (\<lambda>q s. None)) handleHealthz (handleReadyz None) handleHealthz :: unit handler"
  let ?r = "demo_http ''Bearer wrong''"
  have client: "rq_client ?r = None" "rq_method ?r = ''POST''" "rq_path ?r = ''/quotes''" by (simp_all add: demo_http_def)
  have "exact_level (10, 0) 0 = 10" by (simp add: exact_level_def)
  then obtain l1 where c: "check_budget exact_lib 0 (client_ip ?r) (newAuthFailureLimiter exact_lib) = (True, l1)"
    by (simp add: check_budget_def getOrCreate_def newAuthFailureLimiter_def exact_lib_def f_le_def Let_def)
  have skip: "rq_path ?r \<notin> set skipAuth" by (simp add: demo_http_def skipAuth_def)
  have key: "bearer_key [''secret-key''] (rq_header ?r ''Authorization'') = None"
    by (simp add: bearer_key_def demo_http_def)
  obtain w' ls' where run: "finalHandler exact_lib 0 0 0 100 [''secret-key''] ?mux ?r new_writer
      (newAuthFailureLimiter exact_lib, ()) = Some (Returned w', ls')"
    and st: "\<exists>hs. wr_sent w' = Some (401, hs)"
    by (simp add: finalHandler_def AuditLog_def SecurityHeaders_def RequireAPIKey_spec [OF skip] c key
        writeUnauthorized_def) (simp add: security_headers_def new_writer_def)
  obtain code hs where out: "wr_sent w' = Some (code, hs)" "list_all (\<lambda>(k, v). hs k = Some v) security_headers"
    "filter (\<lambda>e. \<exists>m p c i. e = Audit m p c i) (wr_log w') = [Audit (rq_method ?r) (rq_path ?r) code '''']"
    using responses_protected_and_audited [OF small_well_behaved(2) small_well_behaved(2) run client(1)] by blast
  from out(1) st have "code = 401" by simp
  moreover from out(2) have "hs ''X-Frame-Options'' = Some ''DENY''" by (simp add: security_headers_def)
  ultimately show ?thesis using run out client
    by (intro exI [of _ w'] exI [of _ ls'] exI [of _ hs]) simp
qed

end
