(* ===== verification/Lifecycle.thy ===== *)
theory Lifecycle
  imports Wiring
begin

text \<open>
  The process of \<^verbatim>\<open>cmd/carrier-gateway/main.go\<close> from the start of the sweeper to \<^verbatim>\<open>os.Exit\<close>: the
  main goroutine, the goroutine that serves HTTP with its error channel, the requests in
  flight, the sweeper (the machine of \<open>Cleanup\<close>), the database handle and the signals. A
  label is one move of one of them; a blocked move is \<open>None\<close>, and so is every move once the
  process is over. \<^verbatim>\<open>http.Server\<close> is modelled by what it documents: after \<^verbatim>\<open>Shutdown\<close> it
  accepts nothing, \<^verbatim>\<open>ListenAndServe\<close> returns \<^verbatim>\<open>ErrServerClosed\<close>, and \<^verbatim>\<open>Shutdown\<close> returns
  without a timeout only when no request is in flight.
\<close>

section \<open>The listening server\<close>

record http_server =
  sv_Addr :: string
  sv_ReadHeaderTimeout :: duration
  sv_ReadTimeout :: duration
  sv_WriteTimeout :: duration
  sv_IdleTimeout :: duration

text \<open>\<open>flag\<close> is the value of \<^verbatim>\<open>-addr\<close> when it is given, \<open>env\<close> the variable \<^verbatim>\<open>ADDR\<close>.\<close>
definition listen_addr :: "string option \<Rightarrow> string \<Rightarrow> string" where
  "listen_addr flag env =
     (let defaultAddr = (if env \<noteq> '''' then env else '':8080'')
      in case flag of Some addr \<Rightarrow> addr | None \<Rightarrow> defaultAddr)"

definition main_server :: "string \<Rightarrow> http_server" where
  "main_server addr = \<lparr>sv_Addr = addr, sv_ReadHeaderTimeout = 10 * Second, sv_ReadTimeout = 15 * Second,
     sv_WriteTimeout = 35 * Second, sv_IdleTimeout = 60 * Second\<rparr>"

section \<open>The process\<close>

datatype main_pc = MP_Keys | MP_Register | MP_Select | MP_Stop | MP_Stopping | MP_Shutdown | MP_Drain instant
  | MP_CloseDB | MP_Final | MP_Exit int | MP_Crash | MP_Killed

datatype srv_pc = NotSpawned | Spawned | Serving | ServeReturned

record process =
  lc_main :: main_pc
  lc_srv :: srv_pc
  lc_down :: bool
  lc_errs :: "go_error list"
  lc_closed :: bool
  lc_flight :: nat
  lc_ticker :: "cleanup_sys option"
  lc_db :: "bool option"
  lc_sig :: bool

text \<open>
  \<open>lc_down\<close>: \<^verbatim>\<open>Shutdown\<close> was called; \<open>lc_errs\<close>, \<open>lc_closed\<close>: the buffer of \<^verbatim>\<open>serverErrCh\<close> and
  whether it is closed; \<open>lc_flight\<close>: requests being served; \<open>lc_db\<close>: the database handle, if
  any, and whether it is open; \<open>lc_sig\<close>: the signal context is done.
\<close>
definition main_process :: "(string \<Rightarrow> duration option) \<Rightarrow> string \<Rightarrow> table option \<times> bool \<Rightarrow> process" where
  "main_process ParseDuration rawInterval repo_db =
     \<lparr>lc_main = MP_Keys, lc_srv = NotSpawned, lc_down = False, lc_errs = [], lc_closed = False, lc_flight = 0,
      lc_ticker = map_option (\<lambda>repo. New_Ticker repo (cleanup_interval ParseDuration rawInterval)) (fst repo_db),
      lc_db = (if snd repo_db then Some True else None), lc_sig = False\<rparr>"

datatype life_label =
    LMain instant
  | LRecvErr
  | LRecvSig
  | LDrained "go_error option"
  | LDrainTimeout instant
  | LListen "go_error option"
  | LServeEnd "go_error option"
  | LArrive
  | LDone
  | LSave "instant \<Rightarrow> instant" string "QuoteResult list"
  | LSweeper cleanup_label
  | LCrash
  | LSignal

text \<open>Moves of the main goroutine that do not wait for one of several events.\<close>
fun main_move :: "string \<Rightarrow> instant \<Rightarrow> main_pc \<Rightarrow> process \<Rightarrow> process option" where
  "main_move rawKeys now MP_Keys s =
     (case parseAPIKeys rawKeys of
        Inl code \<Rightarrow> Some (s\<lparr>lc_main := MP_Exit code\<rparr>)
      | Inr keys \<Rightarrow>
          if keys = [] then Some (s\<lparr>lc_main := MP_Exit 1\<rparr>)
          else Some (s\<lparr>lc_main := MP_Register, lc_srv := Spawned\<rparr>))"
| "main_move rawKeys now MP_Register s = Some (s\<lparr>lc_main := MP_Select\<rparr>)"
| "main_move rawKeys now MP_Stop s =
     (case lc_ticker s of
        None \<Rightarrow> Some (s\<lparr>lc_main := MP_Shutdown\<rparr>)
      | Some k \<Rightarrow>
          map_option (\<lambda>k'. s\<lparr>lc_main := MP_Stopping, lc_ticker := Some k'\<rparr>) (cleanup_step CallStop k))"
| "main_move rawKeys now MP_Stopping s =
     (case lc_ticker s of
        None \<Rightarrow> None
      | Some k \<Rightarrow>
          map_option (\<lambda>k'. s\<lparr>lc_main := if k_stops k' ! 0 = S_Returned then MP_Shutdown
                                          else if k_stops k' ! 0 = S_Panic then MP_Crash else MP_Stopping,
                             lc_ticker := Some k'\<rparr>)
            (cleanup_step (StopStep 0) k))"
| "main_move rawKeys now MP_Shutdown s = Some (s\<lparr>lc_main := MP_Drain (now + shutdownDrainWindow), lc_down := True\<rparr>)"
| "main_move rawKeys now MP_CloseDB s =
     Some (s\<lparr>lc_main := MP_Final, lc_db := map_option (\<lambda>_. False) (lc_db s)\<rparr>)"
| "main_move rawKeys now MP_Final s = Some (s\<lparr>lc_main := MP_Exit exitCodeSuccess\<rparr>)"
| "main_move rawKeys now _ s = None"

definition drained :: "go_error option \<Rightarrow> process \<Rightarrow> process" where
  "drained err s =
     s\<lparr>lc_main := case Shutdown err of Some e \<Rightarrow> MP_Exit exitCodeDrainTimeout | None \<Rightarrow> MP_CloseDB\<rparr>"

text \<open>The end of \<^verbatim>\<open>ListenAndServe\<close>; \<open>None\<close> is \<^verbatim>\<open>ErrServerClosed\<close>.\<close>
definition serve_end :: "go_error option \<Rightarrow> process \<Rightarrow> process" where
  "serve_end err s =
     s\<lparr>lc_srv := ServeReturned, lc_errs := lc_errs s @ (case err of Some e \<Rightarrow> [e] | None \<Rightarrow> []), lc_closed := True\<rparr>"

definition over :: "process \<Rightarrow> bool" where
  "over s \<longleftrightarrow> (case lc_main s of MP_Exit c \<Rightarrow> True | MP_Crash \<Rightarrow> True | MP_Killed \<Rightarrow> True | _ \<Rightarrow> False)"

text \<open>Moves of the sweeper's goroutine; its context is never cancelled.\<close>
fun of_sweeper :: "cleanup_label \<Rightarrow> bool" where
  "of_sweeper Start = True"
| "of_sweeper (Fire err now) = True"
| "of_sweeper SeeStop = True"
| "of_sweeper _ = False"

text \<open>
  \<^verbatim>\<open>sigCtx\<close> is made after the server is spawned: a signal that comes earlier ends the process.
  A panic of the sweeper's goroutine first runs its deferred \<^verbatim>\<open>close(t.done)\<close> (the move \<open>Start\<close>) and
  then ends the process (\<open>LCrash\<close>); the other goroutines run on in between.
\<close>
fun life_move :: "string \<Rightarrow> life_label \<Rightarrow> process \<Rightarrow> process option" where
  "life_move rawKeys (LMain now) s = main_move rawKeys now (lc_main s) s"
| "life_move rawKeys LRecvErr s =
     (if lc_main s = MP_Select then
        case lc_errs s of
          err # errs \<Rightarrow> Some (s\<lparr>lc_main := MP_Exit exitCodeDrainTimeout, lc_errs := errs\<rparr>)
        | [] \<Rightarrow> if lc_closed s then Some (s\<lparr>lc_main := MP_Stop\<rparr>) else None
      else None)"
| "life_move rawKeys LRecvSig s =
     (if lc_main s = MP_Select \<and> lc_sig s then Some (s\<lparr>lc_main := MP_Stop\<rparr>) else None)"
| "life_move rawKeys (LDrained lnerr) s =
     (case lc_main s of MP_Drain d \<Rightarrow> if lc_flight s = 0 then Some (drained lnerr s) else None | _ \<Rightarrow> None)"
| "life_move rawKeys (LDrainTimeout now) s =
     (case lc_main s of MP_Drain d \<Rightarrow> if d \<le> now then Some (drained (Some CtxDeadlineExceeded) s) else None | _ \<Rightarrow> None)"
| "life_move rawKeys (LListen err) s =
     (if lc_srv s = Spawned then
        if lc_down s then Some (serve_end None s)
        else case err of Some e \<Rightarrow> Some (serve_end (Some e) s) | None \<Rightarrow> Some (s\<lparr>lc_srv := Serving\<rparr>)
      else None)"
| "life_move rawKeys (LServeEnd err) s =
     (if lc_srv s = Serving \<and> (lc_down s \<longleftrightarrow> err = None) then Some (serve_end err s) else None)"
| "life_move rawKeys LArrive s =
     (if lc_srv s = Serving \<and> \<not> lc_down s then Some (s\<lparr>lc_flight := Suc (lc_flight s)\<rparr>) else None)"
| "life_move rawKeys LDone s = (if 0 < lc_flight s then Some (s\<lparr>lc_flight := lc_flight s - 1\<rparr>) else None)"
| "life_move rawKeys (LSave ts key rs) s =
     (case lc_ticker s of
        None \<Rightarrow> None
      | Some k \<Rightarrow>
          if 0 < lc_flight s
          then map_option (\<lambda>k'. s\<lparr>lc_ticker := Some k'\<rparr>) (cleanup_step (Saved ts key rs) k) else None)"
| "life_move rawKeys (LSweeper l) s =
     (case lc_ticker s of
        None \<Rightarrow> None
      | Some k \<Rightarrow>
          if of_sweeper l
          then map_option (\<lambda>k'. s\<lparr>lc_ticker := Some k'\<rparr>) (cleanup_step l k) else None)"
| "life_move rawKeys LCrash s =
     (case lc_ticker s of
        None \<Rightarrow> None
      | Some k \<Rightarrow> if k_loop k = StartPanic then Some (s\<lparr>lc_main := MP_Crash\<rparr>) else None)"
| "life_move rawKeys LSignal s =
     (if lc_main s \<in> {MP_Keys, MP_Register} then Some (s\<lparr>lc_main := MP_Killed\<rparr>) else Some (s\<lparr>lc_sig := True\<rparr>))"

definition life_step :: "string \<Rightarrow> life_label \<Rightarrow> process \<Rightarrow> process option" where
  "life_step rawKeys l s = (if over s then None else life_move rawKeys l s)"

inductive life_reach :: "string \<Rightarrow> process \<Rightarrow> process \<Rightarrow> bool" for rawKeys s0 where
  life_start: "life_reach rawKeys s0 s0"
| life_more: "life_reach rawKeys s0 s \<Longrightarrow> life_step rawKeys l s = Some s' \<Longrightarrow> life_reach rawKeys s0 s'"

fun life_run :: "string \<Rightarrow> life_label list \<Rightarrow> process \<Rightarrow> process option" where
  "life_run rawKeys [] s = Some s"
| "life_run rawKeys (l # ls) s =
     (case life_step rawKeys l s of None \<Rightarrow> None | Some s' \<Rightarrow> life_run rawKeys ls s')"

section \<open>Invariant\<close>

text \<open>How far the \<^verbatim>\<open>Stop\<close> of the main goroutine has come.\<close>
fun stops_at :: "main_pc \<Rightarrow> stop_pc list \<Rightarrow> bool" where
  "stops_at MP_Stopping ps \<longleftrightarrow> ps = [S_Close] \<or> ps = [S_Wait]"
| "stops_at MP_Shutdown ps \<longleftrightarrow> ps = [S_Returned]"
| "stops_at (MP_Drain d) ps \<longleftrightarrow> ps = [S_Returned]"
| "stops_at MP_CloseDB ps \<longleftrightarrow> ps = [S_Returned]"
| "stops_at MP_Final ps \<longleftrightarrow> ps = [S_Returned]"
| "stops_at (MP_Exit c) ps \<longleftrightarrow> (c = 0 \<longrightarrow> ps = [S_Returned])"
| "stops_at MP_Crash ps \<longleftrightarrow> True"
| "stops_at MP_Killed ps \<longleftrightarrow> True"
| "stops_at _ ps \<longleftrightarrow> ps = []"

fun quiet_at :: "main_pc \<Rightarrow> bool \<Rightarrow> nat \<Rightarrow> bool" where
  "quiet_at (MP_Drain d) down n \<longleftrightarrow> down"
| "quiet_at MP_CloseDB down n \<longleftrightarrow> down \<and> n = 0"
| "quiet_at MP_Final down n \<longleftrightarrow> down \<and> n = 0"
| "quiet_at (MP_Exit c) down n \<longleftrightarrow> (c = 0 \<longrightarrow> down \<and> n = 0)"
| "quiet_at MP_Crash down n \<longleftrightarrow> True"
| "quiet_at MP_Killed down n \<longleftrightarrow> True"
| "quiet_at _ down n \<longleftrightarrow> \<not> down"

definition ticker_ok :: "duration \<Rightarrow> main_pc \<Rightarrow> cleanup_sys \<Rightarrow> bool" where
  "ticker_ok i m k \<longleftrightarrow> cleanup_inv i k \<and> stops_at m (k_stops k) \<and> \<not> k_ctx k"

text \<open>The database handle is closed only when everything that uses it is over.\<close>
definition db_ok :: "process \<Rightarrow> bool" where
  "db_ok s \<longleftrightarrow> (lc_main s \<in> {MP_Final, MP_Exit 0} \<longrightarrow> lc_db s \<noteq> Some True)
     \<and> (lc_db s = Some False \<longrightarrow> lc_main s \<in> {MP_Final, MP_Exit 0, MP_Crash} \<and> lc_down s \<and> lc_flight s = 0
         \<and> (\<forall>k. lc_ticker s = Some k \<longrightarrow> k_stops k = [S_Returned])
         \<and> (lc_main s = MP_Crash \<longrightarrow> (\<exists>k. lc_ticker s = Some k \<and> k_loop k = StartPanic)))"

definition life_inv :: "duration \<Rightarrow> process \<Rightarrow> bool" where
  "life_inv i s \<longleftrightarrow> (\<forall>k. lc_ticker s = Some k \<longrightarrow> ticker_ok i (lc_main s) k \<and> lc_db s \<noteq> None)
     \<and> db_ok s
     \<and> quiet_at (lc_main s) (lc_down s) (lc_flight s)
     \<and> (lc_main s = MP_Stopping \<longrightarrow> lc_ticker s \<noteq> None)
     \<and> (lc_main s = MP_Keys \<or> lc_main s = MP_Register \<longrightarrow> \<not> lc_sig s)"

lemma life_inv_server [simp]:
  "life_inv i (s\<lparr>lc_srv := x\<rparr>) = life_inv i s" "life_inv i (serve_end err s) = life_inv i s"
  by (simp_all add: life_inv_def db_ok_def serve_end_def)

lemma stop_returned_idle:
  assumes "ticker_ok i m k" "S_Returned \<in> set (k_stops k)"
  shows "k_loop k = (if 0 < i then Exited else StartPanic)"
  using assms by (auto simp: ticker_ok_def cleanup_inv_def)

lemma main_move_inv:
  assumes st: "main_move rawKeys now (lc_main s) s = Some s'" and inv: "life_inv i s"
  shows "life_inv i s'"
proof (cases "lc_main s")
  case MP_Keys
  with st inv show ?thesis using parse_keys_Inl [of "Split rawKeys (CHR '','')" "[]"]
    by (auto simp: life_inv_def db_ok_def ticker_ok_def parseAPIKeys_def split: sum.splits if_splits)
next
  case MP_Stop
  show ?thesis
  proof (cases "lc_ticker s")
    case (Some k)
    have "cleanup_inv i (k\<lparr>k_stops := k_stops k @ [S_Close]\<rparr>)"
      using cleanup_inv_step [of i k CallStop] inv Some by (simp add: life_inv_def db_ok_def ticker_ok_def)
    with st inv MP_Stop Some show ?thesis by (auto simp: life_inv_def db_ok_def ticker_ok_def)
  qed (use st inv MP_Stop in \<open>auto simp: life_inv_def db_ok_def\<close>)
next
  case MP_Stopping
  then obtain k k' where k: "lc_ticker s = Some k" "cleanup_step (StopStep 0) k = Some k'"
    and s': "s' = s\<lparr>lc_main := if k_stops k' ! 0 = S_Returned then MP_Shutdown
      else if k_stops k' ! 0 = S_Panic then MP_Crash else MP_Stopping, lc_ticker := Some k'\<rparr>"
    using st by (auto split: option.splits)
  have ok: "ticker_ok i MP_Stopping k" using inv k MP_Stopping by (simp add: life_inv_def)
  then have "cleanup_inv i k'" using cleanup_inv_step [OF _ k(2)] by (simp add: ticker_ok_def)
  moreover have "k_stops k' = [S_Returned] \<or> k_stops k' = [S_Panic] \<or> k_stops k' = [S_Wait]"
    "k_loop k' = k_loop k" "k_ctx k' = k_ctx k"
    using ok k(2) by (auto simp: ticker_ok_def split: if_splits)
  ultimately have "ticker_ok i (lc_main s') k'" using ok by (auto simp: s' ticker_ok_def)
  then show ?thesis using inv k MP_Stopping by (auto simp: life_inv_def db_ok_def s')
qed (use st inv in \<open>auto simp: life_inv_def db_ok_def ticker_ok_def exitCodeSuccess_def\<close>)

lemma sweeper_keeps:
  assumes "cleanup_step l k = Some k'" "of_sweeper l"
  shows "k_stops k' = k_stops k" "k_ctx k' = k_ctx k" "k_stop k' = k_stop k" "k_loop k \<noteq> StartPanic"
  using assms by (cases l; auto simp: sweep_def split: if_splits prod.splits sum.splits)+

lemma life_step_inv:
  assumes st: "life_step rawKeys l s = Some s'" and inv: "life_inv i s"
  shows "life_inv i s'"
proof -
  have live: "\<not> over s" and mv: "life_move rawKeys l s = Some s'" using st by (auto simp: life_step_def split: if_splits)
  show ?thesis
  proof (cases l)
    case (LMain now)
    with mv main_move_inv [OF _ inv] show ?thesis by auto
  next
    case (LSweeper l')
    then obtain k k' where k: "lc_ticker s = Some k" "of_sweeper l'" "cleanup_step l' k = Some k'"
      and s': "s' = s\<lparr>lc_ticker := Some k'\<rparr>"
      using mv by (auto split: option.splits if_splits)
    have ok: "ticker_ok i (lc_main s) k" using inv k(1) by (simp add: life_inv_def)
    then have "cleanup_inv i k'" using cleanup_inv_step [OF _ k(3)] by (simp add: ticker_ok_def)
    then have "ticker_ok i (lc_main s') k'" using ok sweeper_keeps [OF k(3,2)] by (auto simp: ticker_ok_def s')
    then show ?thesis using inv k live sweeper_keeps(1) [OF k(3,2)] by (auto simp: life_inv_def db_ok_def s' over_def)
  next
    case LCrash
    then obtain k where "lc_ticker s = Some k" "k_loop k = StartPanic" "s' = s\<lparr>lc_main := MP_Crash\<rparr>"
      using mv by (auto split: option.splits if_splits)
    then show ?thesis using inv by (auto simp: life_inv_def db_ok_def ticker_ok_def)
  next
    case (LSave ts key rs)
    then obtain k where k: "lc_ticker s = Some k"
      and s': "s' = s\<lparr>lc_ticker := Some (k\<lparr>k_table := table_save ts key rs (k_table k)\<rparr>)\<rparr>"
      using mv by (auto split: option.splits if_splits)
    have "cleanup_inv i (k\<lparr>k_table := table_save ts key rs (k_table k)\<rparr>)"
      using cleanup_inv_step [of i k "Saved ts key rs"] inv k by (simp add: life_inv_def db_ok_def ticker_ok_def)
    then show ?thesis using inv k by (auto simp: life_inv_def db_ok_def ticker_ok_def s')
  next
    case LRecvErr
    then have "lc_main s = MP_Select" "(\<exists>errs. s' = s\<lparr>lc_main := MP_Exit 1, lc_errs := errs\<rparr>) \<or> s' = s\<lparr>lc_main := MP_Stop\<rparr>"
      using mv by (auto simp: exitCodeDrainTimeout_def split: if_splits list.splits)
    then show ?thesis using inv by (auto simp: life_inv_def db_ok_def ticker_ok_def)
  next
    case LRecvSig
    then have "lc_main s = MP_Select" "s' = s\<lparr>lc_main := MP_Stop\<rparr>" using mv by (auto split: if_splits)
    then show ?thesis using inv by (simp add: life_inv_def db_ok_def ticker_ok_def)
  next
    case (LDrained err)
    then obtain d where "lc_main s = MP_Drain d" "lc_flight s = 0"
      "s' = s\<lparr>lc_main := MP_CloseDB\<rparr> \<or> s' = s\<lparr>lc_main := MP_Exit 1\<rparr>"
      using mv by (auto simp: drained_def exitCodeDrainTimeout_def split: if_splits main_pc.splits option.splits)
    then show ?thesis using inv by (auto simp: life_inv_def db_ok_def ticker_ok_def)
  next
    case (LDrainTimeout now)
    then obtain d where "lc_main s = MP_Drain d" "s' = s\<lparr>lc_main := MP_Exit 1\<rparr>"
      using mv by (auto simp: drained_def Shutdown_def exitCodeDrainTimeout_def split: if_splits main_pc.splits)
    then show ?thesis using inv by (auto simp: life_inv_def db_ok_def ticker_ok_def)
  next
    case (LListen err)
    then have "\<exists>e. s' = serve_end e s \<or> s' = s\<lparr>lc_srv := Serving\<rparr>" using mv by (auto split: if_splits option.splits)
    then show ?thesis using inv by auto
  next
    case (LServeEnd err)
    then have "s' = serve_end err s" using mv by (auto split: if_splits)
    then show ?thesis using inv by auto
  next
    case LArrive
    then have "\<not> lc_down s" "s' = s\<lparr>lc_flight := Suc (lc_flight s)\<rparr>" using mv by (auto split: if_splits)
    moreover have "quiet_at m False n \<Longrightarrow> quiet_at m False (Suc n)" for m n by (cases m) auto
    ultimately show ?thesis using inv by (auto simp: life_inv_def db_ok_def)
  next
    case LDone
    then have "s' = s\<lparr>lc_flight := lc_flight s - 1\<rparr>" using mv by (auto split: if_splits)
    moreover have "quiet_at m b n \<Longrightarrow> quiet_at m b (n - 1)" for m b n by (cases m) auto
    ultimately show ?thesis using inv by (auto simp: life_inv_def db_ok_def)
  next
    case LSignal
    then consider "lc_main s = MP_Keys \<or> lc_main s = MP_Register" "s' = s\<lparr>lc_main := MP_Killed\<rparr>"
      | "lc_main s \<noteq> MP_Keys" "lc_main s \<noteq> MP_Register" "s' = s\<lparr>lc_sig := True\<rparr>"
      using mv by (auto split: if_splits)
    then show ?thesis using inv by cases (auto simp: life_inv_def db_ok_def ticker_ok_def)
  qed
qed

lemma main_process_inv: "(fst repo_db \<noteq> None \<longrightarrow> snd repo_db) \<Longrightarrow>
    life_inv (cleanup_interval PD raw) (main_process PD raw repo_db)"
  by (auto simp: life_inv_def db_ok_def ticker_ok_def main_process_def cleanup_inv_def New_Ticker_def)

lemma main_repo_has_db: "fst (main_repo dsn open_err ping_err migrate_err server) \<noteq> None
    \<longrightarrow> snd (main_repo dsn open_err ping_err migrate_err server)"
  by (auto simp: main_repo_def split: option.splits prod.splits)

lemma life_reach_inv:
  assumes "life_reach rawKeys s0 s" "life_inv i s0"
  shows "life_inv i s"
  using assms by (induction rule: life_reach.induct) (auto intro: life_step_inv)

text \<open>The exit codes, and the keys of every process that gets past its start.\<close>
definition usable_keys :: "string \<Rightarrow> bool" where
  "usable_keys rawKeys \<longleftrightarrow> (\<exists>keys. parseAPIKeys rawKeys = Inr keys \<and> keys \<noteq> [])"

fun started_ok :: "string \<Rightarrow> main_pc \<Rightarrow> bool" where
  "started_ok rawKeys MP_Keys \<longleftrightarrow> True"
| "started_ok rawKeys MP_Crash \<longleftrightarrow> True"
| "started_ok rawKeys MP_Killed \<longleftrightarrow> True"
| "started_ok rawKeys (MP_Exit c) \<longleftrightarrow> c = 1 \<or> c = 0 \<and> usable_keys rawKeys"
| "started_ok rawKeys _ \<longleftrightarrow> usable_keys rawKeys"

lemma main_move_started:
  "main_move rawKeys now m s = Some s' \<Longrightarrow> started_ok rawKeys m \<Longrightarrow> started_ok rawKeys (lc_main s')"
  using parse_keys_Inl [of "Split rawKeys (CHR '','')" "[]"]
  by (cases m) (auto simp: usable_keys_def parseAPIKeys_def exitCodeSuccess_def split: sum.splits if_splits option.splits)

lemma life_step_started:
  assumes "life_step rawKeys l s = Some s'" "started_ok rawKeys (lc_main s)"
  shows "started_ok rawKeys (lc_main s')"
proof -
  have "life_move rawKeys l s = Some s'" using assms(1) by (auto simp: life_step_def split: if_splits)
  then show ?thesis using assms(2) main_move_started [of rawKeys _ "lc_main s" s s']
    by (cases l) (auto simp: drained_def serve_end_def exitCodeDrainTimeout_def
        split: if_splits option.splits list.splits main_pc.splits)
qed

lemma life_reach_started: "life_reach rawKeys s0 s \<Longrightarrow> started_ok rawKeys (lc_main s0) \<Longrightarrow> started_ok rawKeys (lc_main s)"
  by (induction rule: life_reach.induct) (auto intro: life_step_started)

section \<open>Getting to the exit\<close>

fun of_main :: "life_label \<Rightarrow> bool" where
  "of_main (LMain now) = True"
| "of_main LRecvErr = True"
| "of_main LRecvSig = True"
| "of_main (LDrained err) = True"
| "of_main (LDrainTimeout now) = True"
| "of_main _ = False"

fun main_rank :: "main_pc \<Rightarrow> stop_pc list \<Rightarrow> nat" where
  "main_rank MP_Keys ps = 10"
| "main_rank MP_Register ps = 9"
| "main_rank MP_Select ps = 8"
| "main_rank MP_Stop ps = 7"
| "main_rank MP_Stopping ps = (if ps = [S_Close] then 6 else 5)"
| "main_rank MP_Shutdown ps = 4"
| "main_rank (MP_Drain d) ps = 3"
| "main_rank MP_CloseDB ps = 2"
| "main_rank MP_Final ps = 1"
| "main_rank _ ps = 0"

definition life_rank :: "process \<Rightarrow> nat" where
  "life_rank s = main_rank (lc_main s) (case lc_ticker s of Some k \<Rightarrow> k_stops k | None \<Rightarrow> [])"

lemma life_rank_le: "life_rank s \<le> 10"
  unfolding life_rank_def by (cases "lc_main s") auto

lemma main_move_rank:
  assumes "main_move rawKeys now (lc_main s) s = Some s'" "life_inv i s"
  shows "life_rank s' < life_rank s"
proof (cases "lc_main s")
  case MP_Stopping
  then obtain k k' where k: "lc_ticker s = Some k" "cleanup_step (StopStep 0) k = Some k'"
    and s': "s' = s\<lparr>lc_main := if k_stops k' ! 0 = S_Returned then MP_Shutdown
      else if k_stops k' ! 0 = S_Panic then MP_Crash else MP_Stopping, lc_ticker := Some k'\<rparr>"
    using assms(1) by (auto split: option.splits)
  have "k_stops k = [S_Close] \<or> k_stops k = [S_Wait]" using assms(2) k MP_Stopping by (auto simp: life_inv_def db_ok_def ticker_ok_def)
  then show ?thesis using k MP_Stopping by (auto simp: life_rank_def s' split: if_splits)
qed (use assms in \<open>auto simp: life_rank_def life_inv_def db_ok_def ticker_ok_def split: sum.splits if_splits option.splits\<close>)

lemma life_step_rank:
  assumes "life_step rawKeys l s = Some s'" "life_inv i s"
  shows "life_rank s' + of_bool (of_main l) \<le> life_rank s"
proof -
  have live: "\<not> over s" and mv: "life_move rawKeys l s = Some s'" using assms(1) by (auto simp: life_step_def split: if_splits)
  show ?thesis
  proof (cases l)
    case (LMain now)
    with mv main_move_rank [OF _ assms(2)] show ?thesis by (auto simp: Suc_le_eq)
  next
    case (LSweeper l')
    then obtain k k' where k: "lc_ticker s = Some k" "of_sweeper l'" "cleanup_step l' k = Some k'"
      and s': "s' = s\<lparr>lc_ticker := Some k'\<rparr>"
      using mv by (auto split: option.splits if_splits)
    show ?thesis using k(1) sweeper_keeps(1) [OF k(3,2)] LSweeper by (auto simp: life_rank_def s')
  next
    case (LSave ts key rs)
    with mv show ?thesis by (auto simp: life_rank_def split: option.splits if_splits)
  next
    case LSignal
    with mv show ?thesis by (auto simp: life_rank_def split: if_splits)
  qed (use mv in \<open>auto simp: life_rank_def drained_def serve_end_def
         split: if_splits option.splits list.splits main_pc.splits\<close>)
qed

lemma life_run_rank:
  assumes "life_run rawKeys ls s = Some s'" "life_inv i s"
  shows "life_rank s' + length (filter of_main ls) \<le> life_rank s"
  using assms
proof (induction ls arbitrary: s)
  case (Cons l ls)
  then obtain s1 where s1: "life_step rawKeys l s = Some s1" "life_run rawKeys ls s1 = Some s'"
    by (auto split: option.splits)
  from Cons.IH [OF s1(2) life_step_inv [OF s1(1) Cons.prems(2)]] life_step_rank [OF s1(1) Cons.prems(2)]
  show ?case by (cases "of_main l") auto
qed simp

text \<open>Moves that the shutdown itself makes: no request has to finish for them.\<close>
fun shutdown_move :: "life_label \<Rightarrow> bool" where
  "shutdown_move (LMain now) = True"
| "shutdown_move LRecvSig = True"
| "shutdown_move (LDrained err) = (err = None)"
| "shutdown_move (LDrainTimeout now) = True"
| "shutdown_move (LSweeper l) = (l = Start \<or> l = SeeStop)"
| "shutdown_move _ = False"

definition exits :: "string \<Rightarrow> process \<Rightarrow> bool" where
  "exits rawKeys s \<longleftrightarrow> (\<exists>ls s' c. list_all shutdown_move ls \<and> life_run rawKeys ls s = Some s'
     \<and> lc_main s' = MP_Exit c \<and> (lc_flight s = 0 \<longrightarrow> c = 0))"

lemma exits_step:
  assumes "life_step rawKeys l s = Some s1" "shutdown_move l" "lc_flight s1 = lc_flight s" "exits rawKeys s1"
  shows "exits rawKeys s"
proof -
  obtain ls s' c where "list_all shutdown_move ls" "life_run rawKeys ls s1 = Some s'" "lc_main s' = MP_Exit c"
    "lc_flight s1 = 0 \<longrightarrow> c = 0" using assms(4) by (auto simp: exits_def)
  then show ?thesis unfolding exits_def using assms(1-3) by (intro exI [of _ "l # ls"] exI [of _ s'] exI [of _ c]) simp
qed

lemma exits_via:
  assumes "case life_step rawKeys l s of Some s1 \<Rightarrow> lc_flight s1 = lc_flight s \<and> exits rawKeys s1 | None \<Rightarrow> False"
    and "shutdown_move l"
  shows "exits rawKeys s"
  using assms by (auto split: option.splits intro: exits_step)

lemma exits_end: "lc_main s = MP_Exit 0 \<Longrightarrow> exits rawKeys s"
  unfolding exits_def by (intro exI [of _ "[]"]) simp

lemma exits_final: "lc_main s = MP_Final \<Longrightarrow> exits rawKeys s"
  by (rule exits_via [where l = "LMain 0"]) (simp_all add: life_step_def over_def exitCodeSuccess_def exits_end)

lemma exits_close: "lc_main s = MP_CloseDB \<Longrightarrow> exits rawKeys s"
  by (rule exits_via [where l = "LMain 0"]) (simp_all add: life_step_def over_def exits_final)

lemma exits_drain: "lc_main s = MP_Drain d \<Longrightarrow> exits rawKeys s"
proof (cases "lc_flight s = 0")
  case True
  assume m: "lc_main s = MP_Drain d"
  show ?thesis by (rule exits_via [where l = "LDrained None"])
    (use m True in \<open>simp_all add: life_step_def over_def drained_def Shutdown_def exits_close\<close>)
next
  case False
  assume m: "lc_main s = MP_Drain d"
  have st: "life_step rawKeys (LDrainTimeout d) s = Some (s\<lparr>lc_main := MP_Exit 1\<rparr>)"
    using m by (simp add: life_step_def over_def drained_def Shutdown_def exitCodeDrainTimeout_def)
  show ?thesis unfolding exits_def using False st by (intro exI [of _ "[LDrainTimeout d]"]) simp
qed

lemma exits_shutdown: "lc_main s = MP_Shutdown \<Longrightarrow> exits rawKeys s"
  by (rule exits_via [where l = "LMain 0"]) (simp_all add: life_step_def over_def exits_drain)

lemma exits_waiting:
  assumes m: "lc_main s = MP_Stopping" "lc_ticker s = Some k" "k_stops k = [S_Wait]" and inv: "life_inv i s" and i: "0 < i"
  shows "exits rawKeys s"
proof -
  have ok: "cleanup_inv i k" using inv m by (simp add: life_inv_def db_ok_def ticker_ok_def)
  have go: "exits rawKeys s" if "lc_main s = MP_Stopping" "lc_ticker s = Some k" "k_stops k = [S_Wait]" "k_done k" for s k
    by (rule exits_via [where l = "LMain 0"]) (use that in \<open>simp_all add: life_step_def over_def exits_shutdown\<close>)
  have stop: "k_stop k" using ok m(3) by (cases "k_stop k") (auto simp: cleanup_inv_def)
  have see: "exits rawKeys s" if "lc_main s = MP_Stopping" "lc_ticker s = Some k" "k_stops k = [S_Wait]" "k_stop k"
    "k_loop k = Looping" for s k
    by (rule exits_via [where l = "LSweeper SeeStop"])
       (use that go [where k = "k\<lparr>k_loop := Exited, k_done := True\<rparr>"] in \<open>simp_all add: life_step_def over_def\<close>)
  show ?thesis
  proof (cases "k_loop k")
    case NotStarted
    show ?thesis
      by (rule exits_via [where l = "LSweeper Start"])
         (use m stop NotStarted ok i see [where k = "k\<lparr>k_loop := Looping\<rparr>"]
          in \<open>auto simp: life_step_def over_def cleanup_inv_def\<close>)
  next
    case Looping
    from see [OF m stop this] show ?thesis .
  qed (use go [OF m] ok in \<open>auto simp: cleanup_inv_def\<close>)
qed

lemma exits_stopping:
  assumes m: "lc_main s = MP_Stopping" and inv: "life_inv i s" and i: "0 < i" and k: "lc_ticker s = Some k"
  shows "exits rawKeys s"
proof -
  have "k_stops k = [S_Wait] \<or> k_stops k = [S_Close]" using inv m k by (auto simp: life_inv_def db_ok_def ticker_ok_def)
  then show ?thesis
  proof
    assume "k_stops k = [S_Wait]"
    from exits_waiting [OF m k this inv i] show ?thesis .
  next
    assume c: "k_stops k = [S_Close]"
    have "\<not> k_stop k" using inv k c by (auto simp: life_inv_def db_ok_def ticker_ok_def cleanup_inv_def)
    with m k c have st: "life_step rawKeys (LMain 0) s = Some (s\<lparr>lc_ticker := Some (k\<lparr>k_stops := [S_Wait], k_stop := True\<rparr>)\<rparr>)"
      by (simp add: life_step_def over_def)
    from exits_waiting [OF _ _ _ life_step_inv [OF st inv] i] m
    have "exits rawKeys (s\<lparr>lc_ticker := Some (k\<lparr>k_stops := [S_Wait], k_stop := True\<rparr>)\<rparr>)" by simp
    from exits_step [OF st _ _ this] show ?thesis by simp
  qed
qed

lemma exits_stop:
  assumes m: "lc_main s = MP_Stop" and inv: "life_inv i s" and i: "lc_ticker s \<noteq> None \<longrightarrow> 0 < i"
  shows "exits rawKeys s"
proof (cases "lc_ticker s")
  case None
  show ?thesis by (rule exits_via [where l = "LMain 0"])
    (use m None in \<open>simp_all add: life_step_def over_def exits_shutdown\<close>)
next
  case (Some k)
  let ?s = "s\<lparr>lc_main := MP_Stopping, lc_ticker := Some (k\<lparr>k_stops := k_stops k @ [S_Close]\<rparr>)\<rparr>"
  have st: "life_step rawKeys (LMain 0) s = Some ?s" using m Some by (simp add: life_step_def over_def)
  have "exits rawKeys ?s" using exits_stopping [OF _ life_step_inv [OF st inv], of _ rawKeys] i Some by simp
  from exits_step [OF st _ _ this] show ?thesis by simp
qed

section \<open>Properties\<close>

text \<open>The moves that use the database: the saves of requests and the sweeps.\<close>
fun uses_db :: "life_label \<Rightarrow> bool" where
  "uses_db (LSave ts key rs) = True"
| "uses_db (LSweeper (Fire err now)) = True"
| "uses_db _ = False"

text \<open>
  C13: shutdown is orderly and the exit code tells the truth. In every run of the process,
  whatever the configuration, a sweep or the save of a request only happens while the database
  handle is open; the handle is closed only after the server was shut down, no request is left
  in flight and the sweeper's loop is over, and only on the way to exit code 0 (or, with a
  cleaning interval that is not positive, to the crash its panic causes). A process that ends by
  itself exits with 0 or 1; code 0 means that its keys were usable, the server was shut down, no
  request is left in flight, the sweeper's loop has ended (with such an interval, by its panic)
  and no database handle is left open.
\<close>
theorem shutdown_is_orderly:
  assumes reach: "life_reach rawKeys (main_process PD rawInterval (main_repo dsn open_err ping_err migrate_err server)) s"
  shows "(\<forall>l s'. life_step rawKeys l s = Some s' \<longrightarrow> uses_db l \<longrightarrow> lc_db s = Some True)
    \<and> (lc_main s \<in> {MP_Final, MP_Exit 0} \<longrightarrow> lc_db s \<noteq> Some True)
    \<and> (lc_db s = Some False \<longrightarrow> lc_down s \<and> lc_flight s = 0 \<and> (\<forall>k. lc_ticker s = Some k \<longrightarrow> k_loop k \<in> {Exited, StartPanic})
        \<and> (lc_main s \<in> {MP_Final, MP_Exit 0} \<or> lc_main s = MP_Crash \<and> cleanup_interval PD rawInterval \<le> 0))
    \<and> (\<forall>c. lc_main s = MP_Exit c \<longrightarrow> c = 1
        \<or> c = 0 \<and> (\<exists>keys. parseAPIKeys rawKeys = Inr keys \<and> keys \<noteq> []) \<and> lc_down s \<and> lc_flight s = 0
          \<and> (\<forall>k. lc_ticker s = Some k \<longrightarrow> k_loop k = (if 0 < cleanup_interval PD rawInterval then Exited else StartPanic)))"
proof -
  let ?i = "cleanup_interval PD rawInterval"
  have inv: "life_inv ?i s"
    by (rule life_reach_inv [OF reach main_process_inv [OF main_repo_has_db]])
  have idle: "k_loop k = (if 0 < ?i then Exited else StartPanic)" if "lc_ticker s = Some k" "k_stops k = [S_Returned]" for k
    using stop_returned_idle [of ?i "lc_main s" k] inv that by (simp add: life_inv_def)
  have closed: "lc_down s \<and> lc_flight s = 0 \<and> (\<forall>k. lc_ticker s = Some k \<longrightarrow> k_loop k \<in> {Exited, StartPanic})
      \<and> (lc_main s \<in> {MP_Final, MP_Exit 0} \<or> lc_main s = MP_Crash \<and> ?i \<le> 0)" if "lc_db s = Some False"
  proof -
    have shut: "lc_down s" "lc_flight s = 0" "lc_main s \<in> {MP_Final, MP_Exit 0, MP_Crash}"
      and stops: "\<And>k. lc_ticker s = Some k \<Longrightarrow> k_stops k = [S_Returned]"
      and crash: "lc_main s = MP_Crash \<Longrightarrow> \<exists>k. lc_ticker s = Some k \<and> k_loop k = StartPanic"
      using inv that by (auto simp: life_inv_def db_ok_def)
    have "?i \<le> 0" if "lc_main s = MP_Crash"
      using crash [OF that] stops idle by (metis not_le start_pc.distinct(11))
    moreover have "k_loop k \<in> {Exited, StartPanic}" if "lc_ticker s = Some k" for k using idle [OF that stops [OF that]] by simp
    ultimately show ?thesis using shut by blast
  qed
  have use: "lc_db s = Some True" if "life_step rawKeys l s = Some s'" "uses_db l" for l s'
  proof -
    from that obtain k where k: "lc_ticker s = Some k" "k_loop k = Looping \<or> 0 < lc_flight s"
      by (auto simp: life_step_def elim!: uses_db.elims split: if_splits option.splits)
    have "lc_db s \<noteq> None" using inv k(1) by (simp add: life_inv_def)
    moreover have "lc_db s \<noteq> Some False" using closed k by fastforce
    ultimately show ?thesis by (metis (full_types) option.exhaust)
  qed
  have "started_ok rawKeys (lc_main s)" by (rule life_reach_started [OF reach]) (simp add: main_process_def)
  moreover have "\<forall>k. lc_ticker s = Some k \<longrightarrow> k_loop k = (if 0 < ?i then Exited else StartPanic)" if "lc_main s = MP_Exit 0"
    using idle inv that by (auto simp: life_inv_def ticker_ok_def)
  moreover have "lc_main s \<in> {MP_Final, MP_Exit 0} \<longrightarrow> lc_db s \<noteq> Some True" "quiet_at (lc_main s) (lc_down s) (lc_flight s)"
    using inv by (auto simp: life_inv_def db_ok_def)
  ultimately show ?thesis using use closed by (auto simp: usable_keys_def)
qed

text \<open>A process with a database, one request that saves, a sweep, a signal and a clean exit.\<close>
definition demo_keys :: string where
  "demo_keys = ''0123456789abcdef0123456789abcdef''"

definition demo_process :: "duration option \<Rightarrow> process" where
  "demo_process d = main_process (\<lambda>raw. d) ''x'' (main_repo ''dsn'' None None None (Some []))"

definition demo_life :: "life_label list" where
  "demo_life = [LSweeper Start, LMain 0, LListen None, LMain 0, LArrive, LSave id ''k'' [demo_result ''alpha'' 200],
     LSweeper (Fire None 5), LSignal, LRecvSig, LMain 0, LMain 0, LSweeper SeeStop, LMain 0, LMain 0, LDone,
     LDrained None, LMain 0, LMain 0]"

lemma demo_keys_usable: "parseAPIKeys demo_keys = Inr [demo_keys]"
  unfolding parseAPIKeys_def demo_keys_def by code_simp

lemma life_run_reach: "life_run rawKeys ls s = Some s' \<Longrightarrow> life_reach rawKeys s0 s \<Longrightarrow> life_reach rawKeys s0 s'"
  by (induction ls arbitrary: s) (auto split: option.splits intro: life_more)

lemma demo_process_eq: "demo_process d = \<lparr>lc_main = MP_Keys, lc_srv = NotSpawned, lc_down = False, lc_errs = [],
   lc_closed = False, lc_flight = 0, lc_ticker = Some (New_Ticker [] (case d of None \<Rightarrow> defaultCleanupInterval | Some i \<Rightarrow> i)),
   lc_db = Some True, lc_sig = False\<rparr>"
  by (simp add: demo_process_def main_process_def main_repo_def Open_def Migrate_def cleanup_interval_def)

lemma demo_life_run: "map_option (\<lambda>s. (lc_main s, lc_db s)) (life_run demo_keys demo_life (demo_process None))
    = Some (MP_Exit 0, Some False)"
  by (simp add: demo_life_def demo_process_eq life_step_def over_def demo_keys_usable New_Ticker_def Minute_def Second_def
      defaultCleanupInterval_def sweep_def DeleteExpired_def drained_def Shutdown_def exitCodeSuccess_def)

theorem shutdown_is_orderly_witness:
  "\<exists>s. life_run demo_keys demo_life (demo_process None) = Some s \<and> lc_main s = MP_Exit 0 \<and> lc_db s = Some False
     \<and> lc_down s \<and> lc_flight s = 0"
proof -
  obtain s where s: "life_run demo_keys demo_life (demo_process None) = Some s" "lc_main s = MP_Exit 0" "lc_db s = Some False"
    using demo_life_run by (auto simp: map_option_eq_Some)
  have "life_reach demo_keys (demo_process None) s" by (rule life_run_reach [OF s(1) life_start])
  from shutdown_is_orderly [OF this [unfolded demo_process_def]] s show ?thesis by auto
qed

text \<open>
  C14: a signal ends the process. With a positive cleaning interval, from every reachable state
  of a running process that has been signalled, moves of the main goroutine and of the sweeper
  alone lead to the exit, with code 0 if no request is in flight; and under every schedule the
  main goroutine makes at most ten moves before the process is over.
\<close>
theorem shutdown_completes:
  assumes reach: "life_reach rawKeys (main_process PD rawInterval (main_repo dsn open_err ping_err migrate_err server)) s"
    and "0 < cleanup_interval PD rawInterval" "\<not> over s" "lc_sig s"
  shows "(\<exists>ls s' c. list_all shutdown_move ls \<and> life_run rawKeys ls s = Some s'
      \<and> lc_main s' = MP_Exit c \<and> (lc_flight s = 0 \<longrightarrow> c = 0))
    \<and> (\<forall>ls s'. life_run rawKeys ls s = Some s' \<longrightarrow> length (filter of_main ls) \<le> 10)"
proof -
  have inv: "life_inv (cleanup_interval PD rawInterval) s"
    by (rule life_reach_inv [OF reach main_process_inv [OF main_repo_has_db]])
  have sig: "lc_main s \<noteq> MP_Keys \<and> lc_main s \<noteq> MP_Register"
    using inv assms(4) by (auto simp: life_inv_def)
  have stop: "exits rawKeys s" if "lc_main s = MP_Stop" "life_inv (cleanup_interval PD rawInterval) s" for s
    using exits_stop [OF that] assms(2) by simp
  have sel: "exits rawKeys s" if "lc_main s = MP_Select"
    by (rule exits_via [where l = LRecvSig])
       (use that inv assms(4) stop in \<open>simp_all add: life_step_def over_def life_inv_def db_ok_def ticker_ok_def\<close>)
  have "lc_ticker s \<noteq> None" if "lc_main s = MP_Stopping"
    using inv that by (auto simp: life_inv_def)
  then have "exits rawKeys s"
    using sig sel stop [OF _ inv] exits_stopping [OF _ inv assms(2)] exits_shutdown exits_drain exits_close exits_final assms(3)
    by (cases "lc_main s") (auto simp: over_def)
  moreover have "length (filter of_main ls) \<le> 10" if "life_run rawKeys ls s = Some s'" for ls s'
    using life_run_rank [OF that inv] life_rank_le [of s] by simp
  ultimately show ?thesis unfolding exits_def by blast
qed

theorem shutdown_completes_witness:
  "\<exists>s ls s'. life_run demo_keys [LMain 0, LListen None, LMain 0, LSignal] (demo_process None) = Some s
     \<and> life_run demo_keys ls s = Some s' \<and> lc_main s' = MP_Exit 0 \<and> list_all shutdown_move ls"
proof -
  have "map_option (\<lambda>s. (lc_main s, lc_sig s, lc_flight s))
      (life_run demo_keys [LMain 0, LListen None, LMain 0, LSignal] (demo_process None)) = Some (MP_Select, True, 0)"
    by (simp add: demo_process_eq life_step_def over_def demo_keys_usable)
  then obtain s where s: "life_run demo_keys [LMain 0, LListen None, LMain 0, LSignal] (demo_process None) = Some s"
    "lc_main s = MP_Select" "lc_sig s" "lc_flight s = 0" by (auto simp: map_option_eq_Some)
  have reach: "life_reach demo_keys (demo_process None) s" by (rule life_run_reach [OF s(1) life_start])
  have i: "0 < cleanup_interval (\<lambda>raw. None) ''x''" by (simp add: cleanup_interval_def defaultCleanupInterval_def duration_consts)
  have live: "\<not> over s" using s(2) by (simp add: over_def)
  from shutdown_completes [OF reach [unfolded demo_process_def] i live s(3)] s show ?thesis by auto
qed

text \<open>
  C40: a cleaning interval that is not positive ruins the process. \<^verbatim>\<open>CLEANUP_INTERVAL\<close> accepts
  such a value. With a repository, the first move of the sweeper's goroutine is then a panic, and
  from that moment on the whole process can crash at any time, whatever the other goroutines are
  doing; until it is over, one of these two moves is always possible. No sweep ever runs, and an
  exit with code 0 is only possible after the panic, when a shutdown overtakes the crash.
\<close>
theorem nonpositive_interval_ruins_process:
  assumes "life_reach rawKeys (main_process PD rawInterval (main_repo dsn open_err ping_err migrate_err server)) s"
    and "cleanup_interval PD rawInterval \<le> 0" "lc_ticker s = Some k"
  shows "life_step rawKeys (LSweeper (Fire err now)) s = None
    \<and> (\<not> over s \<longrightarrow>
        (if k_loop k = StartPanic then life_step rawKeys LCrash s = Some (s\<lparr>lc_main := MP_Crash\<rparr>)
         else life_step rawKeys (LSweeper Start) s = Some (s\<lparr>lc_ticker := Some (k\<lparr>k_loop := StartPanic, k_done := True\<rparr>)\<rparr>)))
    \<and> (lc_main s = MP_Exit 0 \<longrightarrow> k_loop k = StartPanic)"
proof -
  have inv: "life_inv (cleanup_interval PD rawInterval) s"
    by (rule life_reach_inv [OF assms(1) main_process_inv [OF main_repo_has_db]])
  then have ok: "ticker_ok (cleanup_interval PD rawInterval) (lc_main s) k" using assms(3) by (simp add: life_inv_def)
  have loop: "k_loop k = NotStarted \<or> k_loop k = StartPanic" "k_interval k \<le> 0"
    using ok assms(2) by (cases "k_loop k"; auto simp: ticker_ok_def cleanup_inv_def)+
  moreover have "k_loop k = StartPanic" if "lc_main s = MP_Exit 0"
    using stop_returned_idle [OF ok] ok that assms(2) by (auto simp: ticker_ok_def)
  ultimately show ?thesis using assms(3) by (auto simp: life_step_def)
qed

text \<open>Two runs: a request in flight when the panic ends the process, and a shutdown that overtakes it.\<close>
definition overtaking :: "life_label list" where
  "overtaking = [LMain 0, LListen None, LMain 0, LSignal, LRecvSig, LMain 0, LMain 0, LSweeper Start, LMain 0, LMain 0,
     LDrained None, LMain 0, LMain 0]"

theorem nonpositive_interval_ruins_process_witness:
  "\<exists>s s' s''. life_run demo_keys [LMain 0, LListen None, LArrive, LSweeper Start] (demo_process (Some 0)) = Some s
     \<and> lc_flight s = 1 \<and> life_step demo_keys LCrash s = Some s' \<and> lc_main s' = MP_Crash
     \<and> life_run demo_keys overtaking (demo_process (Some 0)) = Some s'' \<and> lc_main s'' = MP_Exit 0
     \<and> map_option k_loop (lc_ticker s'') = Some StartPanic"
proof -
  let ?k = "(New_Ticker [] 0)\<lparr>k_loop := StartPanic, k_done := True\<rparr>"
  have "map_option (\<lambda>s. (lc_main s, lc_flight s, lc_ticker s))
      (life_run demo_keys [LMain 0, LListen None, LArrive, LSweeper Start] (demo_process (Some 0))) = Some (MP_Register, 1, Some ?k)"
    by (simp add: demo_process_eq life_step_def over_def demo_keys_usable New_Ticker_def)
  then obtain s where s: "life_run demo_keys [LMain 0, LListen None, LArrive, LSweeper Start] (demo_process (Some 0)) = Some s"
    "lc_main s = MP_Register" "lc_flight s = 1" "lc_ticker s = Some ?k" by (auto simp: map_option_eq_Some)
  have "map_option (\<lambda>s. (lc_main s, map_option k_interval (lc_ticker s))) (life_run demo_keys overtaking (demo_process (Some 0)))
      = Some (MP_Exit 0, Some 0)"
    by (simp add: overtaking_def demo_process_eq life_step_def over_def demo_keys_usable New_Ticker_def drained_def Shutdown_def
        exitCodeSuccess_def)
  then obtain s'' k where s'': "life_run demo_keys overtaking (demo_process (Some 0)) = Some s''" "lc_main s'' = MP_Exit 0"
    "lc_ticker s'' = Some k" by (auto simp: map_option_eq_Some)
  have reach: "life_reach demo_keys (demo_process (Some 0)) s" "life_reach demo_keys (demo_process (Some 0)) s''"
    by (rule life_run_reach [OF s(1) life_start], rule life_run_reach [OF s''(1) life_start])
  have i: "cleanup_interval (\<lambda>raw. Some 0) ''x'' \<le> 0" by (simp add: cleanup_interval_def)
  have "life_step demo_keys LCrash s = Some (s\<lparr>lc_main := MP_Crash\<rparr>)"
    using nonpositive_interval_ruins_process [OF reach(1) [unfolded demo_process_def] i s(4)] s(2) by (simp add: over_def)
  moreover have "k_loop k = StartPanic"
    using nonpositive_interval_ruins_process [OF reach(2) [unfolded demo_process_def] i s''(3)] s''(2) by simp
  ultimately show ?thesis using s s'' by auto
qed

end
