(* ===== verification/Auth_Race.thy ===== *)
theory Auth_Race
  imports Middleware
begin

text \<open>
  \<^verbatim>\<open>internal/middleware/auth.go\<close> under concurrency. \<^verbatim>\<open>net/http\<close> serves every request on its own
  goroutine, so the handler of \<open>RequireAPIKey\<close> runs many times at once over one
  \<^verbatim>\<open>authFailureLimiter\<close>: a \<^verbatim>\<open>sync.Map\<close> from addresses to pointers to token buckets. The machine
  below takes one step for each atomic operation on shared data (\<^verbatim>\<open>Load\<close>, \<^verbatim>\<open>LoadOrStore\<close>,
  \<^verbatim>\<open>Tokens\<close>, \<^verbatim>\<open>Allow\<close>) and for the local decisions between them; the buckets live in a heap and
  the map holds their addresses. A limiter that loses the race of \<^verbatim>\<open>LoadOrStore\<close> is never
  published, so it is not allocated here.
\<close>

section \<open>The machine\<close>

text \<open>The flag of the first three is false inside \<^verbatim>\<open>check\<close> and true inside \<^verbatim>\<open>recordFailure\<close>.\<close>
datatype auth_pc = A_Start | A_Load bool | A_Store bool | A_Use bool nat | A_Verify
  | A_Next "string option" | A_Locked | A_Denied

record 'b auth_sys =
  am_heap :: "'b list"
  am_ips :: "string \<rightharpoonup> nat"
  am_now :: instant
  am_reqs :: "(http_request \<times> auth_pc) list"

datatype auth_label = A_Arrive http_request | A_Move nat instant

definition fresh_bucket :: "'b rate_lib \<Rightarrow> 'b" where
  "fresh_bucket L = (let l = newAuthFailureLimiter L in lib_New L (af_rate l) (af_burst l))"

fun auth_pc_step :: "'b rate_lib \<Rightarrow> string list \<Rightarrow> string list \<Rightarrow> instant \<Rightarrow> http_request \<Rightarrow> auth_pc
    \<Rightarrow> 'b list \<Rightarrow> (string \<rightharpoonup> nat) \<Rightarrow> (auth_pc \<times> 'b list \<times> (string \<rightharpoonup> nat)) option" where
  "auth_pc_step L keys skip now r A_Start h m =
     Some (if rq_path r \<in> set skip then A_Next (rq_client r) else A_Load False, h, m)"
| "auth_pc_step L keys skip now r (A_Load rec) h m =
     Some (case m (client_ip r) of Some a \<Rightarrow> A_Use rec a | None \<Rightarrow> A_Store rec, h, m)"
| "auth_pc_step L keys skip now r (A_Store rec) h m =
     (case m (client_ip r) of
        Some a \<Rightarrow> Some (A_Use rec a, h, m)
      | None \<Rightarrow> Some (A_Use rec (length h), h @ [fresh_bucket L], m(client_ip r \<mapsto> length h)))"
| "auth_pc_step L keys skip now r (A_Use False a) h m =
     Some (if f_le (Fin 1) (lib_Tokens L (h ! a) now) then A_Verify else A_Locked, h, m)"
| "auth_pc_step L keys skip now r A_Verify h m =
     Some (case verify_key keys r of None \<Rightarrow> A_Load True | Some k \<Rightarrow> A_Next (Some k), h, m)"
| "auth_pc_step L keys skip now r (A_Use True a) h m =
     Some (A_Denied, h[a := snd (lib_Allow L (h ! a) now)], m)"
| "auth_pc_step L keys skip now r _ h m = None"

text \<open>The clock never goes back.\<close>
fun auth_step :: "'b rate_lib \<Rightarrow> string list \<Rightarrow> string list \<Rightarrow> auth_label \<Rightarrow> 'b auth_sys \<Rightarrow> 'b auth_sys option" where
  "auth_step L keys skip (A_Arrive r) s = Some (s\<lparr>am_reqs := am_reqs s @ [(r, A_Start)]\<rparr>)"
| "auth_step L keys skip (A_Move k now) s =
     (if k < length (am_reqs s) \<and> am_now s \<le> now then
        case am_reqs s ! k of (r, p) \<Rightarrow>
          map_option (\<lambda>(p', h, m). \<lparr>am_heap = h, am_ips = m, am_now = now, am_reqs = (am_reqs s)[k := (r, p')]\<rparr>)
            (auth_pc_step L keys skip now r p (am_heap s) (am_ips s))
      else None)"

definition auth_init :: "instant \<Rightarrow> 'b auth_sys" where
  "auth_init t = \<lparr>am_heap = [], am_ips = Map.empty, am_now = t, am_reqs = []\<rparr>"

text \<open>States reached from the start through states that satisfy \<open>G\<close>.\<close>
inductive auth_reach :: "'b rate_lib \<Rightarrow> string list \<Rightarrow> string list \<Rightarrow> ('b auth_sys \<Rightarrow> bool) \<Rightarrow> instant \<Rightarrow> 'b auth_sys \<Rightarrow> bool"
  for L keys skip G t0 where
  auth_begin: "auth_reach L keys skip G t0 (auth_init t0)"
| auth_more: "auth_reach L keys skip G t0 s \<Longrightarrow> auth_step L keys skip l s = Some s' \<Longrightarrow> G s'
    \<Longrightarrow> auth_reach L keys skip G t0 s'"

fun auth_run :: "'b rate_lib \<Rightarrow> string list \<Rightarrow> string list \<Rightarrow> auth_label list \<Rightarrow> 'b auth_sys \<Rightarrow> 'b auth_sys option" where
  "auth_run L keys skip [] s = Some s"
| "auth_run L keys skip (l # ls) s =
     (case auth_step L keys skip l s of None \<Rightarrow> None | Some s' \<Rightarrow> auth_run L keys skip ls s')"

section \<open>One bucket for each address\<close>

fun auth_pc_ok :: "string list \<Rightarrow> (string \<rightharpoonup> nat) \<Rightarrow> http_request \<times> auth_pc \<Rightarrow> bool" where
  "auth_pc_ok keys m (r, A_Load rec) \<longleftrightarrow> (rec \<longrightarrow> m (client_ip r) \<noteq> None \<and> verify_key keys r = None)"
| "auth_pc_ok keys m (r, A_Store rec) \<longleftrightarrow> (rec \<longrightarrow> m (client_ip r) \<noteq> None \<and> verify_key keys r = None)"
| "auth_pc_ok keys m (r, A_Use rec a) \<longleftrightarrow> m (client_ip r) = Some a \<and> (rec \<longrightarrow> verify_key keys r = None)"
| "auth_pc_ok keys m (r, A_Verify) \<longleftrightarrow> m (client_ip r) \<noteq> None"
| "auth_pc_ok keys m (r, A_Denied) \<longleftrightarrow> m (client_ip r) \<noteq> None \<and> verify_key keys r = None"
| "auth_pc_ok keys m (r, A_Locked) \<longleftrightarrow> m (client_ip r) \<noteq> None"
| "auth_pc_ok keys m (r, p) \<longleftrightarrow> True"

definition auth_inv :: "string list \<Rightarrow> 'b auth_sys \<Rightarrow> bool" where
  "auth_inv keys s \<longleftrightarrow> (\<forall>ip a. am_ips s ip = Some a \<longrightarrow> a < length (am_heap s))
     \<and> (\<forall>ip ip' a. am_ips s ip = Some a \<longrightarrow> am_ips s ip' = Some a \<longrightarrow> ip = ip')
     \<and> list_all (auth_pc_ok keys (am_ips s)) (am_reqs s)"

lemma list_all_update: "list_all P xs \<Longrightarrow> P y \<Longrightarrow> list_all P (xs[k := y])"
  using set_update_subset_insert [of xs k y] by (auto simp: list_all_iff)

text \<open>What one step of a request does to the shared data.\<close>
lemma auth_pc_step_cases [consumes 1, case_names local create take]:
  assumes "auth_pc_step L keys skip now r p h m = Some (p', h', m')"
  obtains (local) "h' = h" "m' = m" "p' \<noteq> A_Denied"
  | (create) rec where "p = A_Store rec" "m (client_ip r) = None" "p' = A_Use rec (length h)"
      "h' = h @ [fresh_bucket L]" "m' = m(client_ip r \<mapsto> length h)"
  | (take) a where "p = A_Use True a" "p' = A_Denied" "h' = h[a := snd (lib_Allow L (h ! a) now)]" "m' = m"
proof -
  have "h' = h \<and> m' = m \<and> p' \<noteq> A_Denied
    \<or> (\<exists>rec. p = A_Store rec \<and> m (client_ip r) = None \<and> p' = A_Use rec (length h)
         \<and> h' = h @ [fresh_bucket L] \<and> m' = m(client_ip r \<mapsto> length h))
    \<or> (\<exists>a. p = A_Use True a \<and> p' = A_Denied \<and> h' = h[a := snd (lib_Allow L (h ! a) now)] \<and> m' = m)"
    using assms by (cases "(L, keys, skip, now, r, p, h, m)" rule: auth_pc_step.cases) (auto split: option.splits if_splits)
  with local create take show thesis by blast
qed

lemma auth_pc_ok_mono: "auth_pc_ok keys m q \<Longrightarrow> m (client_ip r) = None \<Longrightarrow> auth_pc_ok keys (m(client_ip r \<mapsto> a)) q"
  by (cases "(keys, m, q)" rule: auth_pc_ok.cases) auto

lemma auth_pc_step_ok:
  assumes "auth_pc_step L keys skip now r p h m = Some (p', h', m')" "auth_pc_ok keys m (r, p)"
  shows "auth_pc_ok keys m' (r, p')"
  using assms by (cases "(L, keys, skip, now, r, p, h, m)" rule: auth_pc_step.cases) (auto split: option.splits)

lemma auth_move_cases:
  assumes "auth_step L keys skip (A_Move k now) s = Some s'"
  obtains r p p' h m where "k < length (am_reqs s)" "am_now s \<le> now" "am_reqs s ! k = (r, p)"
    "auth_pc_step L keys skip now r p (am_heap s) (am_ips s) = Some (p', h, m)"
    "s' = \<lparr>am_heap = h, am_ips = m, am_now = now, am_reqs = (am_reqs s)[k := (r, p')]\<rparr>"
  using assms by (auto split: if_splits prod.splits)

lemma auth_inv_step:
  assumes st: "auth_step L keys skip l s = Some s'" and inv: "auth_inv keys s"
  shows "auth_inv keys s'"
proof (cases l)
  case (A_Move k now)
  from st [unfolded A_Move] obtain r p p' h m where k: "k < length (am_reqs s)" "am_reqs s ! k = (r, p)"
    and step: "auth_pc_step L keys skip now r p (am_heap s) (am_ips s) = Some (p', h, m)"
    and s': "s' = \<lparr>am_heap = h, am_ips = m, am_now = now, am_reqs = (am_reqs s)[k := (r, p')]\<rparr>"
    by (rule auth_move_cases)
  have "auth_pc_ok keys (am_ips s) (r, p)" using inv k by (force simp: auth_inv_def list_all_length)
  note mine = auth_pc_step_ok [OF step this]
  from step show ?thesis
  proof (cases rule: auth_pc_step_cases)
    case create
    have "list_all (auth_pc_ok keys m) (am_reqs s)"
      using inv create(2) by (auto simp: auth_inv_def create(5) list_all_iff intro!: auth_pc_ok_mono)
    note ok = list_all_update [OF this mine, of k]
    have "\<forall>ip a. m ip = Some a \<longrightarrow> a < length h" "\<forall>ip ip' a. m ip = Some a \<longrightarrow> m ip' = Some a \<longrightarrow> ip = ip'"
      using inv by (auto simp: auth_inv_def create less_Suc_eq)
    with ok show ?thesis by (simp add: auth_inv_def s')
  qed (use inv mine list_all_update [of "auth_pc_ok keys m" "am_reqs s" "(r, p')" k] in \<open>auto simp: auth_inv_def s'\<close>)
qed (use st inv in \<open>auto simp: auth_inv_def\<close>)

lemma auth_reach_inv: "auth_reach L keys skip G t0 s \<Longrightarrow> auth_inv keys s"
proof (induction rule: auth_reach.induct)
  case auth_begin
  show ?case by (simp add: auth_inv_def auth_init_def)
next
  case (auth_more s l s')
  from auth_inv_step [OF auth_more(2,4)] show ?case .
qed

section \<open>Guesses in flight\<close>

definition indices :: "('a \<Rightarrow> bool) \<Rightarrow> 'a list \<Rightarrow> nat set" where
  "indices P xs = {k. k < length xs \<and> P (xs ! k)}"

lemma finite_indices [simp]: "finite (indices P xs)"
  by (simp add: indices_def)

lemma indices_update: "k < length xs \<Longrightarrow>
    indices P (xs[k := y]) = (if P y then insert k (indices P xs) else indices P xs - {k})"
  by (auto simp: indices_def nth_list_update)

lemma indices_append: "\<not> P y \<Longrightarrow> indices P (xs @ [y]) = indices P xs"
  by (auto simp: indices_def nth_append less_Suc_eq)

text \<open>A guess from the address that has passed the check and is not yet recorded.\<close>
fun guessing :: "string list \<Rightarrow> string \<Rightarrow> http_request \<times> auth_pc \<Rightarrow> bool" where
  "guessing keys ip (r, p) \<longleftrightarrow> client_ip r = ip \<and> verify_key keys r = None
     \<and> (case p of A_Verify \<Rightarrow> True | A_Load rec \<Rightarrow> rec | A_Store rec \<Rightarrow> rec | A_Use rec a \<Rightarrow> rec | _ \<Rightarrow> False)"

fun denied :: "string \<Rightarrow> http_request \<times> auth_pc \<Rightarrow> bool" where
  "denied ip (r, p) \<longleftrightarrow> client_ip r = ip \<and> p = A_Denied"

definition window :: "string list \<Rightarrow> string \<Rightarrow> 'b auth_sys \<Rightarrow> nat" where
  "window keys ip s = card (indices (guessing keys ip) (am_reqs s))"

definition answered_401 :: "string \<Rightarrow> 'b auth_sys \<Rightarrow> nat" where
  "answered_401 ip s = card (indices (denied ip) (am_reqs s))"

definition bucket_of :: "'b rate_lib \<Rightarrow> string \<Rightarrow> 'b auth_sys \<Rightarrow> 'b" where
  "bucket_of L ip s = (case am_ips s ip of None \<Rightarrow> fresh_bucket L | Some a \<Rightarrow> am_heap s ! a)"

text \<open>
  The charging argument: \<open>n\<close> recordings took a token. Each of them can have spoilt at most
  \<open>K - 1\<close> other guesses in flight, the set \<open>D\<close>; a guess outside \<open>D\<close> still finds a token.
\<close>
definition charged :: "'b rate_lib \<Rightarrow> ('b \<Rightarrow> instant \<Rightarrow> rat) \<Rightarrow> string list \<Rightarrow> string \<Rightarrow> nat \<Rightarrow> instant \<Rightarrow> 'b auth_sys \<Rightarrow> bool" where
  "charged L lev keys ip K t0 s \<longleftrightarrow> (\<exists>n D. D \<subseteq> indices (guessing keys ip) (am_reqs s)
     \<and> (indices (guessing keys ip) (am_reqs s) \<subseteq> D \<or> 1 \<le> lev (bucket_of L ip s) (am_now s))
     \<and> answered_401 ip s + card D \<le> K * n
     \<and> of_nat n + lev (bucket_of L ip s) (am_now s) \<le> 10 + of_int (am_now s - t0) / of_int (6 * Second))"

text \<open>Steps that touch neither the bucket nor the answers of the address keep the charge.\<close>
lemma charged_quiet:
  assumes law: "bucket_law L lev" and c: "charged L lev keys ip K t0 s" and t: "am_now s \<le> am_now s'"
    and b: "bucket_of L ip s' = bucket_of L ip s" and d: "answered_401 ip s' = answered_401 ip s"
    and w: "indices (guessing keys ip) (am_reqs s') \<subseteq> indices (guessing keys ip) (am_reqs s)
      \<or> 1 \<le> lev (bucket_of L ip s) (am_now s')"
  shows "charged L lev keys ip K t0 s'"
proof -
  let ?W = "indices (guessing keys ip) (am_reqs s)" and ?W' = "indices (guessing keys ip) (am_reqs s')"
  let ?b = "bucket_of L ip s"
  obtain n D where D: "D \<subseteq> ?W" "?W \<subseteq> D \<or> 1 \<le> lev ?b (am_now s)" "answered_401 ip s + card D \<le> K * n"
    and n: "of_nat n + lev ?b (am_now s) \<le> 10 + of_int (am_now s - t0) / of_int (6 * Second)"
    using c by (auto simp: charged_def)
  have up: "lev ?b (am_now s) \<le> lev ?b (am_now s')"
    and grow: "lev ?b (am_now s') \<le> lev ?b (am_now s) + of_int (am_now s' - am_now s) / of_int (6 * Second)"
    using law t by (auto simp: bucket_law_def)
  have "of_int (am_now s' - t0) / of_int (6 * Second)
      = (of_int (am_now s - t0) / of_int (6 * Second) + of_int (am_now s' - am_now s) / of_int (6 * Second) :: rat)"
    by (simp flip: add_divide_distrib)
  with n grow have n': "of_nat n + lev ?b (am_now s') \<le> 10 + of_int (am_now s' - t0) / of_int (6 * Second)" by linarith
  have "card (D \<inter> ?W') \<le> card D" using D(1) by (meson card_mono finite_indices finite_subset inf_le1)
  moreover have "?W' \<subseteq> D \<inter> ?W' \<or> 1 \<le> lev ?b (am_now s')" using w D(2) up by auto
  ultimately show ?thesis using D(3) n' unfolding charged_def b d
    by (intro exI [of _ n] exI [of _ "D \<inter> ?W'"]) auto
qed

lemma charged_start: "bucket_law L lev \<Longrightarrow> charged L lev keys ip K t0 (auth_init t0)"
  unfolding charged_def
  by (intro exI [of _ 0] exI [of _ "{}"]) (simp add: auth_init_def answered_401_def indices_def bucket_of_def
      bucket_law_def fresh_bucket_def newAuthFailureLimiter_def)

text \<open>A recording: if a token was left, every other guess in flight is charged to it.\<close>
lemma charged_take:
  assumes law: "bucket_law L lev" and c: "charged L lev keys ip K t0 s"
    and k: "k < length (am_reqs s)" "am_reqs s ! k = (r, A_Use True a)" "client_ip r = ip" "verify_key keys r = None"
    and a: "am_ips s ip = Some a" "a < length (am_heap s)" and t: "am_now s \<le> now"
    and s': "s' = \<lparr>am_heap = (am_heap s)[a := snd (lib_Allow L (am_heap s ! a) now)], am_ips = am_ips s, am_now = now,
      am_reqs = (am_reqs s)[k := (r, A_Denied)]\<rparr>" and K: "window keys ip s \<le> K"
  shows "charged L lev keys ip K t0 s'"
proof -
  let ?W = "indices (guessing keys ip) (am_reqs s)"
  let ?b = "am_heap s ! a" and ?s = "s\<lparr>am_now := now\<rparr>"
  have "charged L lev keys ip K t0 ?s"
    by (rule charged_quiet [OF law c]) (use t in \<open>simp_all add: bucket_of_def answered_401_def split: option.splits\<close>)
  then obtain n D where D: "D \<subseteq> ?W" "?W \<subseteq> D \<or> 1 \<le> lev ?b now" "answered_401 ip s + card D \<le> K * n"
    and n: "of_nat n + lev ?b now \<le> 10 + of_int (now - t0) / of_int (6 * Second)"
    using a by (auto simp: charged_def bucket_of_def answered_401_def)
  have kW: "k \<in> ?W" using k by (simp add: indices_def)
  have W': "indices (guessing keys ip) (am_reqs s') = ?W - {k}" using k by (simp add: s' indices_update)
  have "k \<notin> indices (denied ip) (am_reqs s)" using k by (simp add: indices_def)
  then have d': "answered_401 ip s' = Suc (answered_401 ip s)"
    using k by (simp add: s' answered_401_def indices_update)
  have b': "bucket_of L ip s' = snd (lib_Allow L ?b now)" using a by (simp add: s' bucket_of_def)
  have cW: "Suc (card (?W - {k})) = card ?W" using card_Suc_Diff1 [OF finite_indices kW] .
  show ?thesis
  proof (cases "1 \<le> lev ?b now")
    case True
    then have "lev (snd (lib_Allow L ?b now)) now \<le> lev ?b now - 1"
      using law unfolding bucket_law_def by (metis add.right_neutral diff_self div_0 of_int_0 order_refl)
    then have "of_nat (Suc n) + lev (bucket_of L ip s') now \<le> 10 + of_int (now - t0) / of_int (6 * Second)"
      using n by (simp add: b')
    moreover have "answered_401 ip s' + card (?W - {k}) \<le> K * Suc n" using D(3) K cW by (simp add: d' window_def)
    ultimately show ?thesis unfolding charged_def W'
      by (intro exI [of _ "Suc n"] exI [of _ "?W - {k}"]) (simp add: s')
  next
    case False
    then have "?W = D" using D(1,2) by auto
    moreover have "lev (snd (lib_Allow L ?b now)) now \<le> lev ?b now" using law False by (auto simp: bucket_law_def)
    then have "of_nat n + lev (bucket_of L ip s') now \<le> 10 + of_int (now - t0) / of_int (6 * Second)"
      using n by (simp add: b')
    ultimately show ?thesis using D(3) cW unfolding charged_def W'
      by (intro exI [of _ n] exI [of _ "?W - {k}"]) (simp add: s' d' [unfolded s'])
  qed
qed

lemma guessing_enters:
  assumes "auth_pc_step L keys skip now r p h m = Some (p', h, m)" "\<not> guessing keys ip (r, p)" "guessing keys ip (r, p')"
    "auth_pc_ok keys m (r, p)"
  shows "\<exists>a. p = A_Use False a \<and> m ip = Some a \<and> f_le (Fin 1) (lib_Tokens L (h ! a) now)"
  using assms
  by (cases "(L, keys, skip, now, r, p, h, m)" rule: auth_pc_step.cases) (auto split: option.splits if_splits)

lemma charged_step:
  assumes law: "bucket_law L lev" and st: "auth_step L keys skip l s = Some s'" and inv: "auth_inv keys s"
    and c: "charged L lev keys ip K t0 s" and K: "window keys ip s \<le> K"
  shows "charged L lev keys ip K t0 s'"
proof (cases l)
  case (A_Arrive r)
  with st show ?thesis
    by (intro charged_quiet [OF law c]) (auto simp: bucket_of_def answered_401_def indices_append split: option.splits)
next
  case (A_Move k now)
  from st [unfolded A_Move] obtain r p p' h m where k: "k < length (am_reqs s)" "am_reqs s ! k = (r, p)"
    and t: "am_now s \<le> now"
    and step: "auth_pc_step L keys skip now r p (am_heap s) (am_ips s) = Some (p', h, m)"
    and s': "s' = \<lparr>am_heap = h, am_ips = m, am_now = now, am_reqs = (am_reqs s)[k := (r, p')]\<rparr>"
    by (rule auth_move_cases)
  have ok: "auth_pc_ok keys (am_ips s) (r, p)" using inv k by (force simp: auth_inv_def list_all_length)
  have "k \<notin> indices (denied ip) (am_reqs s)" using step k by (auto simp: indices_def)
  then have same: "answered_401 ip s' = answered_401 ip s" if "\<not> denied ip (r, p')"
    using that k(1) by (simp add: s' answered_401_def indices_update del: denied.simps)
  note quiet = charged_quiet [OF law c, of s']
  from step show ?thesis
  proof (cases rule: auth_pc_step_cases)
    case local
    have "1 \<le> lev (bucket_of L ip s) now" if "guessing keys ip (r, p')" "\<not> guessing keys ip (r, p)"
      using guessing_enters [OF step [unfolded local] that(2,1) ok] law by (auto simp: bucket_law_def bucket_of_def)
    moreover have "k \<in> indices (guessing keys ip) (am_reqs s)" if "guessing keys ip (r, p)" using that k by (simp add: indices_def)
    ultimately have "indices (guessing keys ip) (am_reqs s') \<subseteq> indices (guessing keys ip) (am_reqs s)
        \<or> 1 \<le> lev (bucket_of L ip s) (am_now s')"
      using k(1) by (auto simp: s' indices_update simp del: guessing.simps)
    then show ?thesis using quiet same t local by (simp add: s' bucket_of_def cong: option.case_cong)
  next
    case (create rec)
    have "bucket_of L ip s' = bucket_of L ip s"
      using inv create by (auto simp: s' bucket_of_def auth_inv_def nth_append split: option.splits)
    moreover have "\<not> guessing keys ip (r, p')" using ok create by auto
    ultimately show ?thesis using quiet same t k(1) create by (auto simp: s' indices_update)
  next
    case (take a)
    show ?thesis
    proof (cases "client_ip r = ip")
      case True
      then show ?thesis
        using charged_take [OF law c k(1) _ _ _ _ _ t _ K, of r a s'] k(2) take ok inv s' by (auto simp: auth_inv_def)
    next
      case False
      then have "am_ips s ip \<noteq> Some a" using ok take inv by (auto simp: auth_inv_def)
      then have "bucket_of L ip s' = bucket_of L ip s" using take by (auto simp: s' bucket_of_def split: option.splits)
      with False show ?thesis using quiet same t k(1) take by (auto simp: s' indices_update)
    qed
  qed
qed

lemma charged_reach:
  assumes "auth_reach L keys skip (\<lambda>s. window keys ip s \<le> K) t0 s" "bucket_law L lev"
  shows "charged L lev keys ip K t0 s \<and> window keys ip s \<le> K"
  using assms(1)
proof (induction rule: auth_reach.induct)
  case auth_begin
  show ?case using charged_start [OF assms(2)] by (simp add: window_def auth_init_def indices_def)
next
  case (auth_more s l s')
  from charged_step [OF assms(2) auth_more(2) auth_reach_inv [OF auth_more(1)]] auth_more show ?case by simp
qed

section \<open>A request that is not disturbed\<close>

lemma auth_run_append:
  "auth_run L keys skip (ls @ ls') s = Option.bind (auth_run L keys skip ls s) (auth_run L keys skip ls')"
  by (induction ls arbitrary: s) (auto split: option.splits)

lemma auth_run_inv: "auth_run L keys skip ls s = Some s' \<Longrightarrow> auth_inv keys s \<Longrightarrow> auth_inv keys s'"
  by (induction ls arbitrary: s) (auto split: option.splits intro: auth_inv_step)

text \<open>Request \<open>k\<close> runs alone from \<open>s\<close> to \<open>s'\<close>, where it is at \<open>p\<close>.\<close>
definition solo :: "'b rate_lib \<Rightarrow> string list \<Rightarrow> string list \<Rightarrow> nat \<Rightarrow> http_request \<Rightarrow> auth_pc \<Rightarrow> 'b auth_sys \<Rightarrow> 'b auth_sys \<Rightarrow> bool" where
  "solo L keys skip k r p s s' \<longleftrightarrow> (\<exists>ls. list_all (\<lambda>l. \<exists>now. l = A_Move k now) ls
     \<and> auth_run L keys skip ls s = Some s' \<and> am_reqs s' = (am_reqs s)[k := (r, p)])"

lemma solo_reqs: "solo L keys skip k r p s s' \<Longrightarrow> am_reqs s' = (am_reqs s)[k := (r, p)]"
  by (auto simp: solo_def)

lemma solo_move:
  assumes "k < length (am_reqs s)" "am_reqs s ! k = (r, p)" "am_now s \<le> now"
    "auth_pc_step L keys skip now r p (am_heap s) (am_ips s) = Some (p', h, m)"
  shows "solo L keys skip k r p' s \<lparr>am_heap = h, am_ips = m, am_now = now, am_reqs = (am_reqs s)[k := (r, p')]\<rparr>"
  unfolding solo_def using assms by (intro exI [of _ "[A_Move k now]"]) simp

lemma solo_trans:
  assumes "solo L keys skip k r p s s1" "solo L keys skip k r p' s1 s2"
  shows "solo L keys skip k r p' s s2"
proof -
  obtain ls ls' where "list_all (\<lambda>l. \<exists>now. l = A_Move k now) (ls @ ls')" "auth_run L keys skip (ls @ ls') s = Some s2"
    "am_reqs s2 = (am_reqs s)[k := (r, p')]"
    using assms by (auto simp: solo_def auth_run_append)
  then show ?thesis unfolding solo_def by blast
qed

text \<open>Moves add no request.\<close>
lemma auth_moves_reach:
  assumes "auth_run L keys skip ls s = Some s'" "list_all (\<lambda>l. \<exists>now. l = A_Move k now) ls"
    "auth_reach L keys skip (\<lambda>s. length (am_reqs s) \<le> n) t0 s" "length (am_reqs s) \<le> n"
  shows "auth_reach L keys skip (\<lambda>s. length (am_reqs s) \<le> n) t0 s'"
  using assms
proof (induction ls arbitrary: s)
  case (Cons l ls)
  then obtain s1 where st: "auth_step L keys skip l s = Some s1" and run: "auth_run L keys skip ls s1 = Some s'"
    by (auto split: option.splits)
  have "length (am_reqs s1) = length (am_reqs s)" using Cons.prems(2) st by (auto elim!: auth_move_cases)
  with Cons.prems Cons.IH [OF run] auth_more [OF Cons.prems(3) st] show ?case by simp
qed simp

lemma solo_reach:
  assumes "solo L keys skip k r p s s'" "auth_reach L keys skip (\<lambda>s. length (am_reqs s) \<le> n) t0 s" "length (am_reqs s) \<le> n"
  shows "auth_reach L keys skip (\<lambda>s. length (am_reqs s) \<le> n) t0 s'"
  using assms by (auto simp: solo_def intro: auth_moves_reach)

lemma auth_reach_mono:
  assumes "auth_reach L keys skip G t0 s" "\<And>s. G s \<Longrightarrow> G' s"
  shows "auth_reach L keys skip G' t0 s"
  using assms(1) by (induction rule: auth_reach.induct) (auto intro: auth_begin auth_more assms(2))

lemma solo_inv: "solo L keys skip k r p s s' \<Longrightarrow> auth_inv keys s \<Longrightarrow> auth_inv keys s'"
  by (auto simp: solo_def intro: auth_run_inv)

text \<open>The limiter of the sequential model that the heap and the map represent.\<close>
definition auth_view :: "'b rate_lib \<Rightarrow> 'b auth_sys \<Rightarrow> 'b authFailureLimiter" where
  "auth_view L s = (newAuthFailureLimiter L)\<lparr>af_ips := (\<lambda>ip. map_option (nth (am_heap s)) (am_ips s ip))\<rparr>"

lemma solo_getOrCreate:
  assumes k: "k < length (am_reqs s)" "am_reqs s ! k = (r, A_Load rec)" "am_now s \<le> now" and inv: "auth_inv keys s"
  obtains s' a where "solo L keys skip k r (A_Use rec a) s s'" "am_now s' = now" "am_ips s' (client_ip r) = Some a"
    "getOrCreate L (client_ip r) (auth_view L s) = (am_heap s' ! a, auth_view L s')"
proof (cases "am_ips s (client_ip r)")
  case (Some a)
  let ?s = "\<lparr>am_heap = am_heap s, am_ips = am_ips s, am_now = now, am_reqs = (am_reqs s)[k := (r, A_Use rec a)]\<rparr>"
  have "solo L keys skip k r (A_Use rec a) s ?s" using Some by (intro solo_move [OF k]) simp
  then show thesis using Some by (intro that [of a ?s]) (simp_all add: getOrCreate_def auth_view_def)
next
  case None
  let ?s1 = "\<lparr>am_heap = am_heap s, am_ips = am_ips s, am_now = now, am_reqs = (am_reqs s)[k := (r, A_Store rec)]\<rparr>"
  let ?h = "am_heap s @ [fresh_bucket L]" and ?m = "(am_ips s)(client_ip r \<mapsto> length (am_heap s))"
  let ?s2 = "\<lparr>am_heap = ?h, am_ips = ?m, am_now = now, am_reqs = (am_reqs ?s1)[k := (r, A_Use rec (length (am_heap s)))]\<rparr>"
  have "solo L keys skip k r (A_Store rec) s ?s1" using None by (intro solo_move [OF k]) simp
  moreover have "solo L keys skip k r (A_Use rec (length (am_heap s))) ?s1 ?s2"
    using None k by (intro solo_move [where p = "A_Store rec"]) simp_all
  ultimately have "solo L keys skip k r (A_Use rec (length (am_heap s))) s ?s2" by (rule solo_trans)
  moreover have "(\<lambda>ip. map_option (nth ?h) (?m ip))
      = (\<lambda>ip. map_option (nth (am_heap s)) (am_ips s ip))(client_ip r \<mapsto> fresh_bucket L)"
    using inv by (auto simp: fun_eq_iff auth_inv_def nth_append intro!: option.map_cong)
  then have "getOrCreate L (client_ip r) (auth_view L s) = (?h ! length (am_heap s), auth_view L ?s2)"
    using None by (simp add: getOrCreate_def auth_view_def fresh_bucket_def newAuthFailureLimiter_def Let_def)
  ultimately show thesis by (intro that [of "length (am_heap s)" ?s2]) simp_all
qed

text \<open>What the client and the next handler see of a request that stopped at \<open>p\<close>.\<close>
definition auth_response :: "'b rate_lib \<Rightarrow> 's handler \<Rightarrow> http_request \<Rightarrow> writer \<Rightarrow> 's \<Rightarrow> auth_pc \<Rightarrow> 'b auth_sys
    \<Rightarrow> (writer outcome \<times> 'b authFailureLimiter \<times> 's) option" where
  "auth_response L next r w st p s =
     (case p of
        A_Locked \<Rightarrow> Some (Returned (writeTooManyRequests w), (auth_view L s, st))
      | A_Denied \<Rightarrow> Some (Returned (writeUnauthorized w), (auth_view L s, st))
      | A_Next c \<Rightarrow> map_option (\<lambda>(out, st'). (out, (auth_view L s, st'))) (next (r\<lparr>rq_client := c\<rparr>) w st)
      | _ \<Rightarrow> None)"

lemma solo_checked:
  assumes k: "k < length (am_reqs s)" "am_reqs s ! k = (r, A_Start)" "am_now s \<le> now" and inv: "auth_inv keys s"
    and path: "rq_path r \<notin> set skip" and c: "check_budget L now (client_ip r) (auth_view L s) = (ok, l)"
  obtains s' where "solo L keys skip k r (if ok then A_Verify else A_Locked) s s'" "am_now s' = now" "auth_view L s' = l"
proof -
  let ?s1 = "\<lparr>am_heap = am_heap s, am_ips = am_ips s, am_now = now, am_reqs = (am_reqs s)[k := (r, A_Load False)]\<rparr>"
  have 1: "solo L keys skip k r (A_Load False) s ?s1" using path by (intro solo_move [OF k]) simp
  have k1: "k < length (am_reqs ?s1)" "am_reqs ?s1 ! k = (r, A_Load False)" "am_now ?s1 \<le> now" using k by simp_all
  obtain s2 a where 2: "solo L keys skip k r (A_Use False a) ?s1 s2" "am_now s2 = now" "am_ips s2 (client_ip r) = Some a"
    and g: "getOrCreate L (client_ip r) (auth_view L ?s1) = (am_heap s2 ! a, auth_view L s2)"
    by (rule solo_getOrCreate [OF k1 solo_inv [OF 1 inv], where L = L and skip = skip])
  let ?p = "if ok then A_Verify else A_Locked"
  let ?s3 = "\<lparr>am_heap = am_heap s2, am_ips = am_ips s2, am_now = now, am_reqs = (am_reqs s2)[k := (r, ?p)]\<rparr>"
  have l: "ok = f_le (Fin 1) (lib_Tokens L (am_heap s2 ! a) now)" "l = auth_view L s2"
    using c g by (simp_all add: check_budget_def auth_view_def)
  have k2: "k < length (am_reqs s2)" "am_reqs s2 ! k = (r, A_Use False a)" "am_now s2 \<le> now"
    using 2 k by (auto simp: solo_def)
  have "solo L keys skip k r ?p s2 ?s3" by (rule solo_move [OF k2]) (simp add: l(1))
  with 1 2(1) have "solo L keys skip k r ?p s ?s3" by (blast intro: solo_trans)
  moreover have "auth_view L ?s3 = l" by (simp add: l auth_view_def)
  ultimately show thesis by (intro that [of ?s3]) simp_all
qed

lemma solo_recorded:
  assumes k: "k < length (am_reqs s)" "am_reqs s ! k = (r, A_Load True)" "am_now s \<le> now" and inv: "auth_inv keys s"
  obtains s' where "solo L keys skip k r A_Denied s s'" "am_now s' = now" "auth_view L s' = recordFailure L now (client_ip r) (auth_view L s)"
proof -
  obtain s2 a where 2: "solo L keys skip k r (A_Use True a) s s2" "am_now s2 = now" "am_ips s2 (client_ip r) = Some a"
    and g: "getOrCreate L (client_ip r) (auth_view L s) = (am_heap s2 ! a, auth_view L s2)"
    by (rule solo_getOrCreate [OF k inv, where L = L and skip = skip])
  have inv2: "auth_inv keys s2" by (rule solo_inv [OF 2(1) inv])
  have k2: "k < length (am_reqs s2)" "am_reqs s2 ! k = (r, A_Use True a)" "am_now s2 \<le> now"
    using 2 k by (auto simp: solo_def)
  let ?b = "snd (lib_Allow L (am_heap s2 ! a) now)"
  let ?s3 = "\<lparr>am_heap = (am_heap s2)[a := ?b], am_ips = am_ips s2, am_now = now, am_reqs = (am_reqs s2)[k := (r, A_Denied)]\<rparr>"
  have "solo L keys skip k r A_Denied s2 ?s3" by (rule solo_move [OF k2]) simp
  with 2(1) have "solo L keys skip k r A_Denied s ?s3" by (rule solo_trans)
  moreover have "map_option (nth ((am_heap s2)[a := ?b])) (am_ips s2 ip)
      = ((\<lambda>ip. map_option (nth (am_heap s2)) (am_ips s2 ip))(client_ip r \<mapsto> ?b)) ip" for ip
    using inv2 2(3) by (cases "am_ips s2 ip") (auto simp: auth_inv_def nth_list_update)
  then have "auth_view L ?s3 = recordFailure L now (client_ip r) (auth_view L s)"
    by (simp add: recordFailure_def g) (simp add: auth_view_def fun_eq_iff)
  ultimately show thesis by (intro that [of ?s3]) simp_all
qed

lemma solo_request:
  assumes k: "k < length (am_reqs s)" "am_reqs s ! k = (r, A_Start)" "am_now s \<le> now0" "now0 \<le> now1"
    and inv: "auth_inv keys s"
  shows "\<exists>s' p. solo L keys skip k r p s s'
    \<and> RequireAPIKey L now0 now1 next keys skip r w (auth_view L s, st) = auth_response L next r w st p s'"
proof (cases "rq_path r \<in> set skip")
  case True
  let ?s = "\<lparr>am_heap = am_heap s, am_ips = am_ips s, am_now = now0, am_reqs = (am_reqs s)[k := (r, A_Next (rq_client r))]\<rparr>"
  have "solo L keys skip k r (A_Next (rq_client r)) s ?s" using True by (intro solo_move [OF k(1-3)]) simp
  moreover have "auth_view L ?s = auth_view L s" by (simp add: auth_view_def)
  ultimately show ?thesis using True by (intro exI conjI) (assumption, simp add: RequireAPIKey_def auth_response_def)
next
  case path: False
  obtain ok l where c: "check_budget L now0 (client_ip r) (auth_view L s) = (ok, l)"
    by (cases "check_budget L now0 (client_ip r) (auth_view L s)")
  obtain s1 where 1: "solo L keys skip k r (if ok then A_Verify else A_Locked) s s1" "am_now s1 = now0" "auth_view L s1 = l"
    by (rule solo_checked [OF k(1-3) inv path c])
  note spec = RequireAPIKey_verify [OF path, of L now0 now1 "next" keys w "auth_view L s" st]
  show ?thesis
  proof (cases ok)
    case False
    with 1 c show ?thesis by (intro exI [of _ s1] exI [of _ A_Locked]) (simp add: spec auth_response_def)
  next
    case True
    have k1: "k < length (am_reqs s1)" "am_reqs s1 ! k = (r, A_Verify)" "am_now s1 \<le> now1"
      using 1(1,2) k True by (auto simp: solo_def)
    let ?p = "case verify_key keys r of None \<Rightarrow> A_Load True | Some i \<Rightarrow> A_Next (Some i)"
    let ?s2 = "\<lparr>am_heap = am_heap s1, am_ips = am_ips s1, am_now = now1, am_reqs = (am_reqs s1)[k := (r, ?p)]\<rparr>"
    have "solo L keys skip k r ?p s1 ?s2" by (rule solo_move [OF k1]) simp
    with 1(1) have 2: "solo L keys skip k r ?p s ?s2" by (rule solo_trans)
    have v: "auth_view L ?s2 = l" using 1(3) by (simp add: auth_view_def)
    show ?thesis
    proof (cases "verify_key keys r")
      case (Some i)
      with 2 v c True show ?thesis by (intro exI conjI) (assumption, simp add: spec auth_response_def)
    next
      case None
      have k2: "k < length (am_reqs ?s2)" "am_reqs ?s2 ! k = (r, A_Load True)" "am_now ?s2 \<le> now1"
        using k1 None by simp_all
      obtain s3 where 3: "solo L keys skip k r A_Denied ?s2 s3" "am_now s3 = now1"
        "auth_view L s3 = recordFailure L now1 (client_ip r) (auth_view L ?s2)"
        by (rule solo_recorded [OF k2 solo_inv [OF 2 inv]])
      from solo_trans [OF 2 3(1)] 3(3) v c True None show ?thesis
        by (intro exI [of _ s3] exI [of _ A_Denied]) (simp add: spec auth_response_def)
    qed
  qed
qed

section \<open>Answers and moves\<close>












section \<open>Everybody checks, then everybody records\<close>

abbreviation crowd :: "'b rate_lib \<Rightarrow> string list \<Rightarrow> string list \<Rightarrow> nat \<Rightarrow> instant \<Rightarrow> 'b auth_sys \<Rightarrow> bool" where
  "crowd L keys skip n t0 s \<equiv> auth_reach L keys skip (\<lambda>s. length (am_reqs s) \<le> n) t0 s \<and> am_now s = t0"

lemma crowd_arrives:
  "i \<le> n \<Longrightarrow> \<exists>s. crowd L keys skip n t0 s \<and> am_reqs s = replicate i (r, A_Start) \<and> auth_view L s = newAuthFailureLimiter L"
proof (induction i)
  case 0
  show ?case by (intro exI [of _ "auth_init t0"]) (simp add: auth_begin, simp add: auth_init_def auth_view_def newAuthFailureLimiter_def)
next
  case (Suc i)
  then obtain s where s: "crowd L keys skip n t0 s" "am_reqs s = replicate i (r, A_Start)" "auth_view L s = newAuthFailureLimiter L"
    by auto
  let ?s = "s\<lparr>am_reqs := am_reqs s @ [(r, A_Start)]\<rparr>"
  have "auth_step L keys skip (A_Arrive r) s = Some ?s" by simp
  then have "crowd L keys skip n t0 ?s" using s Suc.prems auth_more [of L keys skip _ t0 s "A_Arrive r" ?s] by simp
  moreover have "am_reqs ?s = replicate (Suc i) (r, A_Start)" using s(2) by (simp add: replicate_append_same)
  moreover have "auth_view L ?s = newAuthFailureLimiter L" using s(3) by (simp add: auth_view_def)
  ultimately show ?case by blast
qed

lemma replicate_front:
  assumes "i < n"
  shows "(replicate i x @ replicate (n - i) y)[i := x] = replicate (Suc i) x @ replicate (n - Suc i) y"
    "(replicate i x @ replicate (n - i) y) ! i = y"
proof -
  obtain d where n: "n = i + Suc d" using assms by (metis add_Suc_right less_imp_Suc_add)
  show "(replicate i x @ replicate (n - i) y)[i := x] = replicate (Suc i) x @ replicate (n - Suc i) y"
    by (simp add: n list_update_append replicate_app_Cons_same)
  show "(replicate i x @ replicate (n - i) y) ! i = y" by (simp add: n nth_append)
qed

lemma crowd_checks:
  assumes path: "rq_path r \<notin> set skip" and tok: "f_le (Fin 1) (lib_Tokens L (fresh_bucket L) t0)"
  shows "i \<le> n \<Longrightarrow> \<exists>s. crowd L keys skip n t0 s \<and> am_reqs s = replicate i (r, A_Verify) @ replicate (n - i) (r, A_Start)
    \<and> bucket_at L (client_ip r) (auth_view L s) = fresh_bucket L"
proof (induction i)
  case 0
  obtain s where "crowd L keys skip n t0 s" "am_reqs s = replicate n (r, A_Start)" "auth_view L s = newAuthFailureLimiter L"
    using crowd_arrives [OF order_refl] by blast
  then show ?case
    by (intro exI [of _ s]) (simp add: bucket_at_def getOrCreate_def fresh_bucket_def newAuthFailureLimiter_def Let_def)
next
  case (Suc i)
  then obtain s where s: "crowd L keys skip n t0 s" "am_reqs s = replicate i (r, A_Verify) @ replicate (n - i) (r, A_Start)"
    "bucket_at L (client_ip r) (auth_view L s) = fresh_bucket L" by auto
  have i: "i < length (am_reqs s)" "am_reqs s ! i = (r, A_Start)" "am_now s \<le> t0"
    using s(1,2) Suc.prems by (simp_all add: replicate_front)
  obtain ok l where c: "check_budget L t0 (client_ip r) (auth_view L s) = (ok, l)"
    by (cases "check_budget L t0 (client_ip r) (auth_view L s)")
  note b = check_budget_bucket [OF c]
  have ok: ok using b(1) s(3) tok by simp
  obtain s' where s': "solo L keys skip i r A_Verify s s'" "am_now s' = t0" "auth_view L s' = l"
    using solo_checked [OF i auth_reach_inv path c] s(1) ok by (metis (full_types))
  have "crowd L keys skip n t0 s'" using solo_reach [OF s'(1)] s(1,2) s'(2) Suc.prems by simp
  moreover have "am_reqs s' = replicate (Suc i) (r, A_Verify) @ replicate (n - Suc i) (r, A_Start)"
    using s'(1) s(2) Suc.prems by (simp add: solo_reqs replicate_front del: replicate_Suc)
  moreover have "bucket_at L (client_ip r) (auth_view L s') = fresh_bucket L" using b(2) s(3) s'(3) by simp
  ultimately show ?case by (intro exI [of _ s']) simp
qed

lemma crowd_records:
  assumes path: "rq_path r \<notin> set skip" and tok: "f_le (Fin 1) (lib_Tokens L (fresh_bucket L) t0)"
    and key: "verify_key keys r = None"
  shows "i \<le> n \<Longrightarrow> \<exists>s. crowd L keys skip n t0 s \<and> am_reqs s = replicate i (r, A_Denied) @ replicate (n - i) (r, A_Verify)"
proof (induction i)
  case 0
  from crowd_checks [OF path tok order_refl] show ?case by fastforce
next
  case (Suc i)
  then obtain s where s: "crowd L keys skip n t0 s" "am_reqs s = replicate i (r, A_Denied) @ replicate (n - i) (r, A_Verify)"
    by auto
  have i: "i < length (am_reqs s)" "am_reqs s ! i = (r, A_Verify)" "am_now s \<le> t0"
    using s Suc.prems by (simp_all add: replicate_front)
  let ?s1 = "\<lparr>am_heap = am_heap s, am_ips = am_ips s, am_now = t0, am_reqs = (am_reqs s)[i := (r, A_Load True)]\<rparr>"
  have 1: "solo L keys skip i r (A_Load True) s ?s1" by (rule solo_move [OF i]) (simp add: key)
  have inv: "auth_inv keys ?s1" using solo_inv [OF 1] auth_reach_inv s(1) by blast
  have i1: "i < length (am_reqs ?s1)" "am_reqs ?s1 ! i = (r, A_Load True)" "am_now ?s1 \<le> t0" using i by simp_all
  obtain s' where s': "solo L keys skip i r A_Denied ?s1 s'" "am_now s' = t0"
    using solo_recorded [OF i1 inv] by metis
  have solo: "solo L keys skip i r A_Denied s s'" by (rule solo_trans [OF 1 s'(1)])
  have "crowd L keys skip n t0 s'" using solo_reach [OF solo] s s'(2) Suc.prems by simp
  moreover have "am_reqs s' = replicate (Suc i) (r, A_Denied) @ replicate (n - Suc i) (r, A_Verify)"
    using solo s(2) Suc.prems by (simp add: solo_reqs replicate_front del: replicate_Suc)
  ultimately show ?case by blast
qed

section \<open>Properties\<close>

text \<open>
  One bucket for each address. Under every interleaving, two requests that are about to use
  a bucket use the same one exactly when they come from the same address, it is the bucket that
  the map holds for that address, and no step ever replaces it: no failure is recorded in a
  bucket that later checks do not see.
\<close>
theorem one_bucket_per_address:
  assumes "auth_reach L keys skip G t0 s" "auth_step L keys skip l s = Some s'"
    and "j < length (am_reqs s)" "am_reqs s ! j = (r, A_Use c a)"
    and "k < length (am_reqs s)" "am_reqs s ! k = (r', A_Use c' a')"
  shows "(a = a' \<longleftrightarrow> client_ip r = client_ip r') \<and> am_ips s (client_ip r) = Some a \<and> a < length (am_heap s)
    \<and> am_ips s' (client_ip r) = Some a"
proof -
  have inv: "auth_inv keys s" by (rule auth_reach_inv [OF assms(1)])
  then have ok: "auth_pc_ok keys (am_ips s) (am_reqs s ! j)" "auth_pc_ok keys (am_ips s) (am_reqs s ! k)"
    using assms(3,5) by (simp_all add: auth_inv_def list_all_length)
  have "am_ips s' (client_ip r) = Some a"
  proof (cases l)
    case (A_Move i now)
    from assms(2) [unfolded A_Move] show ?thesis
      by (rule auth_move_cases) (use ok assms(4) in \<open>auto elim!: auth_pc_step_cases\<close>)
  qed (use assms(2,4) ok in auto)
  with inv ok assms(4,6) show ?thesis by (auto simp: auth_inv_def)
qed

text \<open>A guess, three times at once.\<close>
definition demo_guess :: http_request where
  "demo_guess = demo_http ''Bearer guess''"

lemma demo_guess_facts:
  "rq_path demo_guess \<notin> set [''/healthz'']" "verify_key [''secret-key''] demo_guess = None"
  "f_le (Fin 1) (lib_Tokens exact_lib (fresh_bucket exact_lib) 0)"
  by (simp_all add: demo_guess_def demo_http_def verify_key_bearer bearer_key_def exact_lib_def fresh_bucket_def
      newAuthFailureLimiter_def exact_level_def f_le_def Let_def)

theorem one_bucket_per_address_witness:
  "\<exists>s s'. auth_reach exact_lib [''secret-key''] [''/healthz''] (\<lambda>s. True) 0 s
     \<and> am_reqs s = [(demo_guess, A_Use False 0)] \<and> am_ips s (client_ip demo_guess) = Some 0
     \<and> auth_step exact_lib [''secret-key''] [''/healthz''] (A_Arrive demo_guess) s = Some s'
     \<and> am_ips s' (client_ip demo_guess) = Some 0"
proof -
  let ?step = "auth_step exact_lib [''secret-key''] [''/healthz'']"
  let ?r = "auth_reach exact_lib [''secret-key''] [''/healthz''] (\<lambda>s. True) 0"
  let ?s = "\<lambda>h m p. \<lparr>am_heap = h, am_ips = m, am_now = 0, am_reqs = [(demo_guess, p)]\<rparr>"
  let ?m = "Map.empty(client_ip demo_guess \<mapsto> 0)" and ?b = "fresh_bucket exact_lib"
  have "?r (auth_init 0)" by (rule auth_begin)
  then have "?r (?s [] Map.empty A_Start)" by (rule auth_more [where l = "A_Arrive demo_guess"]) (simp_all add: auth_init_def)
  then have "?r (?s [] Map.empty (A_Load False))"
    by (rule auth_more [where l = "A_Move 0 0"]) (use demo_guess_facts(1) in simp_all)
  then have "?r (?s [] Map.empty (A_Store False))" by (rule auth_more [where l = "A_Move 0 0"]) simp_all
  then have r: "?r (?s [?b] ?m (A_Use False 0))" by (rule auth_more [where l = "A_Move 0 0"]) simp_all
  obtain s' where st: "?step (A_Arrive demo_guess) (?s [?b] ?m (A_Use False 0)) = Some s'" by simp
  from one_bucket_per_address [OF r st, of 0 demo_guess False 0 0 demo_guess False 0] r st show ?thesis
    by (intro exI [of _ "?s [?b] ?m (A_Use False 0)"] exI [of _ s']) simp
qed

text \<open>
  C12: guessing keys is slow even when the guesses run at the same time. If at no moment more
  than \<open>K\<close> guesses of an address are between their check and the recording of their failure,
  then over any period from the start the number of its guesses answered 401 is at most \<open>K\<close>
  times ten plus one for every six seconds of the period.
\<close>
theorem concurrent_guesses_bounded:
  assumes "bucket_law L lev" "auth_reach L keys skip (\<lambda>s. window keys ip s \<le> K) t0 s"
  shows "of_nat (answered_401 ip s) \<le> of_nat K * ((10 :: rat) + of_int (am_now s - t0) / of_int (6 * Second))"
proof -
  obtain n D where n: "answered_401 ip s + card (D :: nat set) \<le> K * n"
    "of_nat n + lev (bucket_of L ip s) (am_now s) \<le> 10 + of_int (am_now s - t0) / of_int (6 * Second)"
    using charged_reach [OF assms(2,1)] by (auto simp: charged_def)
  have "0 \<le> lev (bucket_of L ip s) (am_now s)" using assms(1) by (simp add: bucket_law_def)
  with n(2) have "(of_nat n :: rat) \<le> 10 + of_int (am_now s - t0) / of_int (6 * Second)" by linarith
  then have "(of_nat K * of_nat n :: rat) \<le> of_nat K * (10 + of_int (am_now s - t0) / of_int (6 * Second))"
    by (rule mult_left_mono) simp
  moreover have "(of_nat (answered_401 ip s) :: rat) \<le> of_nat (K * n)" using n(1) by (simp only: of_nat_le_iff)
  ultimately show ?thesis by simp
qed

theorem concurrent_guesses_bounded_witness:
  "\<exists>s. auth_reach exact_lib [''secret-key''] [''/healthz''] (\<lambda>s. window [''secret-key''] (client_ip demo_guess) s \<le> 3) 0 s
     \<and> am_reqs s = replicate 3 (demo_guess, A_Denied) \<and> answered_401 (client_ip demo_guess) s \<le> 3 * 10"
proof -
  obtain s where s: "crowd exact_lib [''secret-key''] [''/healthz''] 3 0 s" "am_reqs s = replicate 3 (demo_guess, A_Denied)"
    using crowd_records [OF demo_guess_facts(1,3,2), of 3 3] by auto
  have "window keys ip s \<le> 3" if "length (am_reqs s) \<le> 3" for keys ip and s :: "(rat \<times> instant) auth_sys"
    using that card_mono [of "{..<length (am_reqs s)}" "indices (guessing keys ip) (am_reqs s)"]
    by (force simp: window_def indices_def)
  then have r: "auth_reach exact_lib [''secret-key''] [''/healthz''] (\<lambda>s. window [''secret-key''] (client_ip demo_guess) s \<le> 3) 0 s"
    using auth_reach_mono [OF conjunct1 [OF s(1)]] by simp
  from concurrent_guesses_bounded [OF exact_bucket r] s(1)
  have "(of_nat (answered_401 (client_ip demo_guess) s) :: rat) \<le> of_nat (3 * 10)" by simp
  then have "answered_401 (client_ip demo_guess) s \<le> 3 * 10" by (simp only: of_nat_le_iff)
  with r s(2) show ?thesis by blast
qed

text \<open>
  C16: the budget of ten does not hold for simultaneous guesses. Checking and recording are two
  operations, so any number of guesses that arrive together from one address can all pass the
  check before the first failure is recorded: every one of them is answered 401, at one instant.
\<close>
theorem check_then_record_race:
  assumes "rq_path r \<notin> set skip" "verify_key keys r = None"
    and "f_le (Fin 1) (lib_Tokens L (fresh_bucket L) t0)"
  shows "\<exists>s. auth_reach L keys skip (\<lambda>s. True) t0 s \<and> am_now s = t0 \<and> am_reqs s = replicate n (r, A_Denied)
    \<and> answered_401 (client_ip r) s = n"
proof -
  obtain s where s: "crowd L keys skip n t0 s" "am_reqs s = replicate n (r, A_Denied)"
    using crowd_records [OF assms(1,3,2) order_refl] by auto
  have "auth_reach L keys skip (\<lambda>s. True) t0 s" by (rule auth_reach_mono [OF conjunct1 [OF s(1)]]) simp
  moreover have "indices (denied (client_ip r)) (am_reqs s) = {..<n}" by (auto simp: s(2) indices_def)
  ultimately show ?thesis using s by (auto simp: answered_401_def)
qed

theorem check_then_record_race_witness:
  "\<exists>s. auth_reach exact_lib [''secret-key''] [''/healthz''] (\<lambda>s. True) 0 s \<and> am_now s = 0
     \<and> answered_401 (client_ip demo_guess) s = 1000"
  using check_then_record_race [OF demo_guess_facts, of 1000] by blast



end
