(* ===== verification/Metrics.thy ===== *)
theory Metrics
  imports Domain
begin

text \<open>
  The two implementations of the \<^verbatim>\<open>ports.MetricsRecorder\<close> port:
  \<^verbatim>\<open>internal/metrics/prometheus.go\<close> and the counting stub of
  \<^verbatim>\<open>internal/testutil/recorder.go\<close>. The Prometheus client library is not part of the
  repository: the recorder is modelled by the calls it makes on its metric vectors
  (\<open>prom_call\<close>), and \<open>New_Recorder\<close> by the metrics it registers. The locale
  \<open>metrics_recorder\<close> is the port's contract as the components rely on it, each method
  counted once and under its own kind; both recorders interpret it.
\<close>

section \<open>The Prometheus recorder\<close>

definition metricCBState :: string where "metricCBState = ''carrier_circuit_breaker_state''"
definition metricP95Latency :: string where "metricP95Latency = ''carrier_p95_latency_ms''"
definition metricQuoteLatency :: string where "metricQuoteLatency = ''carrier_quote_latency_seconds''"
definition metricFanOutDuration :: string where
  "metricFanOutDuration = ''orchestrator_fan_out_duration_seconds''"
definition metricRequestsTotal :: string where "metricRequestsTotal = ''carrier_requests_total''"
definition metricHedgesTotal :: string where "metricHedgesTotal = ''hedge_requests_total''"
definition metricCBTransitions :: string where
  "metricCBTransitions = ''circuit_breaker_transitions_total''"
definition metricRateLimitTotal :: string where "metricRateLimitTotal = ''rate_limit_exceeded_total''"

lemmas metric_names = metricCBState_def metricP95Latency_def metricQuoteLatency_def
  metricFanOutDuration_def metricRequestsTotal_def metricHedgesTotal_def metricCBTransitions_def
  metricRateLimitTotal_def

text \<open>Histogram bounds are the decimal literals of the source, as rationals.\<close>
definition quoteLatencyBuckets :: "rat list" where
  "quoteLatencyBuckets = [1/100, 1/40, 1/20, 1/10, 1/4, 1/2, 1, 5/2, 5, 10]"

definition fanOutDurationBuckets :: "rat list" where
  "fanOutDurationBuckets = [1/20, 1/10, 1/4, 1/2, 1, 5/2, 5, 10]"

datatype metric_kind = Gauge | Counter | Histogram "rat list"

record metric_desc =
  md_name :: string
  md_kind :: metric_kind
  md_labels :: "string list"

text \<open>\<^verbatim>\<open>New\<close>: what is handed to \<^verbatim>\<open>MustRegister\<close>, in order.\<close>
definition New_Recorder :: "metric_desc list" where
  "New_Recorder =
     [\<lparr>md_name = metricCBState, md_kind = Gauge, md_labels = [''carrier_id'']\<rparr>,
      \<lparr>md_name = metricP95Latency, md_kind = Gauge, md_labels = [''carrier_id'']\<rparr>,
      \<lparr>md_name = metricQuoteLatency, md_kind = Histogram quoteLatencyBuckets,
       md_labels = [''carrier_id'', ''status'']\<rparr>,
      \<lparr>md_name = metricFanOutDuration, md_kind = Histogram fanOutDurationBuckets, md_labels = []\<rparr>,
      \<lparr>md_name = metricRequestsTotal, md_kind = Counter, md_labels = [''carrier_id'', ''status'']\<rparr>,
      \<lparr>md_name = metricHedgesTotal, md_kind = Counter,
       md_labels = [''carrier_id'', ''trigger_carrier'']\<rparr>,
      \<lparr>md_name = metricCBTransitions, md_kind = Counter,
       md_labels = [''carrier_id'', ''from_state'', ''to_state'']\<rparr>,
      \<lparr>md_name = metricRateLimitTotal, md_kind = Counter, md_labels = [''carrier_id'']\<rparr>]"

text \<open>\<^verbatim>\<open>WithLabelValues(labels).Inc()\<close>, \<^verbatim>\<open>.Set(v)\<close> and \<^verbatim>\<open>.Observe(v)\<close> on a named metric.\<close>
datatype prom_call =
    Inc string "string list"
  | Set string "string list" float64
  | Observe string "string list" float64

definition cbStateLabel :: "CBState \<Rightarrow> string" where
  "cbStateLabel s =
     (if s = CBStateClosed then ''closed''
      else if s = CBStateHalfOpen then ''halfopen''
      else if s = CBStateOpen then ''open'' else ''unknown'')"

text \<open>\<^verbatim>\<open>Duration.Seconds()\<close>: whole seconds plus the remaining nanoseconds, both truncated.\<close>
definition Seconds :: "duration \<Rightarrow> float64" where
  "Seconds d = f_add (float_of_int (d sdiv Second))
     (f_div (float_of_int (d smod Second)) (Fin 1000000000))"

fun PrometheusRecorder :: "MetricsCall \<Rightarrow> prom_call list" where
  "PrometheusRecorder (RecordQuote carrierID latency status) =
     [Inc metricRequestsTotal [carrierID, status],
      Observe metricQuoteLatency [carrierID, status] (Seconds latency)]"
| "PrometheusRecorder (RecordHedge hedgeCarrierID triggerCarrierID) =
     [Inc metricHedgesTotal [hedgeCarrierID, triggerCarrierID]]"
| "PrometheusRecorder (RecordCBTransition carrierID from to) =
     [Inc metricCBTransitions [carrierID, cbStateLabel from, cbStateLabel to]]"
| "PrometheusRecorder (RecordRateLimitRejection carrierID) = [Inc metricRateLimitTotal [carrierID]]"
| "PrometheusRecorder (RecordFanOutDuration duration) =
     [Observe metricFanOutDuration [] (Seconds duration)]"
| "PrometheusRecorder (SetCBState carrierID state) =
     [Set metricCBState [carrierID] (float_of_int (sint state))]"
| "PrometheusRecorder (SetP95Latency carrierID ms) = [Set metricP95Latency [carrierID] ms]"

text \<open>The recorder's history: the calls made on the metric vectors so far, newest last.\<close>
definition prom_apply :: "MetricsCall \<Rightarrow> prom_call list \<Rightarrow> prom_call list" where
  "prom_apply c h = h @ PrometheusRecorder c"

section \<open>The counting stub\<close>

record NoopRecorder =
  RecordQuoteCount :: "64 word"
  RecordHedgeCount :: "64 word"
  RecordCBTransitionCount :: "64 word"
  RecordRateLimitRejectionCount :: "64 word"
  RecordFanOutDurationCount :: "64 word"
  SetCBStateCount :: "64 word"
  SetP95LatencyCount :: "64 word"

definition NewNoopRecorder :: NoopRecorder where
  "NewNoopRecorder = \<lparr>RecordQuoteCount = 0, RecordHedgeCount = 0, RecordCBTransitionCount = 0,
     RecordRateLimitRejectionCount = 0, RecordFanOutDurationCount = 0, SetCBStateCount = 0,
     SetP95LatencyCount = 0\<rparr>"

fun noop_apply :: "MetricsCall \<Rightarrow> NoopRecorder \<Rightarrow> NoopRecorder" where
  "noop_apply (RecordQuote _ _ _) n = n\<lparr>RecordQuoteCount := RecordQuoteCount n + 1\<rparr>"
| "noop_apply (RecordHedge _ _) n = n\<lparr>RecordHedgeCount := RecordHedgeCount n + 1\<rparr>"
| "noop_apply (RecordCBTransition _ _ _) n =
     n\<lparr>RecordCBTransitionCount := RecordCBTransitionCount n + 1\<rparr>"
| "noop_apply (RecordRateLimitRejection _) n =
     n\<lparr>RecordRateLimitRejectionCount := RecordRateLimitRejectionCount n + 1\<rparr>"
| "noop_apply (RecordFanOutDuration _) n =
     n\<lparr>RecordFanOutDurationCount := RecordFanOutDurationCount n + 1\<rparr>"
| "noop_apply (SetCBState _ _) n = n\<lparr>SetCBStateCount := SetCBStateCount n + 1\<rparr>"
| "noop_apply (SetP95Latency _ _) n = n\<lparr>SetP95LatencyCount := SetP95LatencyCount n + 1\<rparr>"

section \<open>The port's contract\<close>

datatype call_kind = KQuote | KHedge | KTransition | KRejection | KFanOut | KState | KP95

fun kind_of :: "MetricsCall \<Rightarrow> call_kind" where
  "kind_of (RecordQuote _ _ _) = KQuote"
| "kind_of (RecordHedge _ _) = KHedge"
| "kind_of (RecordCBTransition _ _ _) = KTransition"
| "kind_of (RecordRateLimitRejection _) = KRejection"
| "kind_of (RecordFanOutDuration _) = KFanOut"
| "kind_of (SetCBState _ _) = KState"
| "kind_of (SetP95Latency _ _) = KP95"

locale metrics_recorder =
  fixes record_call :: "MetricsCall \<Rightarrow> 'r \<Rightarrow> 'r" and calls_of :: "call_kind \<Rightarrow> 'r \<Rightarrow> 64 word"
  assumes record_counts:
    "calls_of k (record_call c r) = calls_of k r + (if kind_of c = k then 1 else 0)"
begin

lemma fold_counts:
  "calls_of k (fold record_call cs r)
    = calls_of k r + of_nat (length (filter (\<lambda>c. kind_of c = k) cs))"
  by (induction cs arbitrary: r) (auto simp: record_counts algebra_simps)

lemma fold_counts_perm:
  assumes "mset cs = mset cs'"
  shows "calls_of k (fold record_call cs r) = calls_of k (fold record_call cs' r)"
  by (simp add: fold_counts flip: size_mset mset_filter) (simp add: assms)

end

fun noop_calls :: "call_kind \<Rightarrow> NoopRecorder \<Rightarrow> 64 word" where
  "noop_calls KQuote n = RecordQuoteCount n"
| "noop_calls KHedge n = RecordHedgeCount n"
| "noop_calls KTransition n = RecordCBTransitionCount n"
| "noop_calls KRejection n = RecordRateLimitRejectionCount n"
| "noop_calls KFanOut n = RecordFanOutDurationCount n"
| "noop_calls KState n = SetCBStateCount n"
| "noop_calls KP95 n = SetP95LatencyCount n"

interpretation noop: metrics_recorder noop_apply noop_calls
proof
  fix k c r
  show "noop_calls k (noop_apply c r) = noop_calls k r + (if kind_of c = k then 1 else 0)"
    by (cases k; cases c) auto
qed

text \<open>The kind of port call a call on a metric vector belongs to, by the metric's name.\<close>
fun prom_metric :: "prom_call \<Rightarrow> string" where
  "prom_metric (Inc m ls) = m"
| "prom_metric (Set m ls v) = m"
| "prom_metric (Observe m ls v) = m"

fun kind_metric :: "call_kind \<Rightarrow> string" where
  "kind_metric KQuote = metricRequestsTotal"
| "kind_metric KHedge = metricHedgesTotal"
| "kind_metric KTransition = metricCBTransitions"
| "kind_metric KRejection = metricRateLimitTotal"
| "kind_metric KFanOut = metricFanOutDuration"
| "kind_metric KState = metricCBState"
| "kind_metric KP95 = metricP95Latency"

definition prom_calls :: "call_kind \<Rightarrow> prom_call list \<Rightarrow> 64 word" where
  "prom_calls k h = of_nat (length (filter (\<lambda>p. prom_metric p = kind_metric k) h))"

interpretation prom: metrics_recorder prom_apply prom_calls
proof
  fix k c r
  show "prom_calls k (prom_apply c r) = prom_calls k r + (if kind_of c = k then 1 else 0)"
    by (cases k; cases c) (simp_all add: prom_calls_def prom_apply_def metric_names)
qed

section \<open>Properties\<close>

text \<open>What \<^verbatim>\<open>WithLabelValues\<close> and \<^verbatim>\<open>MustRegister\<close> require in order not to panic.\<close>

fun matches_desc :: "metric_desc \<Rightarrow> prom_call \<Rightarrow> bool" where
  "matches_desc d (Inc m ls) =
     (md_name d = m \<and> md_kind d = Counter \<and> length (md_labels d) = length ls)"
| "matches_desc d (Set m ls v) =
     (md_name d = m \<and> md_kind d = Gauge \<and> length (md_labels d) = length ls)"
| "matches_desc d (Observe m ls v) =
     (md_name d = m \<and> (\<exists>bs \<in> {quoteLatencyBuckets, fanOutDurationBuckets}. md_kind d = Histogram bs)
      \<and> length (md_labels d) = length ls)"

text \<open>
  The registered metrics have distinct names and strictly increasing histogram bounds, and
  every call the recorder ever makes is on a registered metric of the right kind with the
  right number of label values, so neither registration nor a recorder method can panic.
\<close>
theorem recorder_never_panics:
  "distinct (map md_name New_Recorder)
   \<and> sorted_wrt (<) quoteLatencyBuckets \<and> sorted_wrt (<) fanOutDurationBuckets
   \<and> list_all (\<lambda>p. list_ex (\<lambda>d. matches_desc d p) New_Recorder) (PrometheusRecorder c)"
proof (intro conjI)
  show "distinct (map md_name New_Recorder)" by (simp add: New_Recorder_def metric_names)
  show "sorted_wrt (<) quoteLatencyBuckets" by (simp add: quoteLatencyBuckets_def)
  show "sorted_wrt (<) fanOutDurationBuckets" by (simp add: fanOutDurationBuckets_def)
  show "list_all (\<lambda>p. list_ex (\<lambda>d. matches_desc d p) New_Recorder) (PrometheusRecorder c)"
    by (cases c) (simp_all add: New_Recorder_def)
qed

text \<open>
  The counting stub and the Prometheus recorder agree: after any calls of the port, in any
  order, each counter of the stub equals the number of updates of the corresponding metric.
\<close>
theorem recorders_agree:
  "noop_calls k (fold noop_apply cs NewNoopRecorder) = prom_calls k (fold prom_apply cs [])"
  unfolding noop.fold_counts prom.fold_counts
  by (cases k) (simp_all add: NewNoopRecorder_def prom_calls_def)

end
